(* ===== verification/Prelude.thy ===== *)
theory Prelude
  imports Main "HOL-Library.Word"
begin

text \<open>
  Shared ground of the development: the C integer types of the x86-64 Linux build as words,
  C strings as character lists whose terminating NUL is the end of the list, the parts of
  \<^verbatim>\<open><ctype.h>\<close> and \<^verbatim>\<open><stdlib.h>\<close> the sources call (C locale), byte
  order conversions, and the generic lemmas about lists, words and division that the component
  theories use.
\<close>

unbundle bit_operations_syntax

section \<open>Collections of facts\<close>

named_theorems byte_simps \<open>splitting words into bytes and joining them\<close>
named_theorems cstr_simps \<open>reading C strings\<close>
named_theorems ctype_simps \<open>character classes\<close>

section \<open>Machine integers\<close>

type_synonym u8 = "8 word"
type_synonym u16 = "16 word"
type_synonym u32 = "32 word"
type_synonym u64 = "64 word"

text \<open>The shift and rotation idioms of the sources, on a word of any width.\<close>

abbreviation shl :: "'a::len word \<Rightarrow> nat \<Rightarrow> 'a word" where
  "shl x n \<equiv> push_bit n x"

abbreviation shr :: "'a::len word \<Rightarrow> nat \<Rightarrow> 'a word" where
  "shr x n \<equiv> drop_bit n x"

lemma unat_bound: "unat (x::'a::len word) < 2 ^ LENGTH('a)"
  by (rule unsigned_less)

lemma even_unat_iff: "even (unat (x::'a::len word)) \<longleftrightarrow> even x"
proof -
  have "bit (unat x) 0 = bit x 0" by (simp only: bit_unsigned_iff) simp
  then show ?thesis by (simp add: bit_0)
qed

lemma unat_shr: "unat (shr (x::'a::len word) n) = unat x div 2 ^ n"
  by (simp add: unat_drop_bit_eq flip: drop_bit_eq_div)

lemma unat_shl: "unat (shl (x::'a::len word) n) = (unat x * 2 ^ n) mod 2 ^ LENGTH('a)"
  by (simp add: unsigned_push_bit_eq flip: take_bit_eq_mod push_bit_eq_mult)

lemma unat_mult_small:
  fixes x y :: "'a::len word"
  assumes "unat x * unat y < 2 ^ LENGTH('a)"
  shows "unat (x * y) = unat x * unat y"
  using assms by (simp add: unat_word_ariths)

lemma unat_add_small:
  fixes x y :: "'a::len word"
  assumes "unat x + unat y < 2 ^ LENGTH('a)"
  shows "unat (x + y) = unat x + unat y"
  using assms by (simp add: unat_word_ariths)

lemma unat_sub_small:
  fixes x y :: "'a::len word"
  assumes "unat y \<le> unat x"
  shows "unat (x - y) = unat x - unat y"
  using assms by (simp add: unat_sub word_le_nat_alt)

lemma mod_add_small: "a mod n + b < n \<Longrightarrow> (a + b) mod n = a mod n + (b::nat)"
  by (metis mod_add_left_eq mod_less)

lemma mod_add_full: "a mod n + b = n \<Longrightarrow> (a + b) mod n = (0::nat)"
  by (metis mod_add_left_eq mod_self)

section \<open>C strings\<close>

text \<open>
  A pointer into a NUL-terminated string is the list of the characters from there to the NUL.
  Reading the character it points at gives NUL at the end of the list.
\<close>

abbreviation NUL :: char where
  "NUL \<equiv> CHR 0x00"

definition peek :: "string \<Rightarrow> char" where
  "peek s = (case s of [] \<Rightarrow> NUL | c # _ \<Rightarrow> c)"

definition peek_at :: "string \<Rightarrow> nat \<Rightarrow> char" where
  "peek_at s i = (if i < length s then s ! i else NUL)"

definition no_nul :: "string \<Rightarrow> bool" where
  "no_nul s \<longleftrightarrow> NUL \<notin> set s"

lemma peek_Nil [simp, cstr_simps]: "peek [] = NUL"
  by (simp add: peek_def)

lemma peek_Cons [simp, cstr_simps]: "peek (c # s) = c"
  by (simp add: peek_def)

lemma peek_at_0 [simp, cstr_simps]: "peek_at s 0 = peek s"
  by (cases s) (simp_all add: peek_at_def)

lemma peek_at_Suc [simp, cstr_simps]: "peek_at (c # s) (Suc i) = peek_at s i"
  by (simp add: peek_at_def)

lemma peek_at_Nil [simp, cstr_simps]: "peek_at [] i = NUL"
  by (simp add: peek_at_def)

lemma no_nul_Nil [simp]: "no_nul []"
  by (simp add: no_nul_def)

lemma no_nul_Cons [simp]: "no_nul (c # s) \<longleftrightarrow> c \<noteq> NUL \<and> no_nul s"
  by (auto simp: no_nul_def)

lemma no_nul_append [simp]: "no_nul (s @ t) \<longleftrightarrow> no_nul s \<and> no_nul t"
  by (auto simp: no_nul_def)

lemma peek_NUL_iff: "no_nul s \<Longrightarrow> peek s = NUL \<longleftrightarrow> s = []"
  by (cases s) auto

section \<open>Character classes (C locale)\<close>

abbreviation code :: "char \<Rightarrow> nat" where
  "code c \<equiv> of_char c"

definition isdigit :: "char \<Rightarrow> bool" where
  "isdigit c \<longleftrightarrow> 48 \<le> code c \<and> code c \<le> 57"

definition isupper :: "char \<Rightarrow> bool" where
  "isupper c \<longleftrightarrow> 65 \<le> code c \<and> code c \<le> 90"

definition islower :: "char \<Rightarrow> bool" where
  "islower c \<longleftrightarrow> 97 \<le> code c \<and> code c \<le> 122"

definition isalpha :: "char \<Rightarrow> bool" where
  "isalpha c \<longleftrightarrow> isupper c \<or> islower c"

definition isalnum :: "char \<Rightarrow> bool" where
  "isalnum c \<longleftrightarrow> isalpha c \<or> isdigit c"

definition isspace :: "char \<Rightarrow> bool" where
  "isspace c \<longleftrightarrow> code c = 32 \<or> 9 \<le> code c \<and> code c \<le> 13"

lemmas ctype_defs = isdigit_def isupper_def islower_def isalpha_def isalnum_def isspace_def

lemma isdigit_not_space [ctype_simps]: "isdigit c \<Longrightarrow> \<not> isspace c"
  by (auto simp: ctype_defs)

lemma isdigit_not_alpha [ctype_simps]: "isdigit c \<Longrightarrow> \<not> isalpha c"
  by (auto simp: ctype_defs)

lemma isspace_NUL [simp]: "\<not> isspace NUL" and isdigit_NUL [simp]: "\<not> isdigit NUL"
  and isalnum_NUL [simp]: "\<not> isalnum NUL"
  by (simp_all add: ctype_defs)

section \<open>Decimal text\<close>

text \<open>The digits \<^verbatim>\<open>printf\<close> writes for \<open>%u\<close> and its wider forms.\<close>

fun dec_nat :: "nat \<Rightarrow> string" where
  "dec_nat n = (if n < 10 then [char_of (48 + n)] else dec_nat (n div 10) @ [char_of (48 + n mod 10)])"

declare dec_nat.simps [simp del]

definition dec_int :: "int \<Rightarrow> string" where
  "dec_int i = (if i < 0 then CHR ''-'' # dec_nat (nat (- i)) else dec_nat (nat i))"

lemma isdigit_char_of: "d < 10 \<Longrightarrow> isdigit (char_of (48 + d :: nat))"
  by (simp add: isdigit_def)

lemma dec_nat_digits: "list_all isdigit (dec_nat n)"
proof (induction n rule: dec_nat.induct)
  case (1 n)
  show ?case
    using 1 isdigit_char_of [of "n mod 10"] isdigit_char_of [of n]
    by (subst dec_nat.simps) simp
qed

lemma dec_nat_not_Nil [simp]: "dec_nat n \<noteq> []"
  by (subst dec_nat.simps) simp

section \<open>Lists\<close>

lemma list_all_nth_iff: "list_all P xs \<longleftrightarrow> (\<forall>i < length xs. P (xs ! i))"
  by (simp add: list_all_length)

lemma take_append_drop_Suc:
  "i < length xs \<Longrightarrow> take i xs @ xs ! i # drop (Suc i) xs = xs"
  by (simp add: id_take_nth_drop [symmetric])

end
