(* ===== verification/Bytes.thy ===== *)
theory Bytes
  imports Prelude
begin

text \<open>
  Memory as bytes: loads and stores of multi-byte words on the little-endian build, the
  byte-order macros of \<^verbatim>\<open>include/platform.h\<close>, the rotations of
  \<^verbatim>\<open>libbb/hash_md5_sha.c\<close>, and \<open>memcpy\<close>/\<open>memset\<close> into a fixed buffer.
\<close>

section \<open>Buffers\<close>

text \<open>\<open>memcpy(buf + pos, src, n)\<close>.\<close>

definition overwrite :: "'a list \<Rightarrow> nat \<Rightarrow> 'a list \<Rightarrow> 'a list" where
  "overwrite buf pos src = take pos buf @ src @ drop (pos + length src) buf"

lemma length_overwrite [simp]:
  "pos + length src \<le> length buf \<Longrightarrow> length (overwrite buf pos src) = length buf"
  by (simp add: overwrite_def)

lemma take_overwrite:
  "pos \<le> length buf \<Longrightarrow> take (pos + length src) (overwrite buf pos src) = take pos buf @ src"
  by (simp add: overwrite_def)

lemma overwrite_all:
  "pos \<le> length buf \<Longrightarrow> pos + length src = length buf \<Longrightarrow> overwrite buf pos src = take pos buf @ src"
  by (simp add: overwrite_def)

section \<open>Words and bytes\<close>

definition bytes_le :: "nat \<Rightarrow> 'a::len word \<Rightarrow> u8 list" where
  "bytes_le n w = map (\<lambda>i. ucast (shr w (8 * i))) [0..<n]"

fun word_le :: "u8 list \<Rightarrow> 'a::len word" where
  "word_le [] = 0"
| "word_le (b # bs) = ucast b OR shl (word_le bs) 8"

definition bytes_be :: "nat \<Rightarrow> 'a::len word \<Rightarrow> u8 list" where
  "bytes_be n w = rev (bytes_le n w)"

definition word_be :: "u8 list \<Rightarrow> 'a::len word" where
  "word_be bs = word_le (rev bs)"

lemma length_bytes_le [simp]: "length (bytes_le n w) = n"
  by (simp add: bytes_le_def)

lemma length_bytes_be [simp]: "length (bytes_be n w) = n"
  by (simp add: bytes_be_def)

lemma bit_word_le:
  "bit (word_le bs :: 'a::len word) i \<longleftrightarrow>
     i < LENGTH('a) \<and> i < 8 * length bs \<and> bit (bs ! (i div 8)) (i mod 8)"
proof (induction bs arbitrary: i)
  case Nil
  then show ?case by simp
next
  case (Cons b bs)
  show ?case
  proof (cases "i < 8")
    case True
    then show ?thesis
      by (auto simp: bit_or_iff bit_push_bit_iff bit_ucast_iff dest: bit_imp_le_length)
  next
    case False
    then have "i div 8 = Suc ((i - 8) div 8)" "(i - 8) mod 8 = i mod 8"
      by (simp_all add: le_div_geq le_mod_geq)
    moreover have "\<not> bit b i"
      using False by (auto dest: bit_imp_le_length)
    ultimately show ?thesis
      using False Cons.IH [of "i - 8"]
      by (auto simp: bit_or_iff bit_push_bit_iff bit_ucast_iff possible_bit_word)
  qed
qed

lemma word_le_bytes_le:
  fixes w :: "'a::len word"
  assumes "LENGTH('a) \<le> 8 * n"
  shows "word_le (bytes_le n w) = w"
proof (rule bit_word_eqI)
  fix i assume "i < LENGTH('a)"
  moreover from this have "i div 8 < n" using assms by (simp add: div_less_iff_less_mult mult.commute)
  ultimately show "bit (word_le (bytes_le n w) :: 'a word) i \<longleftrightarrow> bit w i"
    using assms by (auto simp: bit_word_le bytes_le_def bit_ucast_iff bit_drop_bit_eq)
qed

section \<open>Byte order (\<^verbatim>\<open>bswap_32\<close>, \<^verbatim>\<open>bswap_64\<close>)\<close>

definition bswap_32 :: "u32 \<Rightarrow> u32" where
  "bswap_32 x = shr (x AND 0xff000000) 24 OR shr (x AND 0x00ff0000) 8
     OR shl (x AND 0x0000ff00) 8 OR shl (x AND 0x000000ff) 24"

definition bswap_64 :: "u64 \<Rightarrow> u64" where
  "bswap_64 x = shr (x AND 0xff00000000000000) 56 OR shr (x AND 0x00ff000000000000) 40
     OR shr (x AND 0x0000ff0000000000) 24 OR shr (x AND 0x000000ff00000000) 8
     OR shl (x AND 0x00000000ff000000) 8 OR shl (x AND 0x0000000000ff0000) 24
     OR shl (x AND 0x000000000000ff00) 40 OR shl (x AND 0x00000000000000ff) 56"

lemma bytes_le_word_le:
  assumes "8 * length bs \<le> LENGTH('a::len)"
  shows "bytes_le (length bs) (word_le bs :: 'a word) = bs"
proof (rule nth_equalityI)
  fix i assume "i < length (bytes_le (length bs) (word_le bs :: 'a word))"
  then have i: "i < length bs" by simp
  show "bytes_le (length bs) (word_le bs :: 'a word) ! i = bs ! i"
  proof (rule bit_word_eqI)
    fix n assume n: "n < LENGTH(8)"
    then have "8 * i + n < 8 * length bs" using i by simp
    then show "bit (bytes_le (length bs) (word_le bs :: 'a word) ! i) n = bit (bs ! i) n"
      using i n assms by (simp add: bytes_le_def bit_ucast_iff bit_drop_bit_eq bit_word_le)
  qed
qed simp

lemma bswap_masks_32:
  "(0xff000000::u32) = push_bit 24 (mask 8)" "(0x00ff0000::u32) = push_bit 16 (mask 8)"
  "(0x0000ff00::u32) = push_bit 8 (mask 8)" "(0x000000ff::u32) = mask 8"
  by (simp_all add: mask_numeral)

lemma bswap_masks_64:
  "(0xff00000000000000::u64) = push_bit 56 (mask 8)" "(0x00ff000000000000::u64) = push_bit 48 (mask 8)"
  "(0x0000ff0000000000::u64) = push_bit 40 (mask 8)" "(0x000000ff00000000::u64) = push_bit 32 (mask 8)"
  "(0x00000000ff000000::u64) = push_bit 24 (mask 8)" "(0x0000000000ff0000::u64) = push_bit 16 (mask 8)"
  "(0x000000000000ff00::u64) = push_bit 8 (mask 8)" "(0x00000000000000ff::u64) = mask 8"
  by (simp_all add: mask_numeral)

lemma bytes_bswap_32 [byte_simps]: "bytes_le 4 (bswap_32 x) = bytes_be 4 x"
  unfolding bswap_32_def bswap_masks_32 bytes_le_def bytes_be_def
  by (simp add: upt_rec) (intro conjI; rule bit_word_eqI; auto simp: bit_simps)

lemma bytes_bswap_64 [byte_simps]: "bytes_le 8 (bswap_64 x) = bytes_be 8 x"
  unfolding bswap_64_def bswap_masks_64 bytes_le_def bytes_be_def
  by (simp add: upt_rec) (intro conjI; rule bit_word_eqI; auto simp: bit_simps)

text \<open>A swapped little-endian load is a big-endian load.\<close>

lemma bswap_32_word_le [byte_simps]:
  assumes "length bs = 4"
  shows "bswap_32 (word_le bs) = word_be bs"
proof -
  have "bswap_32 (word_le bs) = word_le (rev (bytes_le 4 (word_le bs :: u32)))"
    using word_le_bytes_le [of 4 "bswap_32 (word_le bs)"] by (simp add: bytes_bswap_32 bytes_be_def)
  then show ?thesis
    using bytes_le_word_le [of bs, where 'a = 32] assms by (simp add: word_be_def)
qed

lemma bswap_64_word_le [byte_simps]:
  assumes "length bs = 8"
  shows "bswap_64 (word_le bs) = word_be bs"
proof -
  have "bswap_64 (word_le bs) = word_le (rev (bytes_le 8 (word_le bs :: u64)))"
    using word_le_bytes_le [of 8 "bswap_64 (word_le bs)"] by (simp add: bytes_bswap_64 bytes_be_def)
  then show ?thesis
    using bytes_le_word_le [of bs, where 'a = 64] assms by (simp add: word_be_def)
qed

section \<open>Rotations\<close>

definition rotl32 :: "u32 \<Rightarrow> nat \<Rightarrow> u32" where
  "rotl32 x n = shl x n OR shr x (32 - n)"

definition rotr32 :: "u32 \<Rightarrow> nat \<Rightarrow> u32" where
  "rotr32 x n = shr x n OR shl x (32 - n)"

definition rotr64 :: "u64 \<Rightarrow> nat \<Rightarrow> u64" where
  "rotr64 x n = shr x n OR shl x (64 - n)"

definition rotl64 :: "u64 \<Rightarrow> nat \<Rightarrow> u64" where
  "rotl64 x n = shl x n OR shr x (64 - n)"

end
