(* ===== verification/Hash_Stream.thy ===== *)
theory Hash_Stream
  imports Bytes
begin

text \<open>
  The interfaces of the hash functions of \<^verbatim>\<open>libbb/hash_md5_sha.c\<close>.  \<open>block_buffer\<close> is the
  contract of a routine that feeds data through a fixed block buffer (the loop shared by
  \<^verbatim>\<open>common64_hash\<close> and \<^verbatim>\<open>sha512_hash\<close>); \<open>stream_hash\<close> is the contract
  begin/update/end offer their callers, with the consequence every caller relies on: the digest
  depends on the bytes only and not on how they were cut into calls.
\<close>

section \<open>Iterating a compression function over whole blocks\<close>

fun md_fold :: "('h \<Rightarrow> u8 list \<Rightarrow> 'h) \<Rightarrow> nat \<Rightarrow> 'h \<Rightarrow> u8 list \<Rightarrow> 'h" where
  "md_fold f n s m = (if n = 0 \<or> length m < n then s else md_fold f n (f s (take n m)) (drop n m))"

declare md_fold.simps [simp del]

lemma md_fold_short: "length m < n \<Longrightarrow> md_fold f n s m = s"
  by (subst md_fold.simps) simp

lemma md_fold_block: "0 < n \<Longrightarrow> length b = n \<Longrightarrow> md_fold f n s (b @ m) = md_fold f n (f s b) m"
  by (subst md_fold.simps) simp

lemma md_fold_one: "0 < n \<Longrightarrow> length b = n \<Longrightarrow> md_fold f n s b = f s b"
  using md_fold_block [of n b f s "[]"] by (simp add: md_fold_short)

lemma md_fold_append:
  assumes "0 < n" "n dvd length a"
  shows "md_fold f n s (a @ b) = md_fold f n (md_fold f n s a) b"
  using assms
proof (induction f n s a rule: md_fold.induct)
  case (1 f n s a)
  show ?case
  proof (cases "length a < n")
    case True
    with "1.prems" have "a = []" by (metis length_0_conv nat_dvd_not_less neq0_conv)
    then show ?thesis using "1.prems" by (simp add: md_fold_short)
  next
    case False
    then have len: "length (take n a) = n" by simp
    have a: "take n a @ drop n a = a" by simp
    have "md_fold f n s (a @ b) = md_fold f n (f s (take n a)) (drop n a @ b)"
      using md_fold_block [OF "1.prems"(1) len, of f s "drop n a @ b"] a
      by (simp only: append_assoc [symmetric])
    also have "\<dots> = md_fold f n (md_fold f n (f s (take n a)) (drop n a)) b"
      using "1.IH" "1.prems" False by (auto simp: dvd_diff_nat)
    also have "md_fold f n (f s (take n a)) (drop n a) = md_fold f n s a"
      using md_fold_block [OF "1.prems"(1) len, of f s "drop n a"] a by simp
    finally show ?thesis .
  qed
qed

text \<open>A simulation between two compression functions is one between their iterations.\<close>

lemma md_fold_sim:
  assumes "R s t" "\<And>s t b. R s t \<Longrightarrow> length b = n \<Longrightarrow> R (f s b) (g t b)"
  shows "R (md_fold f n s m) (md_fold g n t m)"
  using assms
proof (induction f n s m arbitrary: t rule: md_fold.induct)
  case (1 f n s m)
  then show ?case
    by (simp add: md_fold.simps [of f n s m] md_fold.simps [of g n t m])
qed

section \<open>Block buffering\<close>

text \<open>The message is cut at the last block boundary: what is before has been compressed, what is
  after lies in the buffer.\<close>

abbreviation (input) tail_len :: "nat \<Rightarrow> u8 list \<Rightarrow> nat" where
  "tail_len n m \<equiv> length m mod n"

definition whole_blocks :: "nat \<Rightarrow> u8 list \<Rightarrow> u8 list" where
  "whole_blocks n m = take (length m - tail_len n m) m"

definition partial_block :: "nat \<Rightarrow> u8 list \<Rightarrow> u8 list" where
  "partial_block n m = drop (length m - tail_len n m) m"

lemma blocks_split [simp]: "whole_blocks n m @ partial_block n m = m"
  by (simp add: whole_blocks_def partial_block_def)

lemma length_partial_block [simp]: "length (partial_block n m) = length m mod n"
  by (simp add: partial_block_def)

lemma length_whole_blocks: "length (whole_blocks n m) = length m - length m mod n"
  by (simp add: whole_blocks_def)

lemma whole_blocks_dvd: "n dvd length (whole_blocks n m)"
  by (simp add: length_whole_blocks minus_mod_eq_mult_div)

lemma blocks_append:
  assumes "length (partial_block n m) + length d < n"
  shows "whole_blocks n (m @ d) = whole_blocks n m" "partial_block n (m @ d) = partial_block n m @ d"
proof -
  have "(length m + length d) mod n = length m mod n + length d"
    using assms by (simp only: length_partial_block mod_add_small)
  then show "whole_blocks n (m @ d) = whole_blocks n m" "partial_block n (m @ d) = partial_block n m @ d"
    by (simp_all add: whole_blocks_def partial_block_def)
qed

lemma blocks_append_full:
  assumes "length (partial_block n m) + length d = n" "0 < n"
  shows "whole_blocks n (m @ d) = m @ d" "partial_block n (m @ d) = []"
proof -
  have "(length m + length d) mod n = 0"
    using assms by (simp only: length_partial_block mod_add_full)
  then show "whole_blocks n (m @ d) = m @ d" "partial_block n (m @ d) = []"
    by (simp_all add: whole_blocks_def partial_block_def)
qed

locale block_buffer =
  fixes blk :: nat
    and loop :: "'c \<Rightarrow> nat \<Rightarrow> u8 list \<Rightarrow> 'c"
    and store :: "'c \<Rightarrow> nat \<Rightarrow> u8 list \<Rightarrow> 'c"
    and process :: "'c \<Rightarrow> 'c"
    and buf :: "'c \<Rightarrow> u8 list"
    and chain :: "'c \<Rightarrow> 'h"
    and frame :: "'c \<Rightarrow> 'f"
    and compress :: "'h \<Rightarrow> u8 list \<Rightarrow> 'h"
  assumes blk_pos: "0 < blk"
    and loop_eq: "loop c pos d =
      (let n = min (blk - pos) (length d); c = store c pos (take n d)
       in if pos + n \<noteq> blk then c else loop (process c) 0 (drop n d))"
    and buf_store: "buf (store c pos x) = overwrite (buf c) pos x"
    and chain_store: "chain (store c pos x) = chain c"
    and frame_store: "frame (store c pos x) = frame c"
    and buf_process: "buf (process c) = buf c"
    and chain_process: "chain (process c) = compress (chain c) (buf c)"
    and frame_process: "frame (process c) = frame c"
begin

definition buffered :: "'h \<Rightarrow> u8 list \<Rightarrow> 'c \<Rightarrow> bool" where
  "buffered h m c \<longleftrightarrow> length (buf c) = blk
     \<and> chain c = md_fold compress blk h (whole_blocks blk m)
     \<and> take (tail_len blk m) (buf c) = partial_block blk m"

lemma store_partial:
  assumes "buffered h m c" "tail_len blk m + length d < blk"
  shows "buffered h (m @ d) (store c (tail_len blk m) d)"
proof -
  have "(length m + length d) mod blk = tail_len blk m + length d"
    using assms(2) by (rule mod_add_small)
  then show ?thesis
    using assms blocks_append [of blk m d]
    by (simp add: buffered_def buf_store chain_store take_overwrite)
qed

lemma store_full:
  assumes "buffered h m c" "tail_len blk m + length d = blk"
  shows "buffered h (m @ d) (process (store c (tail_len blk m) d))"
proof -
  note B = blocks_append_full [OF _ blk_pos, of m d, simplified, OF assms(2)]
  have "buf (store c (tail_len blk m) d) = partial_block blk m @ d"
    using assms by (simp add: buffered_def buf_store overwrite_all)
  moreover have "md_fold compress blk h (m @ d)
      = compress (md_fold compress blk h (whole_blocks blk m)) (partial_block blk m @ d)"
    using md_fold_append [OF blk_pos whole_blocks_dvd, of compress h m "partial_block blk m @ d"]
      assms(2) by (simp add: md_fold_one blk_pos flip: append_assoc)
  moreover have "(length m + length d) mod blk = 0"
    using assms(2) by (rule mod_add_full)
  ultimately show ?thesis
    using assms(1,2) B
    by (simp add: buffered_def buf_process chain_process chain_store buf_store)
qed

lemma loop_buffered:
  assumes "buffered h m c"
  shows "buffered h (m @ d) (loop c (tail_len blk m) d)" "frame (loop c (tail_len blk m) d) = frame c"
proof -
  have "buffered h (m @ d) (loop c (tail_len blk m) d) \<and> frame (loop c (tail_len blk m) d) = frame c"
    using assms
  proof (induction "length d" arbitrary: m c d rule: less_induct)
    case less
    let ?p = "tail_len blk m"
    have p: "?p < blk" using blk_pos by simp
    show ?case
    proof (cases "?p + length d < blk")
      case True
      then have "loop c ?p d = store c ?p d" by (subst loop_eq) simp
      then show ?thesis using store_partial [OF less.prems True] by (simp add: frame_store)
    next
      case False
      let ?n = "blk - ?p" and ?c = "process (store c ?p (take (blk - ?p) d))"
      have n: "min (blk - ?p) (length d) = ?n" "?p + ?n = blk" "length (take ?n d) = ?n"
        using False p by auto
      have B: "buffered h (m @ take ?n d) ?c"
        using store_full [OF less.prems, of "take ?n d"] n by simp
      have z: "tail_len blk (m @ take ?n d) = 0"
        using n by (simp only: length_append mod_add_full)
      have step: "loop c ?p d = loop ?c 0 (drop ?n d)"
        using n by (subst loop_eq) (simp only: Let_def simp_thms if_False)
      have "length (drop ?n d) < length d" using False p by simp
      from less.hyps [OF this B] z show ?thesis
        by (simp add: step frame_store frame_process)
    qed
  qed
  then show "buffered h (m @ d) (loop c (tail_len blk m) d)" "frame (loop c (tail_len blk m) d) = frame c"
    by blast+
qed

end

section \<open>Padding to a block boundary\<close>

text \<open>RFC 1321 3.1 and FIPS 180 5.1: a one bit, zeros, and a length field of \<open>lb\<close> bytes.\<close>

definition pad_zeros :: "nat \<Rightarrow> nat \<Rightarrow> nat \<Rightarrow> nat" where
  "pad_zeros n lb len = (n - (len + 1 + lb) mod n) mod n"

definition padded :: "nat \<Rightarrow> u8 list \<Rightarrow> u8 list \<Rightarrow> u8 list" where
  "padded n lenfield m = m @ [0x80] @ replicate (pad_zeros n (length lenfield) (length m)) 0 @ lenfield"

lemma pad_zeros_one_block:
  assumes "p = len mod n" "p + 1 + lb \<le> n" "0 < lb"
  shows "pad_zeros n lb len = n - (p + 1 + lb)"
proof -
  have "(len + 1 + lb) mod n = (p + 1 + lb) mod n"
    unfolding assms(1) by (metis add.assoc mod_add_left_eq)
  with assms show ?thesis
    by (cases "p + 1 + lb = n") (auto simp: pad_zeros_def)
qed

lemma pad_zeros_two_blocks:
  assumes "p = len mod n" "p < n" "n < p + 1 + lb" "1 + lb \<le> n"
  shows "pad_zeros n lb len = (n - (p + 1)) + (n - lb)"
proof -
  have "(len + 1 + lb) mod n = (p + 1 + lb) mod n"
    unfolding assms(1) by (metis add.assoc mod_add_left_eq)
  also have "(p + 1 + lb) mod n = (p + 1 + lb - n) mod n"
    using assms by (simp add: le_mod_geq)
  also have "\<dots> = p + 1 + lb - n"
    using assms by (intro mod_less) linarith
  finally have e: "(len + 1 + lb) mod n = p + 1 + lb - n" .
  have "n - (p + 1 + lb - n) < n" "n - (p + 1 + lb - n) = (n - (p + 1)) + (n - lb)"
    using assms by linarith+
  then show ?thesis by (simp only: pad_zeros_def e mod_less)
qed

text \<open>The loop both \<^verbatim>\<open>common64_end\<close> and \<^verbatim>\<open>sha512_end\<close> finish with: fill the
  block with zeros, store the length field if there is room for it, else do one more block.\<close>

locale block_padding = block_buffer +
  fixes pad_loop :: "'a \<Rightarrow> nat \<Rightarrow> 'a"
    and put_len :: "'a \<Rightarrow> 'a"
    and lb :: nat
    and len_bytes :: "'c \<Rightarrow> u8 list"
  assumes pad_loop_eq: "pad_loop c pos =
      (let n = blk - pos; c = store c pos (replicate n 0); c = (if lb \<le> n then put_len c else c);
           c = process c
       in if lb \<le> n then c else pad_loop c 0)"
    and buf_put_len: "length (buf c) = blk \<Longrightarrow> buf (put_len c) = overwrite (buf c) (blk - lb) (len_bytes (frame c))"
    and chain_put_len: "chain (put_len c) = chain c"
    and frame_put_len: "frame (put_len c) = frame c"
    and length_len_bytes: "length (len_bytes f) = lb"
    and lb_pos: "0 < lb"
    and lb_small: "lb + 1 \<le> blk"
begin

lemma pad_loop_last:
  assumes "length (buf c) = blk" "pos + lb \<le> blk"
  shows "chain (pad_loop c pos) = compress (chain c)
      (take pos (buf c) @ replicate (blk - lb - pos) 0 @ len_bytes (frame c))"
    "frame (pad_loop c pos) = frame c" "length (buf (pad_loop c pos)) = blk"
proof -
  let ?d = "put_len (store c pos (replicate (blk - pos) 0))"
  have n: "lb \<le> blk - pos" using assms(2) by linarith
  then have e: "pad_loop c pos = process ?d" by (subst pad_loop_eq) (simp add: Let_def)
  have "overwrite (buf c) pos (replicate (blk - pos) 0) = take pos (buf c) @ replicate (blk - pos) 0"
    using assms by (intro overwrite_all) simp_all
  moreover have "take (blk - lb) (take pos (buf c) @ replicate (blk - pos) (0::u8))
      = take pos (buf c) @ replicate (blk - lb - pos) 0"
  proof -
    have "pos \<le> blk - lb" "pos \<le> blk" "min (blk - lb - pos) (blk - pos) = blk - lb - pos"
      using assms(2) by linarith+
    then show ?thesis using assms(1) by (simp add: min_absorb2)
  qed
  moreover have "drop (blk - lb + lb) (take pos (buf c) @ replicate (blk - pos) (0::u8)) = []"
    using assms by simp
  moreover have "length (buf (store c pos (replicate (blk - pos) 0))) = blk"
    using assms by (simp add: buf_store)
  ultimately have "buf ?d = take pos (buf c) @ replicate (blk - lb - pos) 0 @ len_bytes (frame c)"
    by (simp add: buf_put_len buf_store frame_store length_len_bytes overwrite_def [of _ "blk - lb"])
  then show "chain (pad_loop c pos) = compress (chain c)
      (take pos (buf c) @ replicate (blk - lb - pos) 0 @ len_bytes (frame c))"
    "frame (pad_loop c pos) = frame c" "length (buf (pad_loop c pos)) = blk"
    using assms
    by (simp_all add: e chain_process chain_put_len chain_store frame_process frame_put_len frame_store
        buf_process length_len_bytes)
qed

lemma pad_loop_first:
  assumes "length (buf c) = blk" "blk < pos + lb" "pos \<le> blk"
  shows "chain (pad_loop c pos) = compress (compress (chain c) (take pos (buf c) @ replicate (blk - pos) 0))
      (replicate (blk - lb) 0 @ len_bytes (frame c))"
    "frame (pad_loop c pos) = frame c"
proof -
  let ?d = "process (store c pos (replicate (blk - pos) 0))"
  have n: "\<not> lb \<le> blk - pos" using assms by linarith
  then have e: "pad_loop c pos = pad_loop ?d 0" by (subst pad_loop_eq) (simp add: Let_def)
  have b: "overwrite (buf c) pos (replicate (blk - pos) 0) = take pos (buf c) @ replicate (blk - pos) 0"
    using assms by (intro overwrite_all) simp_all
  have "length (buf ?d) = blk" using assms by (simp add: buf_process buf_store b)
  from pad_loop_last [OF this, of 0] lb_small b
  show "chain (pad_loop c pos) = compress (compress (chain c) (take pos (buf c) @ replicate (blk - pos) 0))
      (replicate (blk - lb) 0 @ len_bytes (frame c))"
    "frame (pad_loop c pos) = frame c"
    unfolding e
    by (simp_all add: chain_process chain_store frame_process frame_store buf_process buf_store)
qed

theorem finish_padded:
  assumes "buffered h m c"
  defines "p \<equiv> tail_len blk m"
  shows "chain (pad_loop (store c p [0x80]) (p + 1))
      = md_fold compress blk h (padded blk (len_bytes (frame c)) m)"
    "frame (pad_loop (store c p [0x80]) (p + 1)) = frame c"
proof -
  let ?c = "store c p [0x80]" and ?w = "whole_blocks blk m" and ?r = "partial_block blk m"
  let ?f = "len_bytes (frame c)" and ?g = "md_fold compress blk"
  have p: "p < blk" using blk_pos by (simp add: p_def)
  have c: "length (buf ?c) = blk" "chain ?c = ?g h ?w" "frame ?c = frame c"
    and r: "take (p + 1) (buf ?c) = ?r @ [0x80]"
    using assms(1) p take_overwrite [of p "buf c" "[0x80]"]
    by (simp_all add: buffered_def buf_store chain_store frame_store p_def)
  have m: "padded blk ?f m = ?w @ ?r @ [0x80] @ replicate (pad_zeros blk lb (length m)) 0 @ ?f"
    unfolding padded_def length_len_bytes by (simp flip: append_assoc)
  have fold: "?g h (?w @ b) = ?g (?g h ?w) b" for b
    by (rule md_fold_append) (simp_all add: whole_blocks_dvd blk_pos)
  have "chain (pad_loop ?c (p + 1)) = ?g h (padded blk ?f m) \<and> frame (pad_loop ?c (p + 1)) = frame c"
  proof (cases "p + 1 + lb \<le> blk")
    case True
    have z: "pad_zeros blk lb (length m) = blk - lb - (p + 1)"
      using pad_zeros_one_block [of p "length m" blk lb] True lb_pos by (simp add: p_def)
    have "length (?r @ [0x80] @ replicate (blk - lb - (p + 1)) 0 @ ?f) = blk"
      using True by (simp add: length_len_bytes p_def [symmetric])
    then show ?thesis
      using pad_loop_last [OF c(1) True] c r by (simp add: m z fold md_fold_one blk_pos)
  next
    case False
    let ?b1 = "?r @ [0x80] @ replicate (blk - (p + 1)) 0" and ?b2 = "replicate (blk - lb) 0 @ ?f"
    have "pad_zeros blk lb (length m) = (blk - (p + 1)) + (blk - lb)"
      using pad_zeros_two_blocks [of p "length m" blk lb] False p lb_small by (simp add: p_def)
    then have z: "replicate (pad_zeros blk lb (length m)) (0::u8) = replicate (blk - (p + 1)) 0 @ replicate (blk - lb) 0"
      by (simp only: replicate_add)
    have l: "length ?b1 = blk" "length ?b2 = blk"
      using p lb_small by (simp_all add: length_len_bytes p_def [symmetric])
    have "?g h (padded blk ?f m) = ?g h (?w @ ?b1 @ ?b2)" by (simp only: m z append_assoc)
    also have "\<dots> = compress (compress (?g h ?w) ?b1) ?b2"
      by (simp only: fold md_fold_block md_fold_one l blk_pos)
    finally show ?thesis
      using pad_loop_first [OF c(1), of "p + 1"] False p c r by simp
  qed
  then show "chain (pad_loop ?c (p + 1)) = ?g h (padded blk ?f m)" "frame (pad_loop ?c (p + 1)) = frame c"
    by blast+
qed

end

section \<open>Streaming digests\<close>

locale stream_hash =
  fixes valid :: "'c \<Rightarrow> bool"
    and begin_ctx :: "'c \<Rightarrow> 'c"
    and update :: "'c \<Rightarrow> u8 list \<Rightarrow> 'c"
    and finish :: "'c \<Rightarrow> u8 list"
    and digest :: "u8 list \<Rightarrow> u8 list"
    and absorbed :: "u8 list \<Rightarrow> 'c \<Rightarrow> bool"
  assumes absorbed_begin: "valid c \<Longrightarrow> absorbed [] (begin_ctx c)"
    and absorbed_update: "absorbed m c \<Longrightarrow> length d < 2 ^ 64 \<Longrightarrow> absorbed (m @ d) (update c d)"
    and finish_digest: "absorbed m c \<Longrightarrow> finish c = digest m"
begin

lemma absorbed_updates:
  assumes "absorbed m c" "list_all (\<lambda>d. length d < 2 ^ 64) ds"
  shows "absorbed (m @ concat ds) (foldl update c ds)"
  using assms
proof (induction ds arbitrary: m c)
  case Nil
  then show ?case by simp
next
  case (Cons d ds)
  then have "absorbed (m @ d) (update c d)" by (simp add: absorbed_update)
  from Cons.IH [OF this] Cons.prems show ?case by simp
qed

theorem digest_of_chunks:
  assumes "valid c" "list_all (\<lambda>d. length d < 2 ^ 64) ds"
  shows "finish (foldl update (begin_ctx c) ds) = digest (concat ds)"
  using finish_digest [OF absorbed_updates [OF absorbed_begin [OF assms(1)] assms(2)]] by simp

end

end
