(* ===== verification/Hash_Md5_Sha.thy ===== *)
theory Hash_Md5_Sha
  imports Hash_Stream
begin

text \<open>
  MD5, SHA-1 and SHA-256 of \<^verbatim>\<open>libbb/hash_md5_sha.c\<close> as configured
  (\<^verbatim>\<open>CONFIG_MD5_SMALL=1\<close>, little-endian): the shared context and its buffering
  (\<^verbatim>\<open>common64_hash\<close>, \<^verbatim>\<open>common64_end\<close>), the three block functions, and the
  begin/hash/end entry points.  The function pointer of the context is a tag that
  \<open>call_process_block\<close> dispatches on.
\<close>

section \<open>The context\<close>

datatype block_fn = Md5_process_block64 | Sha1_process_block64 | Sha256_process_block64

record md5_ctx =
  wbuffer :: "u8 list"
  process_block :: block_fn
  total64 :: u64
  hash :: "u32 list"

text \<open>The sizes the C declaration fixes.\<close>

definition ctx_ok :: "md5_ctx \<Rightarrow> bool" where
  "ctx_ok ctx \<longleftrightarrow> length (wbuffer ctx) = 64 \<and> length (hash ctx) = 8"

definition words32 :: "u8 list \<Rightarrow> u32 list" where
  "words32 buf = map (\<lambda>i. word_le (take 4 (drop (4 * i) buf))) [0..<16]"

section \<open>MD5\<close>

definition C_array :: "u32 list" where
  "C_array =
     [0xd76aa478, 0xe8c7b756, 0x242070db, 0xc1bdceee,
      0xf57c0faf, 0x4787c62a, 0xa8304613, 0xfd469501,
      0x698098d8, 0x8b44f7af, 0xffff5bb1, 0x895cd7be,
      0x6b901122, 0xfd987193, 0xa679438e, 0x49b40821,
      0xf61e2562, 0xc040b340, 0x265e5a51, 0xe9b6c7aa,
      0xd62f105d, 0x02441453, 0xd8a1e681, 0xe7d3fbc8,
      0x21e1cde6, 0xc33707d6, 0xf4d50d87, 0x455a14ed,
      0xa9e3e905, 0xfcefa3f8, 0x676f02d9, 0x8d2a4c8a,
      0xfffa3942, 0x8771f681, 0x6d9d6122, 0xfde5380c,
      0xa4beea44, 0x4bdecfa9, 0xf6bb4b60, 0xbebfbc70,
      0x289b7ec6, 0xeaa127fa, 0xd4ef3085, 0x4881d05,
      0xd9d4d039, 0xe6db99e5, 0x1fa27cf8, 0xc4ac5665,
      0xf4292244, 0x432aff97, 0xab9423a7, 0xfc93a039,
      0x655b59c3, 0x8f0ccc92, 0xffeff47d, 0x85845dd1,
      0x6fa87e4f, 0xfe2ce6e0, 0xa3014314, 0x4e0811a1,
      0xf7537e82, 0xbd3af235, 0x2ad7d2bb, 0xeb86d391]"

definition P_array :: "nat list" where
  "P_array =
     [1, 6, 11, 0, 5, 10, 15, 4, 9, 14, 3, 8, 13, 2, 7, 12,
      5, 8, 11, 14, 1, 4, 7, 10, 13, 0, 3, 6, 9, 12, 15, 2,
      0, 7, 14, 5, 12, 3, 10, 1, 8, 15, 6, 13, 4, 11, 2, 9]"

definition FF :: "u32 \<Rightarrow> u32 \<Rightarrow> u32 \<Rightarrow> u32" where
  "FF b c d = d XOR (b AND (c XOR d))"

definition FG :: "u32 \<Rightarrow> u32 \<Rightarrow> u32 \<Rightarrow> u32" where
  "FG b c d = FF d b c"

definition FH :: "u32 \<Rightarrow> u32 \<Rightarrow> u32 \<Rightarrow> u32" where
  "FH b c d = b XOR c XOR d"

definition FI :: "u32 \<Rightarrow> u32 \<Rightarrow> u32 \<Rightarrow> u32" where
  "FI b c d = c XOR (b OR NOT d)"

text \<open>The macro \<open>OP\<close>: the new value of its first argument.\<close>

definition md5_OP :: "(u32 \<Rightarrow> u32 \<Rightarrow> u32 \<Rightarrow> u32) \<Rightarrow> u32 \<Rightarrow> u32 \<Rightarrow> u32 \<Rightarrow> u32 \<Rightarrow> u32 \<Rightarrow> nat \<Rightarrow> u32 \<Rightarrow> u32" where
  "md5_OP f a b c d x s T = rotl32 (a + (f b c d + x + T)) s + b"

type_synonym abcd = "u32 \<times> u32 \<times> u32 \<times> u32"

text \<open>The body of one of the four round loops: four \<open>OP\<close>s with rotated registers.\<close>

definition md5_four ::
    "(u32 \<Rightarrow> u32 \<Rightarrow> u32 \<Rightarrow> u32) \<Rightarrow> nat list \<Rightarrow> (nat \<Rightarrow> u32) \<Rightarrow> (nat \<Rightarrow> u32) \<Rightarrow> nat \<Rightarrow> abcd \<Rightarrow> abcd" where
  "md5_four f s x T i = (\<lambda>(A, B, C, D).
     let A = md5_OP f A B C D (x (4 * i)) (s ! 0) (T (4 * i));
         D = md5_OP f D A B C (x (4 * i + 1)) (s ! 1) (T (4 * i + 1));
         C = md5_OP f C D A B (x (4 * i + 2)) (s ! 2) (T (4 * i + 2));
         B = md5_OP f B C D A (x (4 * i + 3)) (s ! 3) (T (4 * i + 3))
     in (A, B, C, D))"

text \<open>Round 1 reads the words in order; rounds 2 to 4 read them through \<open>P_array\<close>.\<close>

definition md5_round ::
    "(u32 \<Rightarrow> u32 \<Rightarrow> u32 \<Rightarrow> u32) \<Rightarrow> nat list \<Rightarrow> (nat \<Rightarrow> nat) \<Rightarrow> nat \<Rightarrow> u32 list \<Rightarrow> abcd \<Rightarrow> abcd" where
  "md5_round f s idx base words st =
     fold (md5_four f s (\<lambda>k. words ! idx k) (\<lambda>k. C_array ! (base + k))) [0..<4] st"

definition md5_rounds :: "u32 list \<Rightarrow> abcd \<Rightarrow> abcd" where
  "md5_rounds words st =
     (let st = md5_round FF [7, 12, 17, 22] (\<lambda>k. k) 0 words st;
          st = md5_round FG [5, 9, 14, 20] (\<lambda>k. P_array ! k) 16 words st;
          st = md5_round FH [4, 11, 16, 23] (\<lambda>k. P_array ! (16 + k)) 32 words st
      in md5_round FI [6, 10, 15, 21] (\<lambda>k. P_array ! (32 + k)) 48 words st)"

definition md5_process_block64 :: "u32 list \<Rightarrow> u8 list \<Rightarrow> u32 list" where
  "md5_process_block64 h buf =
     (case md5_rounds (words32 buf) (h ! 0, h ! 1, h ! 2, h ! 3) of
        (A, B, C, D) \<Rightarrow> h[0 := h ! 0 + A, 1 := h ! 1 + B, 2 := h ! 2 + C, 3 := h ! 3 + D])"

section \<open>SHA-1\<close>

definition rconsts :: "u32 list" where
  "rconsts = [0x5A827999, 0x6ED9EBA1, 0x8F1BBCDC, 0xCA62C1D6]"

record sha1_work =
  Wbuf :: "u32 list"
  cnt :: nat
  wa :: u32
  wb :: u32
  wc :: u32
  wd :: u32
  we :: u32

definition sha1_ge16 :: "sha1_work \<Rightarrow> u32 list" where
  "sha1_ge16 s =
     (let v = rotl32 (Wbuf s ! (cnt s + 13) XOR Wbuf s ! (cnt s + 8) XOR Wbuf s ! (cnt s + 2) XOR Wbuf s ! cnt s) 1
      in (Wbuf s)[cnt s + 16 := v, cnt s := v])"

text \<open>One pass of the inner \<^verbatim>\<open>do\<close> loop, round \<open>i\<close>, down-counter \<open>j\<close>.\<close>

definition sha1_step :: "nat \<Rightarrow> nat \<Rightarrow> sha1_work \<Rightarrow> sha1_work" where
  "sha1_step i j s =
     (let work = wc s XOR wd s;
          work = (if i = 0 then (work AND wb s) XOR wd s
                  else if i = 2 then ((wb s OR wc s) AND wd s) OR (wb s AND wc s)
                  else work XOR wb s);
          ws = (if i = 0 \<and> \<not> j \<le> 3 then Wbuf s else sha1_ge16 s);
          work = work + ws ! cnt s;
          work = work + (we s + rotl32 (wa s) 5 + rconsts ! i)
      in \<lparr>Wbuf = ws, cnt = (cnt s + 1) mod 16, wa = work, wb = wa s, wc = rotl32 (wb s) 30,
          wd = wc s, we = wd s\<rparr>)"

definition sha1_round :: "nat \<Rightarrow> sha1_work \<Rightarrow> sha1_work" where
  "sha1_round i s = fold (sha1_step i) (rev [0..<20]) s"

definition sha1_process_block64 :: "u32 list \<Rightarrow> u8 list \<Rightarrow> u32 list" where
  "sha1_process_block64 h buf =
     (let ws = map bswap_32 (words32 buf);
          s = fold sha1_round [0..<4]
                \<lparr>Wbuf = ws @ ws, cnt = 0, wa = h ! 0, wb = h ! 1, wc = h ! 2, wd = h ! 3, we = h ! 4\<rparr>
      in h[0 := h ! 0 + wa s, 1 := h ! 1 + wb s, 2 := h ! 2 + wc s, 3 := h ! 3 + wd s,
           4 := h ! 4 + we s])"

section \<open>SHA-256\<close>

text \<open>The macro \<^verbatim>\<open>K\<close> of a build that needs SHA-512.\<close>

definition K64 :: "u64 \<Rightarrow> u64" where
  "K64 v = v"

definition sha_K :: "u64 list" where
  "sha_K =
     [K64 0x428a2f98d728ae22, K64 0x7137449123ef65cd,
      K64 0xb5c0fbcfec4d3b2f, K64 0xe9b5dba58189dbbc,
      K64 0x3956c25bf348b538, K64 0x59f111f1b605d019,
      K64 0x923f82a4af194f9b, K64 0xab1c5ed5da6d8118,
      K64 0xd807aa98a3030242, K64 0x12835b0145706fbe,
      K64 0x243185be4ee4b28c, K64 0x550c7dc3d5ffb4e2,
      K64 0x72be5d74f27b896f, K64 0x80deb1fe3b1696b1,
      K64 0x9bdc06a725c71235, K64 0xc19bf174cf692694,
      K64 0xe49b69c19ef14ad2, K64 0xefbe4786384f25e3,
      K64 0x0fc19dc68b8cd5b5, K64 0x240ca1cc77ac9c65,
      K64 0x2de92c6f592b0275, K64 0x4a7484aa6ea6e483,
      K64 0x5cb0a9dcbd41fbd4, K64 0x76f988da831153b5,
      K64 0x983e5152ee66dfab, K64 0xa831c66d2db43210,
      K64 0xb00327c898fb213f, K64 0xbf597fc7beef0ee4,
      K64 0xc6e00bf33da88fc2, K64 0xd5a79147930aa725,
      K64 0x06ca6351e003826f, K64 0x142929670a0e6e70,
      K64 0x27b70a8546d22ffc, K64 0x2e1b21385c26c926,
      K64 0x4d2c6dfc5ac42aed, K64 0x53380d139d95b3df,
      K64 0x650a73548baf63de, K64 0x766a0abb3c77b2a8,
      K64 0x81c2c92e47edaee6, K64 0x92722c851482353b,
      K64 0xa2bfe8a14cf10364, K64 0xa81a664bbc423001,
      K64 0xc24b8b70d0f89791, K64 0xc76c51a30654be30,
      K64 0xd192e819d6ef5218, K64 0xd69906245565a910,
      K64 0xf40e35855771202a, K64 0x106aa07032bbd1b8,
      K64 0x19a4c116b8d2d0c8, K64 0x1e376c085141ab53,
      K64 0x2748774cdf8eeb99, K64 0x34b0bcb5e19b48a8,
      K64 0x391c0cb3c5c95a63, K64 0x4ed8aa4ae3418acb,
      K64 0x5b9cca4f7763e373, K64 0x682e6ff3d6b2b8a3,
      K64 0x748f82ee5defb2fc, K64 0x78a5636f43172f60,
      K64 0x84c87814a1f0ab72, K64 0x8cc702081a6439ec,
      K64 0x90befffa23631e28, K64 0xa4506cebde82bde9,
      K64 0xbef9a3f7b2c67915, K64 0xc67178f2e372532b,
      K64 0xca273eceea26619c, K64 0xd186b8c721c0c207,
      K64 0xeada7dd6cde0eb1e, K64 0xf57d4f7fee6ed178,
      K64 0x06f067aa72176fba, K64 0x0a637dc5a2c898a6,
      K64 0x113f9804bef90dae, K64 0x1b710b35131c471b,
      K64 0x28db77f523047d84, K64 0x32caab7b40c72493,
      K64 0x3c9ebe0a15c9bebc, K64 0x431d67c49c100d4c,
      K64 0x4cc5d4becb3e42b6, K64 0x597f299cfc657e2a,
      K64 0x5fcb6fab3ad6faec, K64 0x6c44198c4a475817]"

definition Ch32 :: "u32 \<Rightarrow> u32 \<Rightarrow> u32 \<Rightarrow> u32" where
  "Ch32 x y z = (x AND y) XOR (NOT x AND z)"

definition Maj32 :: "u32 \<Rightarrow> u32 \<Rightarrow> u32 \<Rightarrow> u32" where
  "Maj32 x y z = (x AND y) XOR (x AND z) XOR (y AND z)"

definition S0_32 :: "u32 \<Rightarrow> u32" where
  "S0_32 x = rotr32 x 2 XOR rotr32 x 13 XOR rotr32 x 22"

definition S1_32 :: "u32 \<Rightarrow> u32" where
  "S1_32 x = rotr32 x 6 XOR rotr32 x 11 XOR rotr32 x 25"

definition R0_32 :: "u32 \<Rightarrow> u32" where
  "R0_32 x = rotr32 x 7 XOR rotr32 x 18 XOR shr x 3"

definition R1_32 :: "u32 \<Rightarrow> u32" where
  "R1_32 x = rotr32 x 17 XOR rotr32 x 19 XOR shr x 10"

text \<open>The message schedule grows from 16 words to \<open>n\<close>.\<close>

definition sha256_schedule :: "u32 list \<Rightarrow> nat \<Rightarrow> u32 list" where
  "sha256_schedule ws n =
     fold (\<lambda>t W. W @ [R1_32 (W ! (t - 2)) + W ! (t - 7) + R0_32 (W ! (t - 15)) + W ! (t - 16)]) [16..<n] ws"

type_synonym regs32 = "u32 \<times> u32 \<times> u32 \<times> u32 \<times> u32 \<times> u32 \<times> u32 \<times> u32"

definition sha256_step :: "u32 list \<Rightarrow> nat \<Rightarrow> regs32 \<Rightarrow> regs32" where
  "sha256_step W t = (\<lambda>(a, b, c, d, e, f, g, h).
     let K_t = ucast (shr (sha_K ! t) 32);
         T1 = h + S1_32 e + Ch32 e f g + K_t + W ! t;
         T2 = S0_32 a + Maj32 a b c
     in (T1 + T2, a, b, c, d + T1, e, f, g))"

definition sha256_process_block64 :: "u32 list \<Rightarrow> u8 list \<Rightarrow> u32 list" where
  "sha256_process_block64 hs buf =
     (let W = sha256_schedule (map bswap_32 (words32 buf)) 64
      in case fold (sha256_step W) [0..<64]
                (hs ! 0, hs ! 1, hs ! 2, hs ! 3, hs ! 4, hs ! 5, hs ! 6, hs ! 7) of
           (a, b, c, d, e, f, g, h) \<Rightarrow>
             [hs ! 0 + a, hs ! 1 + b, hs ! 2 + c, hs ! 3 + d, hs ! 4 + e, hs ! 5 + f, hs ! 6 + g,
              hs ! 7 + h])"

section \<open>Buffering\<close>

fun block_of :: "block_fn \<Rightarrow> u32 list \<Rightarrow> u8 list \<Rightarrow> u32 list" where
  "block_of Md5_process_block64 = md5_process_block64"
| "block_of Sha1_process_block64 = sha1_process_block64"
| "block_of Sha256_process_block64 = sha256_process_block64"

definition call_process_block :: "md5_ctx \<Rightarrow> md5_ctx" where
  "call_process_block ctx = ctx\<lparr>hash := block_of (process_block ctx) (hash ctx) (wbuffer ctx)\<rparr>"

definition copy_in :: "md5_ctx \<Rightarrow> nat \<Rightarrow> u8 list \<Rightarrow> md5_ctx" where
  "copy_in ctx pos bs = ctx\<lparr>wbuffer := overwrite (wbuffer ctx) pos bs\<rparr>"

function common64_loop :: "md5_ctx \<Rightarrow> nat \<Rightarrow> u8 list \<Rightarrow> md5_ctx" where
  "common64_loop ctx bufpos buffer =
     (let remaining = min (64 - bufpos) (length buffer);
          ctx = copy_in ctx bufpos (take remaining buffer)
      in if bufpos + remaining \<noteq> 64 then ctx
         else common64_loop (call_process_block ctx) 0 (drop remaining buffer))"
  by pat_completeness auto
termination
  by (relation "measures [\<lambda>(ctx, p, b). length b, \<lambda>(ctx, p, b). p]") auto

declare common64_loop.simps [simp del]

definition common64_hash :: "md5_ctx \<Rightarrow> u8 list \<Rightarrow> md5_ctx" where
  "common64_hash ctx buffer =
     (let bufpos = unat (total64 ctx AND 63);
          ctx = ctx\<lparr>total64 := total64 ctx + of_nat (length buffer)\<rparr>
      in common64_loop ctx bufpos buffer)"

text \<open>The loop of \<^verbatim>\<open>common64_end\<close>: pad to the end of the block, store the bit count when
  there are eight bytes for it, otherwise go round once more.\<close>

function common64_end_loop :: "md5_ctx \<Rightarrow> nat \<Rightarrow> bool \<Rightarrow> md5_ctx" where
  "common64_end_loop ctx bufpos swap_needed =
     (let remaining = 64 - bufpos;
          ctx = copy_in ctx bufpos (replicate remaining 0);
          t = shl (total64 ctx) 3;
          t = (if swap_needed then bswap_64 t else t);
          ctx = (if remaining \<ge> 8 then copy_in ctx (64 - 8) (bytes_le 8 t) else ctx);
          ctx = call_process_block ctx
      in if remaining \<ge> 8 then ctx else common64_end_loop ctx 0 swap_needed)"
  by pat_completeness auto
termination
  by (relation "measure (\<lambda>(ctx, p, sw). p)") auto

declare common64_end_loop.simps [simp del]

definition common64_end :: "md5_ctx \<Rightarrow> bool \<Rightarrow> md5_ctx" where
  "common64_end ctx swap_needed =
     (let bufpos = unat (total64 ctx AND 63);
          ctx = copy_in ctx bufpos [0x80]
      in common64_end_loop ctx (bufpos + 1) swap_needed)"

section \<open>Entry points\<close>

definition md5_begin :: "md5_ctx \<Rightarrow> md5_ctx" where
  "md5_begin ctx = ctx\<lparr>
     hash := (hash ctx)[0 := 0x67452301, 1 := 0xefcdab89, 2 := 0x98badcfe, 3 := 0x10325476],
     total64 := 0, process_block := Md5_process_block64\<rparr>"

definition md5_hash :: "md5_ctx \<Rightarrow> u8 list \<Rightarrow> md5_ctx" where
  "md5_hash ctx buffer = common64_hash ctx buffer"

text \<open>The context afterwards and the bytes stored at \<^verbatim>\<open>resbuf\<close>; the return value is their
  number.\<close>

definition md5_end :: "md5_ctx \<Rightarrow> md5_ctx \<times> u8 list" where
  "md5_end ctx =
     (let ctx = common64_end ctx False
      in (ctx, concat (map (bytes_le 4) (take 4 (hash ctx)))))"

definition sha1_begin :: "md5_ctx \<Rightarrow> md5_ctx" where
  "sha1_begin ctx = ctx\<lparr>
     hash := (hash ctx)[0 := 0x67452301, 1 := 0xefcdab89, 2 := 0x98badcfe, 3 := 0x10325476,
                        4 := 0xc3d2e1f0],
     total64 := 0, process_block := Sha1_process_block64\<rparr>"

definition init256 :: "u32 list" where
  "init256 = [0, 0, 0x6a09e667, 0xbb67ae85, 0x3c6ef372, 0xa54ff53a, 0x510e527f, 0x9b05688c,
              0x1f83d9ab, 0x5be0cd19]"

text \<open>The copy of \<open>init256\<close> over \<^verbatim>\<open>total64\<close> and the \<^verbatim>\<open>hash\<close> array behind it.\<close>

definition sha256_begin :: "md5_ctx \<Rightarrow> md5_ctx" where
  "sha256_begin ctx = ctx\<lparr>
     total64 := word_le (concat (map (bytes_le 4) (take 2 init256))),
     hash := drop 2 init256, process_block := Sha256_process_block64\<rparr>"

definition sha1_end :: "md5_ctx \<Rightarrow> md5_ctx \<times> u8 list" where
  "sha1_end ctx =
     (let ctx = common64_end ctx True;
          hash_size = (if process_block ctx = Sha1_process_block64 then 5 else 8);
          ctx = ctx\<lparr>hash := map bswap_32 (take hash_size (hash ctx)) @ drop hash_size (hash ctx)\<rparr>
      in (ctx, concat (map (bytes_le 4) (take hash_size (hash ctx)))))"

section \<open>The buffering meets its interface\<close>

interpretation c64: block_buffer 64 common64_loop copy_in call_process_block wbuffer
  "\<lambda>c. (process_block c, hash c)" total64 "\<lambda>(k, h) b. (k, block_of k h b)"
proof unfold_locales
  fix c pos d
  show "common64_loop c pos d =
      (let n = min (64 - pos) (length d); c = copy_in c pos (take n d)
       in if pos + n \<noteq> 64 then c else common64_loop (call_process_block c) 0 (drop n d))"
    by (rule common64_loop.simps)
qed (simp_all add: copy_in_def call_process_block_def)

lemma md_fold_pair: "md_fold (\<lambda>(k, h) b. (k, f k h b)) n (k, h) m = (k, md_fold (f k) n h m)"
proof (induction "f k" n h m rule: md_fold.induct)
  case (1 n h m)
  then show ?case by (simp add: md_fold.simps [of _ n _ m])
qed

lemma bufpos_mod: "unat ((of_nat n :: u64) AND 63) = n mod 64"
proof -
  have "(63::u64) = mask 6" by (simp add: mask_numeral)
  then have "(of_nat n :: u64) AND 63 = take_bit 6 (of_nat n)" by (simp only: take_bit_eq_mask)
  then show ?thesis
    by (simp only: unsigned_take_bit_eq unsigned_of_nat take_bit_take_bit) (simp add: take_bit_eq_mod mod_mod_cancel)
qed

definition absorbed64 :: "block_fn \<Rightarrow> u32 list \<Rightarrow> u8 list \<Rightarrow> md5_ctx \<Rightarrow> bool" where
  "absorbed64 k h m c \<longleftrightarrow> c64.buffered (k, h) m c \<and> total64 c = of_nat (length m)"

lemma absorbed64_Nil:
  "absorbed64 k h [] c \<longleftrightarrow> length (wbuffer c) = 64 \<and> process_block c = k \<and> hash c = h \<and> total64 c = 0"
  by (auto simp: absorbed64_def c64.buffered_def md_fold_short whole_blocks_def partial_block_def)

lemma absorbed64_hash:
  assumes "absorbed64 k h m c"
  shows "absorbed64 k h (m @ d) (common64_hash c d)"
proof -
  let ?c = "c\<lparr>total64 := total64 c + of_nat (length d)\<rparr>"
  have B: "c64.buffered (k, h) m ?c"
    using assms by (simp add: absorbed64_def c64.buffered_def)
  have "common64_hash c d = common64_loop ?c (length m mod 64) d"
    using assms by (simp add: common64_hash_def absorbed64_def bufpos_mod)
  then show ?thesis
    using c64.loop_buffered [OF B, of d] assms by (simp add: absorbed64_def)
qed

definition len_field :: "bool \<Rightarrow> u8 list \<Rightarrow> u8 list" where
  "len_field be m = (let t = of_nat (8 * length m) :: u64 in if be then bytes_be 8 t else bytes_le 8 t)"

lemma length_len_field [simp]: "length (len_field be m) = 8"
  by (simp add: len_field_def Let_def)

text \<open>The loop of \<^verbatim>\<open>common64_end\<close> pads as RFC 1321 and FIPS 180-4 say.\<close>

interpretation c64_end: block_padding 64 common64_loop copy_in call_process_block wbuffer
  "\<lambda>c. (process_block c, hash c)" total64 "\<lambda>(k, h) b. (k, block_of k h b)"
  "\<lambda>c p. common64_end_loop c p sw"
  "\<lambda>c. copy_in c 56 (bytes_le 8 (if sw then bswap_64 (shl (total64 c) 3) else shl (total64 c) 3))"
  8 "\<lambda>t. bytes_le 8 (if sw then bswap_64 (shl t 3) else shl t 3)" for sw
proof unfold_locales
  fix c p
  have room: "(64::nat) - 8 = 56" by simp
  show "common64_end_loop c p sw =
      (let n = 64 - p; c = copy_in c p (replicate n 0);
           c = (if 8 \<le> n
                then copy_in c 56 (bytes_le 8 (if sw then bswap_64 (shl (total64 c) 3) else shl (total64 c) 3))
                else c);
           c = call_process_block c
       in if 8 \<le> n then c else common64_end_loop c 0 sw)"
    by (subst common64_end_loop.simps) (simp only: Let_def room)
qed (simp_all add: copy_in_def)

lemma len_field_of_total:
  "bytes_le 8 (if sw then bswap_64 (shl (of_nat (length m) :: u64) 3) else shl (of_nat (length m)) 3)
    = len_field sw m"
proof -
  have "shl (of_nat (length m) :: u64) 3 = of_nat (8 * length m)"
    by (simp add: push_bit_eq_mult mult.commute)
  then show ?thesis by (simp add: len_field_def bytes_bswap_64)
qed

lemma common64_end_padded:
  assumes "absorbed64 k h m c"
  shows "process_block (common64_end c sw) = k"
    "hash (common64_end c sw) = md_fold (block_of k) 64 h (padded 64 (len_field sw m) m)"
proof -
  have B: "c64.buffered (k, h) m c" and t: "total64 c = of_nat (length m)"
    using assms by (simp_all add: absorbed64_def)
  have e: "common64_end c sw = common64_end_loop (copy_in c (length m mod 64) [0x80]) (length m mod 64 + 1) sw"
    unfolding common64_end_def Let_def t bufpos_mod ..
  have "(process_block (common64_end c sw), hash (common64_end c sw))
      = md_fold (\<lambda>(k, h) b. (k, block_of k h b)) 64 (k, h) (padded 64 (len_field sw m) m)"
    using c64_end.finish_padded(1) [OF B, of sw] unfolding e t len_field_of_total .
  then show "process_block (common64_end c sw) = k"
    "hash (common64_end c sw) = md_fold (block_of k) 64 h (padded 64 (len_field sw m) m)"
    by (simp_all add: md_fold_pair)
qed

end
