(* ===== verification/Hash_Digests.thy ===== *)
theory Hash_Digests
  imports Hash_Md5_Sha
begin

text \<open>
  What MD5, SHA-1 and SHA-256 are, written after RFC 1321 and FIPS 180-4, and the proof that
  \<^verbatim>\<open>libbb/hash_md5_sha.c\<close> computes them: the loops over four registers, the circular
  message schedule and the optimised round functions of the code give the rounds of the standards,
  and a digest depends only on the concatenation of the buffers passed in.
\<close>

section \<open>Rotations and round functions\<close>

lemma rotl32_word_rotl:
  assumes "n < 32"
  shows "rotl32 x n = word_rotl n x"
proof (rule bit_word_eqI)
  fix i assume i: "i < LENGTH(32)"
  show "bit (rotl32 x n) i \<longleftrightarrow> bit (word_rotl n x) i"
  proof (cases "n \<le> i")
    case True
    then have "(i + 32 - n) mod 32 = i - n" "\<not> bit x (32 - n + i)"
      using i assms by (auto simp: mod_if dest: bit_imp_le_length)
    then show ?thesis using True i by (simp add: rotl32_def bit_simps)
  next
    case False
    then have "(i + 32 - n) mod 32 = 32 - n + i" using i assms by simp
    then show ?thesis using False i assms by (simp add: rotl32_def bit_simps)
  qed
qed

lemma rotr32_word_rotr:
  assumes "n < 32"
  shows "rotr32 x n = word_rotr n x"
proof (rule bit_word_eqI)
  fix i assume i: "i < LENGTH(32)"
  show "bit (rotr32 x n) i \<longleftrightarrow> bit (word_rotr n x) i"
  proof (cases "n + i < 32")
    case True
    then have "(i + n) mod 32 = n + i" "\<not> 32 - n \<le> i" by (auto simp: add.commute)
    then show ?thesis using i by (simp add: rotr32_def bit_simps add.commute)
  next
    case False
    then have "(i + n) mod 32 = i - (32 - n)" "\<not> bit x (n + i)"
      using i assms by (auto simp: mod_if dest: bit_imp_le_length)
    then show ?thesis using False i assms by (auto simp: rotr32_def bit_simps)
  qed
qed

lemma FF_eq: "FF b c d = (b AND c) OR (NOT b AND d)"
  unfolding FF_def by (rule bit_word_eqI) (auto simp: bit_simps)

lemma FG_eq: "FG b c d = (b AND d) OR (c AND NOT d)"
  unfolding FG_def FF_def by (rule bit_word_eqI) (auto simp: bit_simps)

section \<open>MD5 (RFC 1321)\<close>

definition rfc1321_F :: "nat \<Rightarrow> u32 \<Rightarrow> u32 \<Rightarrow> u32 \<Rightarrow> u32" where
  "rfc1321_F t x y z =
     (if t < 16 then (x AND y) OR (NOT x AND z)
      else if t < 32 then (x AND z) OR (y AND NOT z)
      else if t < 48 then x XOR y XOR z
      else y XOR (x OR NOT z))"

definition rfc1321_k :: "nat \<Rightarrow> nat" where
  "rfc1321_k t =
     (if t < 16 then t else if t < 32 then (5 * t + 1) mod 16
      else if t < 48 then (3 * t + 5) mod 16 else 7 * t mod 16)"

definition rfc1321_s :: "nat \<Rightarrow> nat" where
  "rfc1321_s t =
     (if t < 16 then [7, 12, 17, 22] else if t < 32 then [5, 9, 14, 20]
      else if t < 48 then [4, 11, 16, 23] else [6, 10, 15, 21]) ! (t mod 4)"

text \<open>One operation \<open>[abcd k s i]\<close>; the registers move one place.\<close>

definition rfc1321_step :: "(nat \<Rightarrow> u32) \<Rightarrow> nat \<Rightarrow> abcd \<Rightarrow> abcd" where
  "rfc1321_step X t = (\<lambda>(a, b, c, d).
     (d, b + word_rotl (rfc1321_s t) (a + rfc1321_F t b c d + X (rfc1321_k t) + C_array ! t), b, c))"

definition rfc1321_block :: "abcd \<Rightarrow> u8 list \<Rightarrow> abcd" where
  "rfc1321_block st b =
     (case st of (a, b', c, d) \<Rightarrow>
      case fold (rfc1321_step (\<lambda>k. word_le (take 4 (drop (4 * k) b)))) [0..<64] st of
        (a2, b2, c2, d2) \<Rightarrow> (a + a2, b' + b2, c + c2, d + d2))"

definition md5_digest :: "u8 list \<Rightarrow> u8 list" where
  "md5_digest m =
     (case md_fold rfc1321_block 64 (0x67452301, 0xefcdab89, 0x98badcfe, 0x10325476)
             (padded 64 (bytes_le 8 (of_nat (8 * length m) :: u64)) m) of
        (a, b, c, d) \<Rightarrow> concat (map (bytes_le 4) [a, b, c, d]))"

text \<open>A loop body of the code is four steps of the standard.\<close>

lemma md5_four_steps:
  assumes "i < 4"
    and f: "\<And>k x y z. base \<le> k \<Longrightarrow> k < base + 16 \<Longrightarrow> rfc1321_F k x y z = f x y z"
    and s: "\<And>k. k < 16 \<Longrightarrow> rfc1321_s (base + k) = s ! (k mod 4)"
    and idx: "\<And>k. k < 16 \<Longrightarrow> rfc1321_k (base + k) = idx k"
    and sh: "\<And>k. k < 4 \<Longrightarrow> s ! k < 32"
  shows "md5_four f s (\<lambda>k. X (idx k)) (\<lambda>k. C_array ! (base + k)) i st
    = fold (rfc1321_step X) [base + 4 * i ..< base + 4 * i + 4] st"
proof -
  obtain A B C D where st: "st = (A, B, C, D)" by (cases st) auto
  have u: "[base + 4 * i ..< base + 4 * i + 4]
      = [base + (4 * i), base + (4 * i + 1), base + (4 * i + 2), base + (4 * i + 3)]"
    by (simp add: upt_rec)
  have k: "4 * i + j < 16 \<and> (4 * i + j) mod 4 = j" if "j < 4" for j
    using that assms(1) by simp
  have step: "rfc1321_step X (base + (4 * i + j)) (a, b, c, d)
      = (d, md5_OP f a b c d (X (idx (4 * i + j))) (s ! j) (C_array ! (base + (4 * i + j))), b, c)"
    if "j < 4" for j a b c d
    using k [OF that] f [of "base + (4 * i + j)"] s [of "4 * i + j"] idx [of "4 * i + j"] sh [OF that]
    by (simp add: rfc1321_step_def md5_OP_def rotl32_word_rotl ac_simps)
  show ?thesis
    unfolding st u md5_four_def
    using step [of 0] step [of 1] step [of 2] step [of 3] by (simp add: Let_def)
qed

lemma md5_round_steps:
  assumes "\<And>k x y z. base \<le> k \<Longrightarrow> k < base + 16 \<Longrightarrow> rfc1321_F k x y z = f x y z"
    and "\<And>k. k < 16 \<Longrightarrow> rfc1321_s (base + k) = s ! (k mod 4)"
    and "\<And>k. k < 16 \<Longrightarrow> rfc1321_k (base + k) = idx k"
    and "\<And>k. k < 4 \<Longrightarrow> s ! k < 32"
  shows "md5_round f s idx base words st = fold (rfc1321_step (\<lambda>k. words ! k)) [base..<base + 16] st"
proof -
  have four: "md5_four f s (\<lambda>k. words ! idx k) (\<lambda>k. C_array ! (base + k)) i st
      = fold (rfc1321_step (\<lambda>k. words ! k)) [base + 4 * i ..< base + 4 * i + 4] st" if "i < 4" for i st
    by (rule md5_four_steps [OF that assms])
  have "[base..<base + 16] = [base..<base + 4] @ [base + 4..<base + 8] @ [base + 8..<base + 12]
      @ [base + 12..<base + 16]"
    by (simp add: upt_rec)
  then show ?thesis
    using four [of 0] four [of 1] four [of 2] four [of 3]
    by (simp add: md5_round_def upt_rec [of _ 4] eval_nat_numeral(3) [symmetric] add.commute [of base]
      numeral_2_eq_2 [symmetric])
qed

lemma below_16: "list_all P [0..<16] \<Longrightarrow> k < 16 \<Longrightarrow> P k"
  by (auto simp only: list_all_iff set_upt atLeastLessThan_iff)

lemma md5_tables:
  assumes "k < 16"
  shows "rfc1321_k (0 + k) = k" "rfc1321_k (16 + k) = P_array ! k"
    "rfc1321_k (32 + k) = P_array ! (16 + k)" "rfc1321_k (48 + k) = P_array ! (32 + k)"
    "rfc1321_s (0 + k) = [7, 12, 17, 22] ! (k mod 4)" "rfc1321_s (16 + k) = [5, 9, 14, 20] ! (k mod 4)"
    "rfc1321_s (32 + k) = [4, 11, 16, 23] ! (k mod 4)" "rfc1321_s (48 + k) = [6, 10, 15, 21] ! (k mod 4)"
proof -
  show "rfc1321_k (0 + k) = k" using assms by (simp add: rfc1321_k_def)
  show "rfc1321_k (16 + k) = P_array ! k" by (rule below_16 [OF _ assms]) code_simp
  show "rfc1321_k (32 + k) = P_array ! (16 + k)" by (rule below_16 [OF _ assms]) code_simp
  show "rfc1321_k (48 + k) = P_array ! (32 + k)" by (rule below_16 [OF _ assms]) code_simp
qed (use assms in \<open>simp_all add: rfc1321_s_def mod_add_left_eq [symmetric]\<close>)

lemma nth_shifts:
  assumes "a < 32" "b < 32" "c < 32" "d < (32::nat)" "k < 4"
  shows "[a, b, c, d] ! k < 32"
proof -
  consider "k = 0" | "k = 1" | "k = 2" | "k = 3" using assms(5) by linarith
  then show ?thesis using assms by cases simp_all
qed

lemma md5_rounds_steps: "md5_rounds words st = fold (rfc1321_step (\<lambda>k. words ! k)) [0..<64] st"
proof -
  have r1: "md5_round FF [7, 12, 17, 22] (\<lambda>k. k) 0 words st = fold (rfc1321_step (\<lambda>k. words ! k)) [0..<0 + 16] st" for st
    by (rule md5_round_steps [OF _ md5_tables(5) md5_tables(1) nth_shifts])
      (simp_all add: rfc1321_F_def FF_eq)
  have r2: "md5_round FG [5, 9, 14, 20] (\<lambda>k. P_array ! k) 16 words st
      = fold (rfc1321_step (\<lambda>k. words ! k)) [16..<16 + 16] st" for st
    by (rule md5_round_steps [OF _ md5_tables(6) md5_tables(2) nth_shifts])
      (simp_all add: rfc1321_F_def FG_eq)
  have r3: "md5_round FH [4, 11, 16, 23] (\<lambda>k. P_array ! (16 + k)) 32 words st
      = fold (rfc1321_step (\<lambda>k. words ! k)) [32..<32 + 16] st" for st
    by (rule md5_round_steps [OF _ md5_tables(7) md5_tables(3) nth_shifts])
      (simp_all add: rfc1321_F_def FH_def)
  have r4: "md5_round FI [6, 10, 15, 21] (\<lambda>k. P_array ! (32 + k)) 48 words st
      = fold (rfc1321_step (\<lambda>k. words ! k)) [48..<48 + 16] st" for st
    by (rule md5_round_steps [OF _ md5_tables(8) md5_tables(4) nth_shifts])
      (simp_all add: rfc1321_F_def FI_def)
  have u: "[0..<64] = [0..<0 + 16] @ [16..<16 + 16] @ [32..<32 + 16] @ [48..<48 + 16]"
    by code_simp
  show ?thesis
    unfolding md5_rounds_def Let_def r1 r2 r3 r4 u by simp
qed

lemma rfc1321_k_bound: "t < 64 \<Longrightarrow> rfc1321_k t < 16"
  by (simp add: rfc1321_k_def)

lemma words32_nth: "k < 16 \<Longrightarrow> words32 b ! k = word_le (take 4 (drop (4 * k) b))"
  by (simp add: words32_def)

lemma md5_rounds_rfc:
  "md5_rounds (words32 b) st = fold (rfc1321_step (\<lambda>k. word_le (take 4 (drop (4 * k) b)))) [0..<64] st"
  unfolding md5_rounds_steps
  by (rule fold_cong [OF refl refl])
    (simp only: set_upt atLeastLessThan_iff rfc1321_step_def words32_nth rfc1321_k_bound)

definition abcd_of :: "u32 list \<Rightarrow> abcd \<Rightarrow> bool" where
  "abcd_of h st \<longleftrightarrow> length h = 8 \<and> st = (h ! 0, h ! 1, h ! 2, h ! 3)"

lemma md5_block_sim: "abcd_of h st \<Longrightarrow> abcd_of (md5_process_block64 h b) (rfc1321_block st b)"
  by (simp add: abcd_of_def md5_process_block64_def rfc1321_block_def md5_rounds_rfc
      split: prod.split)

lemma length_8: "length xs = 8 \<longleftrightarrow> (\<exists>a b c d e f g h. xs = [a, b, c, d, e, f, g, h])"
  by (auto simp: numeral_eq_Suc length_Suc_conv)

text \<open>A relation kept by the block function relates the finished context to the padded message.\<close>

lemma end_sim:
  assumes "absorbed64 k h m c" "R h st" "\<And>s t b. R s t \<Longrightarrow> length b = 64 \<Longrightarrow> R (block_of k s b) (g t b)"
  shows "R (hash (common64_end c sw)) (md_fold g 64 st (padded 64 (len_field sw m) m))"
  unfolding common64_end_padded(2) [OF assms(1)] by (rule md_fold_sim [of R, OF assms(2,3)])

interpretation md5: stream_hash ctx_ok md5_begin md5_hash "\<lambda>c. snd (md5_end c)" md5_digest
  "\<lambda>m c. \<exists>h. abcd_of h (0x67452301, 0xefcdab89, 0x98badcfe, 0x10325476)
     \<and> absorbed64 Md5_process_block64 h m c"
proof unfold_locales
  fix c :: md5_ctx assume "ctx_ok c"
  then show "\<exists>h. abcd_of h (0x67452301, 0xefcdab89, 0x98badcfe, 0x10325476)
      \<and> absorbed64 Md5_process_block64 h [] (md5_begin c)"
    by (intro exI [of _ "hash (md5_begin c)"])
      (simp add: ctx_ok_def md5_begin_def abcd_of_def absorbed64_Nil)
next
  fix m c and d :: "u8 list"
  assume "\<exists>h. abcd_of h (0x67452301, 0xefcdab89, 0x98badcfe, 0x10325476)
      \<and> absorbed64 Md5_process_block64 h m c"
  then show "\<exists>h. abcd_of h (0x67452301, 0xefcdab89, 0x98badcfe, 0x10325476)
      \<and> absorbed64 Md5_process_block64 h (m @ d) (md5_hash c d)"
    unfolding md5_hash_def by (blast intro: absorbed64_hash)
next
  fix m c
  assume "\<exists>h. abcd_of h (0x67452301, 0xefcdab89, 0x98badcfe, 0x10325476)
      \<and> absorbed64 Md5_process_block64 h m c"
  then obtain h where h: "abcd_of h (0x67452301, 0xefcdab89, 0x98badcfe, 0x10325476)"
    and a: "absorbed64 Md5_process_block64 h m c" by blast
  have "abcd_of (hash (common64_end c False))
     (md_fold rfc1321_block 64 (0x67452301, 0xefcdab89, 0x98badcfe, 0x10325476)
        (padded 64 (len_field False m) m))"
    by (rule end_sim [of _ _ _ _ abcd_of, OF a h]) (simp add: md5_block_sim)
  then show "snd (md5_end c) = md5_digest m"
    by (auto simp: md5_end_def md5_digest_def abcd_of_def Let_def len_field_def length_8)
qed

section \<open>SHA-1 (FIPS 180-4)\<close>

text \<open>The message words and the schedule, by the recursion of section 6.1.2.\<close>

definition fips_M :: "u8 list \<Rightarrow> nat \<Rightarrow> u32" where
  "fips_M b t = word_be (take 4 (drop (4 * t) b))"

fun sha1_W :: "u8 list \<Rightarrow> nat \<Rightarrow> u32" where
  "sha1_W b t =
     (if t < 16 then fips_M b t
      else word_rotl 1 (sha1_W b (t - 3) XOR sha1_W b (t - 8) XOR sha1_W b (t - 14) XOR sha1_W b (t - 16)))"

declare sha1_W.simps [simp del]

definition sha1_f :: "nat \<Rightarrow> u32 \<Rightarrow> u32 \<Rightarrow> u32 \<Rightarrow> u32" where
  "sha1_f t x y z =
     (if t < 20 then (x AND y) XOR (NOT x AND z)
      else if t < 40 then x XOR y XOR z
      else if t < 60 then (x AND y) XOR (x AND z) XOR (y AND z)
      else x XOR y XOR z)"

definition sha1_Kt :: "nat \<Rightarrow> u32" where
  "sha1_Kt t = (if t < 20 then 0x5a827999 else if t < 40 then 0x6ed9eba1
                else if t < 60 then 0x8f1bbcdc else 0xca62c1d6)"

type_synonym abcde = "u32 \<times> u32 \<times> u32 \<times> u32 \<times> u32"

definition fips_sha1_step :: "(nat \<Rightarrow> u32) \<Rightarrow> nat \<Rightarrow> abcde \<Rightarrow> abcde" where
  "fips_sha1_step W t = (\<lambda>(a, b, c, d, e).
     (word_rotl 5 a + sha1_f t b c d + e + sha1_Kt t + W t, a, word_rotl 30 b, c, d))"

definition fips_sha1_block :: "abcde \<Rightarrow> u8 list \<Rightarrow> abcde" where
  "fips_sha1_block st blk =
     (case st of (a, b, c, d, e) \<Rightarrow>
      case fold (fips_sha1_step (sha1_W blk)) [0..<80] st of
        (a2, b2, c2, d2, e2) \<Rightarrow> (a + a2, b + b2, c + c2, d + d2, e + e2))"

definition sha1_digest :: "u8 list \<Rightarrow> u8 list" where
  "sha1_digest m =
     (case md_fold fips_sha1_block 64 (0x67452301, 0xefcdab89, 0x98badcfe, 0x10325476, 0xc3d2e1f0)
             (padded 64 (bytes_be 8 (of_nat (8 * length m) :: u64)) m) of
        (a, b, c, d, e) \<Rightarrow> concat (map (bytes_be 4) [a, b, c, d, e]))"

text \<open>Before step \<open>t\<close> both halves of the circular buffer hold the last sixteen schedule words.\<close>

definition sched_buf :: "u8 list \<Rightarrow> nat \<Rightarrow> u32 list \<Rightarrow> bool" where
  "sched_buf b t ws \<longleftrightarrow> length ws = 32 \<and>
     (\<forall>k. t \<le> k + 16 \<longrightarrow> k < max t 16 \<longrightarrow> ws ! (k mod 16) = sha1_W b k \<and> ws ! (k mod 16 + 16) = sha1_W b k)"

lemma mod_16_back:
  fixes t d :: nat
  assumes "d \<le> 16" "16 \<le> t" "0 < d"
  shows "(t - d) mod 16 = (if d \<le> t mod 16 then t mod 16 - d else t mod 16 + 16 - d)"
proof -
  define q r where "q = t div 16 - 1" and "r = t mod 16"
  have t: "t = 16 * q + (r + 16)" and r: "r < 16"
    using assms(2) div_mult_mod_eq [of t 16] by (auto simp: q_def r_def mult.commute diff_mult_distrib2)
  show ?thesis
  proof (cases "d \<le> r")
    case True
    then have "t - d = (r - d) + 16 * (q + 1)" using t by simp
    then show ?thesis using True r by (simp only: r_def [symmetric] mod_mult_self2 if_True) simp
  next
    case False
    then have "t - d = (r + 16 - d) + 16 * q" using t assms(1) by simp
    then show ?thesis using False r by (simp only: r_def [symmetric] mod_mult_self2 if_False) simp
  qed
qed

lemma sched_buf_read:
  assumes "sched_buf b t ws" "16 \<le> t" "0 < d" "d \<le> 16"
  shows "ws ! (t mod 16 + (16 - d)) = sha1_W b (t - d)"
proof -
  have k: "t \<le> (t - d) + 16" "t - d < max t 16" using assms by auto
  have "t mod 16 + (16 - d) = (if d \<le> t mod 16 then (t - d) mod 16 + 16 else (t - d) mod 16)"
    using mod_16_back [OF assms(4,2,3)] assms(4) by auto
  then show ?thesis using assms(1) k unfolding sched_buf_def by (metis (full_types))
qed

lemma mod_16_distinct: "k < t \<Longrightarrow> t < k + 16 \<Longrightarrow> k mod 16 \<noteq> t mod (16::nat)"
  by (metis add_diff_inverse_nat less_imp_le_nat mod_eq_dvd_iff_nat nat_add_left_cancel_less
      nat_dvd_not_less not_less zero_less_diff)

lemma sched_buf_write:
  assumes "sched_buf b t ws" "16 \<le> t"
  shows "sched_buf b (Suc t) (ws[t mod 16 + 16 := sha1_W b t, t mod 16 := sha1_W b t])"
proof -
  have l: "length ws = 32" using assms(1) by (simp add: sched_buf_def)
  have t: "t mod 16 < 16" by simp
  have "(ws[t mod 16 + 16 := sha1_W b t, t mod 16 := sha1_W b t]) ! (k mod 16) = sha1_W b k \<and>
      (ws[t mod 16 + 16 := sha1_W b t, t mod 16 := sha1_W b t]) ! (k mod 16 + 16) = sha1_W b k"
    if "Suc t \<le> k + 16" "k < max (Suc t) 16" for k
  proof (cases "k = t")
    case True
    then show ?thesis using l t by (simp add: nth_list_update)
  next
    case False
    then have "k mod 16 \<noteq> t mod 16" using that assms(2) by (intro mod_16_distinct) auto
    moreover have "k mod 16 < 16" by simp
    moreover have "ws ! (k mod 16) = sha1_W b k \<and> ws ! (k mod 16 + 16) = sha1_W b k"
      using assms that False unfolding sched_buf_def by auto
    ultimately show ?thesis using l t by (simp add: nth_list_update)
  qed
  then show ?thesis using l by (simp add: sched_buf_def)
qed

definition sha1_regs :: "sha1_work \<Rightarrow> abcde" where
  "sha1_regs s = (wa s, wb s, wc s, wd s, we s)"

definition sha1_at :: "u8 list \<Rightarrow> nat \<Rightarrow> sha1_work \<Rightarrow> bool" where
  "sha1_at b t s \<longleftrightarrow> cnt s = t mod 16 \<and> sched_buf b t (Wbuf s)"

lemma sha1_ge16_write:
  assumes "sha1_at b t s" "16 \<le> t"
  shows "sha1_ge16 s = (Wbuf s)[t mod 16 + 16 := sha1_W b t, t mod 16 := sha1_W b t]"
proof -
  have B: "sched_buf b t (Wbuf s)" and c: "cnt s = t mod 16" using assms(1) by (simp_all add: sha1_at_def)
  have "rotl32 (Wbuf s ! (cnt s + 13) XOR Wbuf s ! (cnt s + 8) XOR Wbuf s ! (cnt s + 2) XOR Wbuf s ! cnt s) 1
      = sha1_W b t"
    using sched_buf_read [OF B assms(2), of 3] sched_buf_read [OF B assms(2), of 8]
      sched_buf_read [OF B assms(2), of 14] sched_buf_read [OF B assms(2), of 16] assms(2) c
    by (subst sha1_W.simps) (simp add: rotl32_word_rotl)
  then show ?thesis using c by (simp add: sha1_ge16_def Let_def)
qed

lemma sha1_step_buf:
  assumes "sha1_at b (20 * i + (19 - j)) s" "j < 20"
  defines "t \<equiv> 20 * i + (19 - j)"
  defines "ws \<equiv> if i = 0 \<and> \<not> j \<le> 3 then Wbuf s else sha1_ge16 s"
  shows "sched_buf b (Suc t) ws" "ws ! cnt s = sha1_W b t"
proof -
  have "i = 0 \<and> \<not> j \<le> 3 \<longleftrightarrow> t < 16" using assms(2) by (auto simp: t_def)
  then have ws: "ws = (if t < 16 then Wbuf s else sha1_ge16 s)" by (simp only: ws_def)
  have c: "cnt s = t mod 16" and B: "sched_buf b t (Wbuf s)" and l: "length (Wbuf s) = 32"
    using assms(1) by (simp_all add: t_def sha1_at_def sched_buf_def)
  show "sched_buf b (Suc t) ws"
  proof (cases "t < 16")
    case True
    then show ?thesis using B by (simp add: ws sched_buf_def)
  next
    case False
    then show ?thesis
      using sched_buf_write [OF B] sha1_ge16_write [OF assms(1) [folded t_def]] by (simp add: ws)
  qed
  show "ws ! cnt s = sha1_W b t"
  proof (cases "t < 16")
    case True
    then show ?thesis using B c by (auto simp: ws sched_buf_def)
  next
    case False
    moreover have "t mod 16 < 16" by simp
    ultimately show ?thesis
      using sha1_ge16_write [OF assms(1) [folded t_def]] l c by (simp add: ws)
  qed
qed

lemma sha1_round_fn:
  assumes "i < 4" "k < 20"
  shows "(if i = 0 then (c XOR d) AND b XOR d
          else if i = 2 then (b OR c) AND d OR b AND c else (c XOR d) XOR b) = sha1_f (20 * i + k) b c d"
proof -
  have ch: "(c XOR d) AND b XOR d = (b AND c) XOR (NOT b AND d)"
    and maj: "(b OR c) AND d OR b AND c = (b AND c) XOR (b AND d) XOR (c AND d)"
    and par: "(c XOR d) XOR b = b XOR c XOR d"
    by (rule bit_word_eqI, auto simp: bit_simps)+
  consider "i = 0" | "i = 1" | "i = 2" | "i = 3" using assms(1) by linarith
  then show ?thesis unfolding ch maj par using assms(2) by cases (simp_all add: sha1_f_def)
qed

lemma sha1_round_const: "i < 4 \<Longrightarrow> k < 20 \<Longrightarrow> rconsts ! i = sha1_Kt (20 * i + k)"
  by (auto simp: rconsts_def sha1_Kt_def nth_Cons' )

lemma sha1_step_fips:
  assumes "sha1_at b (20 * i + k) s" "i < 4" "k < 20"
  shows "sha1_at b (Suc (20 * i + k)) (sha1_step i (19 - k) s)"
    "sha1_regs (sha1_step i (19 - k) s) = fips_sha1_step (sha1_W b) (20 * i + k) (sha1_regs s)"
proof -
  have j: "19 - (19 - k) = k" and j': "19 - k < 20" using assms(3) by simp_all
  note B = sha1_step_buf [of b i "19 - k" s, unfolded j, OF assms(1)]
  show "sha1_at b (Suc (20 * i + k)) (sha1_step i (19 - k) s)"
    using B(1) assms(1) by (simp add: sha1_at_def sha1_step_def Let_def mod_Suc_eq)
  show "sha1_regs (sha1_step i (19 - k) s) = fips_sha1_step (sha1_W b) (20 * i + k) (sha1_regs s)"
    unfolding sha1_step_def Let_def sha1_round_fn [OF assms(2,3)] sha1_round_const [OF assms(2,3)]
      B(2) [OF j']
    by (simp add: sha1_regs_def fips_sha1_step_def rotl32_word_rotl ac_simps)
qed

lemma sha1_round_prefix:
  assumes "sha1_at b (20 * i) s" "i < 4" "n \<le> 20"
  shows "sha1_at b (20 * i + n) (fold (sha1_step i) (map (\<lambda>k. 19 - k) [0..<n]) s)
    \<and> sha1_regs (fold (sha1_step i) (map (\<lambda>k. 19 - k) [0..<n]) s)
      = fold (fips_sha1_step (sha1_W b)) [20 * i..<20 * i + n] (sha1_regs s)"
  using assms(3)
proof (induction n)
  case 0
  then show ?case using assms(1) by simp
next
  case (Suc n)
  then show ?case
    using sha1_step_fips [of b i n "fold (sha1_step i) (map (\<lambda>k. 19 - k) [0..<n]) s"] assms(2) by simp
qed

lemma sha1_round_fips:
  assumes "sha1_at b (20 * i) s" "i < 4"
  shows "sha1_at b (20 * Suc i) (sha1_round i s)"
    "sha1_regs (sha1_round i s) = fold (fips_sha1_step (sha1_W b)) [20 * i..<20 * i + 20] (sha1_regs s)"
proof -
  have "rev [0..<20] = map (\<lambda>k. 19 - k) [0..<20::nat]" by code_simp
  then show "sha1_at b (20 * Suc i) (sha1_round i s)"
    "sha1_regs (sha1_round i s) = fold (fips_sha1_step (sha1_W b)) [20 * i..<20 * i + 20] (sha1_regs s)"
    using sha1_round_prefix [OF assms, of 20] by (simp_all only: sha1_round_def order_refl) (simp add: add.commute)
qed

lemma sha1_rounds_fips:
  assumes "sha1_at b 0 s"
  shows "sha1_regs (fold sha1_round [0..<4] s) = fold (fips_sha1_step (sha1_W b)) [0..<80] (sha1_regs s)"
proof -
  have "n \<le> 4 \<Longrightarrow> sha1_at b (20 * n) (fold sha1_round [0..<n] s) \<and>
    sha1_regs (fold sha1_round [0..<n] s) = fold (fips_sha1_step (sha1_W b)) [0..<20 * n] (sha1_regs s)" for n
  proof (induction n)
    case 0
    then show ?case using assms by simp
  next
    case (Suc n)
    have u: "[0..<20 * Suc n] = [0..<20 * n] @ [20 * n..<20 * n + 20]"
      using upt_add_eq_append [of 0 "20 * n" 20] by (simp add: add.commute)
    have "sha1_at b (20 * n) (fold sha1_round [0..<n] s)" "n < 4" using Suc by simp_all
    from sha1_round_fips [OF this] show ?case using Suc unfolding u by simp
  qed
  from this [of 4] show ?thesis by simp
qed

lemma words32_swapped:
  assumes "length b = 64" "k < 16"
  shows "map bswap_32 (words32 b) ! k = fips_M b k"
proof -
  have "length (take 4 (drop (4 * k) b)) = 4" using assms by simp
  then show ?thesis using assms(2) by (simp add: words32_def fips_M_def bswap_32_word_le)
qed

lemma length_words32 [simp]: "length (words32 b) = 16"
  by (simp add: words32_def)

lemma sched_buf_start:
  assumes "length b = 64"
  shows "sched_buf b 0 (map bswap_32 (words32 b) @ map bswap_32 (words32 b))"
  unfolding sched_buf_def
  by (auto simp: nth_append words32_swapped [OF assms] sha1_W.simps simp del: nth_map)

definition abcde_of :: "u32 list \<Rightarrow> abcde \<Rightarrow> bool" where
  "abcde_of h st \<longleftrightarrow> length h = 8 \<and> st = (h ! 0, h ! 1, h ! 2, h ! 3, h ! 4)"

lemma sha1_block_sim:
  assumes "abcde_of h st" "length b = 64"
  shows "abcde_of (sha1_process_block64 h b) (fips_sha1_block st b)"
proof -
  define s where "s = \<lparr>Wbuf = map bswap_32 (words32 b) @ map bswap_32 (words32 b), cnt = 0,
    wa = h ! 0, wb = h ! 1, wc = h ! 2, wd = h ! 3, we = h ! 4\<rparr>"
  have "sha1_at b 0 s" "sha1_regs s = st"
    using sched_buf_start [OF assms(2)] assms(1) by (simp_all add: s_def sha1_at_def sha1_regs_def abcde_of_def)
  then have R: "sha1_regs (fold sha1_round [0..<4] s) = fold (fips_sha1_step (sha1_W b)) [0..<80] st"
    using sha1_rounds_fips by simp
  show ?thesis
    using assms(1)
    unfolding abcde_of_def sha1_process_block64_def Let_def s_def [symmetric] fips_sha1_block_def R [symmetric]
    by (simp add: sha1_regs_def del: upt_0)
qed

abbreviation (input) sha1_iv :: abcde where
  "sha1_iv \<equiv> (0x67452301, 0xefcdab89, 0x98badcfe, 0x10325476, 0xc3d2e1f0)"

interpretation sha1: stream_hash ctx_ok sha1_begin md5_hash "\<lambda>c. snd (sha1_end c)" sha1_digest
  "\<lambda>m c. \<exists>h. abcde_of h sha1_iv \<and> absorbed64 Sha1_process_block64 h m c"
proof unfold_locales
  fix c :: md5_ctx assume "ctx_ok c"
  then show "\<exists>h. abcde_of h sha1_iv \<and> absorbed64 Sha1_process_block64 h [] (sha1_begin c)"
    by (intro exI [of _ "hash (sha1_begin c)"])
      (simp add: ctx_ok_def sha1_begin_def abcde_of_def absorbed64_Nil)
next
  fix m c and d :: "u8 list"
  assume "\<exists>h. abcde_of h sha1_iv \<and> absorbed64 Sha1_process_block64 h m c"
  then show "\<exists>h. abcde_of h sha1_iv \<and> absorbed64 Sha1_process_block64 h (m @ d) (md5_hash c d)"
    unfolding md5_hash_def by (blast intro: absorbed64_hash)
next
  fix m c
  assume "\<exists>h. abcde_of h sha1_iv \<and> absorbed64 Sha1_process_block64 h m c"
  then obtain h where h: "abcde_of h sha1_iv" and a: "absorbed64 Sha1_process_block64 h m c" by blast
  have "abcde_of (hash (common64_end c True))
     (md_fold fips_sha1_block 64 sha1_iv (padded 64 (len_field True m) m))"
    by (rule end_sim [of _ _ _ _ abcde_of, OF a h]) (simp add: sha1_block_sim)
  then show "snd (sha1_end c) = sha1_digest m"
    using common64_end_padded(1) [OF a, of True]
    by (auto simp: sha1_end_def sha1_digest_def abcde_of_def Let_def len_field_def length_8 bytes_bswap_32)
qed

section \<open>SHA-256 (FIPS 180-4)\<close>

fun sha256_W :: "u8 list \<Rightarrow> nat \<Rightarrow> u32" where
  "sha256_W b t =
     (if t < 16 then fips_M b t
      else (let s0 = (\<lambda>x. word_rotr 7 x XOR word_rotr 18 x XOR drop_bit 3 x);
                s1 = (\<lambda>x. word_rotr 17 x XOR word_rotr 19 x XOR drop_bit 10 x)
            in s1 (sha256_W b (t - 2)) + sha256_W b (t - 7) + s0 (sha256_W b (t - 15)) + sha256_W b (t - 16)))"

declare sha256_W.simps [simp del]

definition fips_sha256_step :: "(nat \<Rightarrow> u32) \<Rightarrow> nat \<Rightarrow> regs32 \<Rightarrow> regs32" where
  "fips_sha256_step W t = (\<lambda>(a, b, c, d, e, f, g, h).
     let T1 = h + (word_rotr 6 e XOR word_rotr 11 e XOR word_rotr 25 e) + ((e AND f) XOR (NOT e AND g))
              + ucast (drop_bit 32 (sha_K ! t)) + W t;
         T2 = (word_rotr 2 a XOR word_rotr 13 a XOR word_rotr 22 a)
              + ((a AND b) XOR (a AND c) XOR (b AND c))
     in (T1 + T2, a, b, c, d + T1, e, f, g))"

definition fips_sha256_block :: "u32 list \<Rightarrow> u8 list \<Rightarrow> u32 list" where
  "fips_sha256_block hs b =
     (case fold (fips_sha256_step (sha256_W b)) [0..<64]
             (hs ! 0, hs ! 1, hs ! 2, hs ! 3, hs ! 4, hs ! 5, hs ! 6, hs ! 7) of
        (a, b, c, d, e, f, g, h) \<Rightarrow> map2 (+) hs [a, b, c, d, e, f, g, h])"

definition sha256_digest :: "u8 list \<Rightarrow> u8 list" where
  "sha256_digest m =
     concat (map (bytes_be 4)
       (md_fold fips_sha256_block 64
          [0x6a09e667, 0xbb67ae85, 0x3c6ef372, 0xa54ff53a, 0x510e527f, 0x9b05688c, 0x1f83d9ab, 0x5be0cd19]
          (padded 64 (bytes_be 8 (of_nat (8 * length m) :: u64)) m)))"

lemma sha256_schedule_W:
  assumes "length b = 64" "16 \<le> n"
  shows "sha256_schedule (map bswap_32 (words32 b)) n = map (sha256_W b) [0..<n]"
  using assms(2)
proof (induction n rule: dec_induct)
  case base
  show ?case
  proof (rule nth_equalityI)
    fix i assume "i < length (sha256_schedule (map bswap_32 (words32 b)) 16)"
    then have i: "i < 16" by (simp add: sha256_schedule_def)
    then show "sha256_schedule (map bswap_32 (words32 b)) 16 ! i = map (sha256_W b) [0..<16] ! i"
      using words32_swapped [OF assms(1) i] by (simp add: sha256_schedule_def sha256_W.simps [of b i])
  qed (simp add: sha256_schedule_def)
next
  case (step n)
  have "sha256_schedule (map bswap_32 (words32 b)) (Suc n)
      = sha256_schedule (map bswap_32 (words32 b)) n @ [sha256_W b n]"
    using step by (subst sha256_W.simps)
      (simp add: sha256_schedule_def [of _ "Suc n"] flip: sha256_schedule_def,
        simp add: R0_32_def R1_32_def rotr32_word_rotr Let_def)
  then show ?case using step by simp
qed


definition same_state :: "u32 list \<Rightarrow> u32 list \<Rightarrow> bool" where
  "same_state h st \<longleftrightarrow> length h = 8 \<and> st = h"

lemma sha256_block_sim:
  assumes "same_state h st" "length b = 64"
  shows "same_state (sha256_process_block64 h b) (fips_sha256_block st b)"
proof -
  have "fold (sha256_step (map (sha256_W b) [0..<64])) [0..<64] r
      = fold (fips_sha256_step (sha256_W b)) [0..<64] r" for r
    by (rule fold_cong [OF refl refl], rule ext, simp only: set_upt atLeastLessThan_iff)
      (simp add: sha256_step_def fips_sha256_step_def S0_32_def S1_32_def Ch32_def Maj32_def rotr32_word_rotr
        case_prod_beta)
  then show ?thesis
    using assms sha256_schedule_W [OF assms(2), of 64]
    by (auto simp: same_state_def sha256_process_block64_def fips_sha256_block_def length_8
        split: prod.split)
qed

abbreviation (input) sha256_iv :: "u32 list" where
  "sha256_iv \<equiv> [0x6a09e667, 0xbb67ae85, 0x3c6ef372, 0xa54ff53a, 0x510e527f, 0x9b05688c, 0x1f83d9ab, 0x5be0cd19]"

interpretation sha256: stream_hash ctx_ok sha256_begin md5_hash "\<lambda>c. snd (sha1_end c)" sha256_digest
  "\<lambda>m c. absorbed64 Sha256_process_block64 sha256_iv m c"
proof unfold_locales
  fix c :: md5_ctx assume "ctx_ok c"
  moreover have "word_le (concat (map (bytes_le 4) (take 2 init256))) = (0::u64)"
    by (simp add: init256_def bytes_le_def upt_rec)
  ultimately show "absorbed64 Sha256_process_block64 sha256_iv [] (sha256_begin c)"
    by (simp add: ctx_ok_def sha256_begin_def absorbed64_Nil init256_def)
next
  fix m c and d :: "u8 list"
  assume "absorbed64 Sha256_process_block64 sha256_iv m c"
  then show "absorbed64 Sha256_process_block64 sha256_iv (m @ d) (md5_hash c d)"
    unfolding md5_hash_def by (rule absorbed64_hash)
next
  fix m c
  assume a: "absorbed64 Sha256_process_block64 sha256_iv m c"
  have "same_state (hash (common64_end c True))
     (md_fold fips_sha256_block 64 sha256_iv (padded 64 (len_field True m) m))"
    by (rule end_sim [of _ _ _ _ same_state, OF a]) (simp_all add: sha256_block_sim, simp add: same_state_def)
  then show "snd (sha1_end c) = sha256_digest m"
    using common64_end_padded(1) [OF a, of True]
    by (auto simp: sha1_end_def sha256_digest_def same_state_def Let_def len_field_def length_8 bytes_bswap_32)
qed

section \<open>Properties\<close>

definition scratch_ctx :: md5_ctx where
  "scratch_ctx = \<lparr>wbuffer = replicate 64 0xa5, process_block = Sha256_process_block64, total64 = 77,
     hash = replicate 8 0xdeadbeef\<rparr>"

lemma scratch_ctx_ok [simp]: "ctx_ok scratch_ctx"
  by (simp add: scratch_ctx_def ctx_ok_def)



text \<open>C14. The same for SHA-1: the circular 32-word schedule buffer, the \<^verbatim>\<open>goto ge16\<close> join
  and the optimised round functions compute the FIPS 180-4 schedule and rounds, and the digest is that
  of the concatenation of the buffers.\<close>

theorem sha1_stream_correct:
  assumes "ctx_ok c" "list_all (\<lambda>d. length d < 2 ^ 64) ds"
  shows "snd (sha1_end (foldl md5_hash (sha1_begin c) ds)) = sha1_digest (concat ds)"
  using assms by (rule sha1.digest_of_chunks)

theorem sha1_stream_correct_witness:
  "snd (sha1_end (foldl md5_hash (sha1_begin scratch_ctx) [replicate 60 1, [2, 3], replicate 64 4]))
     = sha1_digest (replicate 60 1 @ [2, 3] @ replicate 64 4)"
  using sha1_stream_correct [of scratch_ctx "[replicate 60 1, [2, 3], replicate 64 4]"]
  by simp

text \<open>C3. The same for SHA-256, whose context starts as a copy of the \<open>init256\<close> table over the
  byte counter and the state, and whose constants are the upper halves of those of SHA-512.\<close>

theorem sha256_stream_correct:
  assumes "ctx_ok c" "list_all (\<lambda>d. length d < 2 ^ 64) ds"
  shows "snd (sha1_end (foldl md5_hash (sha256_begin c) ds)) = sha256_digest (concat ds)"
  using assms by (rule sha256.digest_of_chunks)

theorem sha256_stream_correct_witness:
  "snd (sha1_end (foldl md5_hash (sha256_begin scratch_ctx) [[], replicate 55 7]))
     = sha256_digest (replicate 55 7)"
  using sha256_stream_correct [of scratch_ctx "[[], replicate 55 7]"]
  by simp

end
