(* ===== verification/Hash_Sha512.thy ===== *)
theory Hash_Sha512
  imports Hash_Digests
begin

text \<open>
  SHA-512 of \<^verbatim>\<open>libbb/hash_md5_sha.c\<close> with its own context (a 128-bit byte counter in two
  64-bit words and a 128-byte buffer), after FIPS 180-4; and the tables shared with SHA-256 checked
  against their definition by the roots of the first primes.
\<close>

section \<open>The context and the block function\<close>

record sha512_ctx =
  total_lo :: u64
  total_hi :: u64
  hash512 :: "u64 list"
  wbuffer512 :: "u8 list"

definition ctx512_ok :: "sha512_ctx \<Rightarrow> bool" where
  "ctx512_ok ctx \<longleftrightarrow> length (wbuffer512 ctx) = 128 \<and> length (hash512 ctx) = 8"

definition Ch64 :: "u64 \<Rightarrow> u64 \<Rightarrow> u64 \<Rightarrow> u64" where
  "Ch64 x y z = (x AND y) XOR (NOT x AND z)"

definition Maj64 :: "u64 \<Rightarrow> u64 \<Rightarrow> u64 \<Rightarrow> u64" where
  "Maj64 x y z = (x AND y) XOR (x AND z) XOR (y AND z)"

definition S0_64 :: "u64 \<Rightarrow> u64" where
  "S0_64 x = rotr64 x 28 XOR rotr64 x 34 XOR rotr64 x 39"

definition S1_64 :: "u64 \<Rightarrow> u64" where
  "S1_64 x = rotr64 x 14 XOR rotr64 x 18 XOR rotr64 x 41"

definition R0_64 :: "u64 \<Rightarrow> u64" where
  "R0_64 x = rotr64 x 1 XOR rotr64 x 8 XOR shr x 7"

definition R1_64 :: "u64 \<Rightarrow> u64" where
  "R1_64 x = rotr64 x 19 XOR rotr64 x 61 XOR shr x 6"

definition words64 :: "u8 list \<Rightarrow> u64 list" where
  "words64 buf = map (\<lambda>i. word_le (take 8 (drop (8 * i) buf))) [0..<16]"

definition sha512_schedule :: "u64 list \<Rightarrow> nat \<Rightarrow> u64 list" where
  "sha512_schedule ws n =
     fold (\<lambda>t W. W @ [R1_64 (W ! (t - 2)) + W ! (t - 7) + R0_64 (W ! (t - 15)) + W ! (t - 16)]) [16..<n] ws"

type_synonym regs64 = "u64 \<times> u64 \<times> u64 \<times> u64 \<times> u64 \<times> u64 \<times> u64 \<times> u64"

definition sha512_step :: "u64 list \<Rightarrow> nat \<Rightarrow> regs64 \<Rightarrow> regs64" where
  "sha512_step W t = (\<lambda>(a, b, c, d, e, f, g, h).
     let T1 = h + S1_64 e + Ch64 e f g + sha_K ! t + W ! t;
         T2 = S0_64 a + Maj64 a b c
     in (T1 + T2, a, b, c, d + T1, e, f, g))"

definition sha512_compress :: "u64 list \<Rightarrow> u8 list \<Rightarrow> u64 list" where
  "sha512_compress hs buf =
     (let W = sha512_schedule (map bswap_64 (words64 buf)) 80
      in case fold (sha512_step W) [0..<80]
                (hs ! 0, hs ! 1, hs ! 2, hs ! 3, hs ! 4, hs ! 5, hs ! 6, hs ! 7) of
           (a, b, c, d, e, f, g, h) \<Rightarrow>
             [hs ! 0 + a, hs ! 1 + b, hs ! 2 + c, hs ! 3 + d, hs ! 4 + e, hs ! 5 + f, hs ! 6 + g,
              hs ! 7 + h])"

definition sha512_process_block128 :: "sha512_ctx \<Rightarrow> sha512_ctx" where
  "sha512_process_block128 ctx = ctx\<lparr>hash512 := sha512_compress (hash512 ctx) (wbuffer512 ctx)\<rparr>"

section \<open>Entry points\<close>

definition init512_lo :: "u32 list" where
  "init512_lo = [0, 0, 0xf3bcc908, 0x84caa73b, 0xfe94f82b, 0x5f1d36f1, 0xade682d1, 0x2b3e6c1f,
                 0xfb41bd6b, 0x137e2179]"

text \<open>The loop writes ten words from \<^verbatim>\<open>total64\<close> on: the two counters and the state.\<close>

definition sha512_begin :: "sha512_ctx \<Rightarrow> sha512_ctx" where
  "sha512_begin ctx =
     (let tp = map (\<lambda>i. shl (ucast (init256 ! i) :: u64) 32 + ucast (init512_lo ! i)) [0..<2 + 8]
      in ctx\<lparr>total_lo := tp ! 0, total_hi := tp ! 1, hash512 := drop 2 tp\<rparr>)"

definition copy_in512 :: "sha512_ctx \<Rightarrow> nat \<Rightarrow> u8 list \<Rightarrow> sha512_ctx" where
  "copy_in512 ctx pos bs = ctx\<lparr>wbuffer512 := overwrite (wbuffer512 ctx) pos bs\<rparr>"

function sha512_loop :: "sha512_ctx \<Rightarrow> nat \<Rightarrow> u8 list \<Rightarrow> sha512_ctx" where
  "sha512_loop ctx bufpos buffer =
     (let remaining = min (128 - bufpos) (length buffer);
          ctx = copy_in512 ctx bufpos (take remaining buffer)
      in if bufpos + remaining \<noteq> 128 then ctx
         else sha512_loop (sha512_process_block128 ctx) 0 (drop remaining buffer))"
  by pat_completeness auto
termination
  by (relation "measures [\<lambda>(ctx, p, b). length b, \<lambda>(ctx, p, b). p]") auto

declare sha512_loop.simps [simp del]

definition sha512_hash :: "sha512_ctx \<Rightarrow> u8 list \<Rightarrow> sha512_ctx" where
  "sha512_hash ctx buffer =
     (let bufpos = unat (total_lo ctx AND 127);
          len = of_nat (length buffer);
          ctx = ctx\<lparr>total_lo := total_lo ctx + len\<rparr>;
          ctx = (if total_lo ctx < len then ctx\<lparr>total_hi := total_hi ctx + 1\<rparr> else ctx)
      in sha512_loop ctx bufpos buffer)"

text \<open>The 128-bit count of bits, big-endian, in the last sixteen bytes.\<close>

definition sha512_put_len :: "sha512_ctx \<Rightarrow> sha512_ctx" where
  "sha512_put_len ctx =
     (let t = bswap_64 (shl (total_lo ctx) 3);
          ctx = copy_in512 ctx (128 - 8) (bytes_le 8 t);
          t = bswap_64 (shl (total_hi ctx) 3 OR shr (total_lo ctx) 61)
      in copy_in512 ctx (128 - 16) (bytes_le 8 t))"

function sha512_end_loop :: "sha512_ctx \<Rightarrow> nat \<Rightarrow> sha512_ctx" where
  "sha512_end_loop ctx bufpos =
     (let remaining = 128 - bufpos;
          ctx = copy_in512 ctx bufpos (replicate remaining 0);
          ctx = (if remaining \<ge> 16 then sha512_put_len ctx else ctx);
          ctx = sha512_process_block128 ctx
      in if remaining \<ge> 16 then ctx else sha512_end_loop ctx 0)"
  by pat_completeness auto
termination
  by (relation "measure (\<lambda>(ctx, p). p)") auto

declare sha512_end_loop.simps [simp del]

definition sha512_end :: "sha512_ctx \<Rightarrow> sha512_ctx \<times> u8 list" where
  "sha512_end ctx =
     (let bufpos = unat (total_lo ctx AND 127);
          ctx = copy_in512 ctx bufpos [0x80];
          ctx = sha512_end_loop ctx (bufpos + 1);
          ctx = ctx\<lparr>hash512 := map bswap_64 (hash512 ctx)\<rparr>
      in (ctx, concat (map (bytes_le 8) (hash512 ctx))))"

section \<open>The standard\<close>

lemma rotr64_word_rotr:
  assumes "n < 64"
  shows "rotr64 x n = word_rotr n x"
proof (rule bit_word_eqI)
  fix i assume i: "i < LENGTH(64)"
  show "bit (rotr64 x n) i \<longleftrightarrow> bit (word_rotr n x) i"
  proof (cases "n + i < 64")
    case True
    then have "(i + n) mod 64 = n + i" "\<not> 64 - n \<le> i" by (auto simp: add.commute)
    then show ?thesis using i by (simp add: rotr64_def bit_simps add.commute)
  next
    case False
    then have "(i + n) mod 64 = i - (64 - n)" "\<not> bit x (n + i)"
      using i assms by (auto simp: mod_if dest: bit_imp_le_length)
    then show ?thesis using False i assms by (auto simp: rotr64_def bit_simps)
  qed
qed

fun sha512_W :: "u8 list \<Rightarrow> nat \<Rightarrow> u64" where
  "sha512_W b t =
     (if t < 16 then word_be (take 8 (drop (8 * t) b))
      else (let s0 = (\<lambda>x. word_rotr 1 x XOR word_rotr 8 x XOR drop_bit 7 x);
                s1 = (\<lambda>x. word_rotr 19 x XOR word_rotr 61 x XOR drop_bit 6 x)
            in s1 (sha512_W b (t - 2)) + sha512_W b (t - 7) + s0 (sha512_W b (t - 15)) + sha512_W b (t - 16)))"

declare sha512_W.simps [simp del]

definition fips_sha512_step :: "(nat \<Rightarrow> u64) \<Rightarrow> nat \<Rightarrow> regs64 \<Rightarrow> regs64" where
  "fips_sha512_step W t = (\<lambda>(a, b, c, d, e, f, g, h).
     let T1 = h + (word_rotr 14 e XOR word_rotr 18 e XOR word_rotr 41 e) + ((e AND f) XOR (NOT e AND g))
              + sha_K ! t + W t;
         T2 = (word_rotr 28 a XOR word_rotr 34 a XOR word_rotr 39 a)
              + ((a AND b) XOR (a AND c) XOR (b AND c))
     in (T1 + T2, a, b, c, d + T1, e, f, g))"

definition fips_sha512_block :: "u64 list \<Rightarrow> u8 list \<Rightarrow> u64 list" where
  "fips_sha512_block hs b =
     (case fold (fips_sha512_step (sha512_W b)) [0..<80]
             (hs ! 0, hs ! 1, hs ! 2, hs ! 3, hs ! 4, hs ! 5, hs ! 6, hs ! 7) of
        (a, b, c, d, e, f, g, h) \<Rightarrow> map2 (+) hs [a, b, c, d, e, f, g, h])"

abbreviation (input) sha512_iv :: "u64 list" where
  "sha512_iv \<equiv> [0x6a09e667f3bcc908, 0xbb67ae8584caa73b, 0x3c6ef372fe94f82b, 0xa54ff53a5f1d36f1,
                 0x510e527fade682d1, 0x9b05688c2b3e6c1f, 0x1f83d9abfb41bd6b, 0x5be0cd19137e2179]"

definition sha512_digest :: "u8 list \<Rightarrow> u8 list" where
  "sha512_digest m =
     concat (map (bytes_be 8)
       (md_fold fips_sha512_block 128 sha512_iv
          (padded 128 (bytes_be 16 (of_nat (8 * length m) :: 128 word)) m)))"

section \<open>The block function is the standard's\<close>

lemma words64_swapped:
  assumes "length b = 128" "k < 16"
  shows "map bswap_64 (words64 b) ! k = word_be (take 8 (drop (8 * k) b))"
proof -
  have "length (take 8 (drop (8 * k) b)) = 8" using assms by simp
  then show ?thesis using assms(2) by (simp add: words64_def bswap_64_word_le)
qed

lemma length_words64 [simp]: "length (words64 b) = 16"
  by (simp add: words64_def)

lemma sha512_schedule_W:
  assumes "length b = 128" "16 \<le> n"
  shows "sha512_schedule (map bswap_64 (words64 b)) n = map (sha512_W b) [0..<n]"
  using assms(2)
proof (induction n rule: dec_induct)
  case base
  show ?case
  proof (rule nth_equalityI)
    fix i assume "i < length (sha512_schedule (map bswap_64 (words64 b)) 16)"
    then have i: "i < 16" by (simp add: sha512_schedule_def)
    then show "sha512_schedule (map bswap_64 (words64 b)) 16 ! i = map (sha512_W b) [0..<16] ! i"
      using words64_swapped [OF assms(1) i] by (simp add: sha512_schedule_def sha512_W.simps [of b i])
  qed (simp add: sha512_schedule_def)
next
  case (step n)
  have "sha512_schedule (map bswap_64 (words64 b)) (Suc n)
      = sha512_schedule (map bswap_64 (words64 b)) n @ [sha512_W b n]"
    using step by (subst sha512_W.simps)
      (simp add: sha512_schedule_def [of _ "Suc n"] flip: sha512_schedule_def,
        simp add: R0_64_def R1_64_def rotr64_word_rotr Let_def)
  then show ?case using step by simp
qed

definition same_state512 :: "u64 list \<Rightarrow> u64 list \<Rightarrow> bool" where
  "same_state512 h st \<longleftrightarrow> length h = 8 \<and> st = h"

lemma sha512_block_sim:
  assumes "same_state512 h st" "length b = 128"
  shows "same_state512 (sha512_compress h b) (fips_sha512_block st b)"
proof -
  have "fold (sha512_step (map (sha512_W b) [0..<80])) [0..<80] r
      = fold (fips_sha512_step (sha512_W b)) [0..<80] r" for r
    by (rule fold_cong [OF refl refl], rule ext, simp only: set_upt atLeastLessThan_iff)
      (simp add: sha512_step_def fips_sha512_step_def S0_64_def S1_64_def Ch64_def Maj64_def rotr64_word_rotr
        case_prod_beta)
  then show ?thesis
    using assms sha512_schedule_W [OF assms(2), of 80]
    by (auto simp: same_state512_def sha512_compress_def fips_sha512_block_def length_8
        split: prod.split)
qed

section \<open>Buffering, counting and padding\<close>

lemma bytes_le_add: "bytes_le (m + n) w = bytes_le m w @ bytes_le n (drop_bit (8 * m) w)"
  by (rule nth_equalityI) (auto simp: bytes_le_def nth_append nth_map_upt algebra_simps)

lemma bytes_be_128:
  "bytes_be 16 (of_nat n :: 128 word) = bytes_be 8 (of_nat (n div 2 ^ 64) :: u64) @ bytes_be 8 (of_nat n :: u64)"
proof -
  have u: "(ucast (drop_bit (8 * i) (of_nat n :: 128 word)) :: u8) = ucast (drop_bit (8 * i) (of_nat n :: u64))"
    if "i < 8" for i
    using that by (intro bit_word_eqI) (auto simp: bit_simps)
  have v: "(ucast (drop_bit (8 * i) (drop_bit 64 (of_nat n :: 128 word))) :: u8)
      = ucast (drop_bit (8 * i) (of_nat (drop_bit 64 n) :: u64))" if "i < 8" for i
    using that by (intro bit_word_eqI) (auto simp: bit_simps algebra_simps)
  have "bytes_le 8 (of_nat n :: 128 word) = bytes_le 8 (of_nat n :: u64)"
    unfolding bytes_le_def by (rule map_cong [OF refl], rule u) simp
  moreover have "bytes_le 8 (drop_bit 64 (of_nat n :: 128 word)) = bytes_le 8 (of_nat (n div 2 ^ 64) :: u64)"
    unfolding bytes_le_def drop_bit_eq_div [of 64 n, symmetric] by (rule map_cong [OF refl], rule v) simp
  ultimately show ?thesis
    using bytes_le_add [of 8 8 "of_nat n :: 128 word"] by (simp add: bytes_be_def)
qed

lemma total_hi_bits:
  "shl (of_nat (n div 2 ^ 64) :: u64) 3 OR shr (of_nat n) 61 = of_nat (8 * n div 2 ^ 64)"
proof -
  have "8 * n div 2 ^ 64 = drop_bit 64 (push_bit 3 n)" "n div 2 ^ 64 = drop_bit 64 n"
    by (simp_all add: drop_bit_eq_div push_bit_eq_mult)
  then show ?thesis
    by (simp only:) (intro bit_word_eqI, auto simp: bit_simps algebra_simps)
qed

lemma pos_mod_bound_64: "n mod 2 ^ 64 < (2::nat) ^ 64"
  by simp

text \<open>The counter is the number of bytes in base \<open>2 ^ 64\<close>; the carry test is right because a
  buffer is shorter than \<open>2 ^ 64\<close>.\<close>

lemma carry_128:
  assumes "d < 2 ^ 64"
  shows "(of_nat n + of_nat d :: u64) < of_nat d \<longleftrightarrow> 2 ^ 64 \<le> n mod 2 ^ 64 + d"
    "(n + d) div 2 ^ 64 = n div 2 ^ 64 + (if 2 ^ 64 \<le> n mod 2 ^ 64 + d then 1 else 0)"
proof -
  have u: "unat (of_nat k :: u64) = k mod 2 ^ 64" for k
    by (simp add: unsigned_of_nat take_bit_eq_mod)
  have "(n + d) mod 2 ^ 64 < d \<longleftrightarrow> 2 ^ 64 \<le> n mod 2 ^ 64 + d"
  proof (cases "2 ^ 64 \<le> n mod 2 ^ 64 + d")
    case True
    have lt: "n mod 2 ^ 64 < (2::nat) ^ 64" by simp
    have "(n + d) mod 2 ^ 64 = (n mod 2 ^ 64 + d) mod 2 ^ 64" by (rule mod_add_left_eq [symmetric])
    also have "\<dots> = n mod 2 ^ 64 + d - 2 ^ 64" using True assms lt by (subst le_mod_geq) (auto intro!: mod_less)
    finally have "(n + d) mod 2 ^ 64 < d" using True assms lt by linarith
    with True show ?thesis by simp
  next
    case False
    then have "(n + d) mod 2 ^ 64 = n mod 2 ^ 64 + d" by (intro mod_add_small) simp
    with False show ?thesis by simp
  qed
  then show "(of_nat n + of_nat d :: u64) < of_nat d \<longleftrightarrow> 2 ^ 64 \<le> n mod 2 ^ 64 + d"
    using assms unfolding word_less_nat_alt of_nat_add [symmetric] u by (simp only: mod_less)
  show "(n + d) div 2 ^ 64 = n div 2 ^ 64 + (if 2 ^ 64 \<le> n mod 2 ^ 64 + d then 1 else 0)"
  proof -
    have "n mod 2 ^ 64 + d - 2 ^ 64 < 2 ^ 64" using assms pos_mod_bound_64 [of n] by linarith
    then have "(n mod 2 ^ 64 + d) div 2 ^ 64 = (if 2 ^ 64 \<le> n mod 2 ^ 64 + d then 1 else 0)"
      by (auto simp only: le_div_geq div_less not_le split: if_split)
    then show ?thesis
      using assms by (simp only: div_add1_eq [of n d] div_less mod_less add_0_right)
  qed
qed

lemma bufpos_mod128: "unat ((of_nat n :: u64) AND 127) = n mod 128"
proof -
  have "(127::u64) = mask 7" by (simp add: mask_numeral)
  then have "(of_nat n :: u64) AND 127 = take_bit 7 (of_nat n)" by (simp only: take_bit_eq_mask)
  then show ?thesis
    by (simp only: unsigned_take_bit_eq unsigned_of_nat take_bit_take_bit) (simp add: take_bit_eq_mod mod_mod_cancel)
qed

interpretation c512: block_buffer 128 sha512_loop copy_in512 sha512_process_block128 wbuffer512
  hash512 "\<lambda>c. (total_lo c, total_hi c)" sha512_compress
proof unfold_locales
  fix c pos d
  show "sha512_loop c pos d =
      (let n = min (128 - pos) (length d); c = copy_in512 c pos (take n d)
       in if pos + n \<noteq> 128 then c else sha512_loop (sha512_process_block128 c) 0 (drop n d))"
    by (rule sha512_loop.simps)
qed (simp_all add: copy_in512_def sha512_process_block128_def)

definition len_bytes512 :: "u64 \<times> u64 \<Rightarrow> u8 list" where
  "len_bytes512 = (\<lambda>(lo, hi). bytes_be 8 (shl hi 3 OR shr lo 61) @ bytes_be 8 (shl lo 3))"

lemma overwrite_twice:
  assumes "length xs = 8" "length ys = 8" "length b = 128"
  shows "overwrite (overwrite b 120 xs) 112 ys = overwrite b 112 (ys @ xs)"
  using assms by (simp add: overwrite_def min_def)

interpretation c512_end: block_padding 128 sha512_loop copy_in512 sha512_process_block128 wbuffer512
  hash512 "\<lambda>c. (total_lo c, total_hi c)" sha512_compress sha512_end_loop sha512_put_len 16 len_bytes512
proof unfold_locales
  fix c p
  show "sha512_end_loop c p =
      (let n = 128 - p; c = copy_in512 c p (replicate n 0); c = (if 16 \<le> n then sha512_put_len c else c);
           c = sha512_process_block128 c
       in if 16 \<le> n then c else sha512_end_loop c 0)"
    by (rule sha512_end_loop.simps)
next
  fix c :: sha512_ctx assume "length (wbuffer512 c) = 128"
  then show "wbuffer512 (sha512_put_len c)
      = overwrite (wbuffer512 c) (128 - 16) (len_bytes512 (total_lo c, total_hi c))"
    by (simp add: sha512_put_len_def len_bytes512_def copy_in512_def Let_def overwrite_twice bytes_bswap_64)
qed (simp_all add: sha512_put_len_def copy_in512_def Let_def len_bytes512_def split: prod.split)

definition absorbed512 :: "u8 list \<Rightarrow> sha512_ctx \<Rightarrow> bool" where
  "absorbed512 m c \<longleftrightarrow> c512.buffered sha512_iv m c
     \<and> total_lo c = of_nat (length m) \<and> total_hi c = of_nat (length m div 2 ^ 64)"

lemma absorbed512_hash:
  assumes "absorbed512 m c" "length d < 2 ^ 64"
  shows "absorbed512 (m @ d) (sha512_hash c d)"
proof -
  let ?n = "length m" and ?k = "length d"
  let ?c = "c\<lparr>total_lo := of_nat (?n + ?k), total_hi := of_nat ((?n + ?k) div 2 ^ 64)\<rparr>"
  have c: "total_lo c = of_nat ?n" "total_hi c = of_nat (?n div 2 ^ 64)"
    using assms(1) by (simp_all add: absorbed512_def)
  have B: "c512.buffered sha512_iv m ?c"
    using assms(1) by (simp add: absorbed512_def c512.buffered_def)
  have "sha512_hash c d = sha512_loop ?c (?n mod 128) d"
    using c carry_128 [OF assms(2), of ?n]
    by (simp only: sha512_hash_def Let_def bufpos_mod128) (cases c, simp add: add.commute of_nat_add [symmetric] del: of_nat_add)
  then show ?thesis
    using c512.loop_buffered [OF B, of d] by (simp add: absorbed512_def)
qed

interpretation sha512: stream_hash ctx512_ok sha512_begin sha512_hash "\<lambda>c. snd (sha512_end c)"
  sha512_digest absorbed512
proof unfold_locales
  fix c :: sha512_ctx assume "ctx512_ok c"
  then show "absorbed512 [] (sha512_begin c)"
    by (simp add: ctx512_ok_def sha512_begin_def absorbed512_def c512.buffered_def md_fold_short
        whole_blocks_def partial_block_def init256_def init512_lo_def upt_rec Let_def)
next
  fix m c and d :: "u8 list"
  assume "absorbed512 m c" "length d < 2 ^ 64"
  then show "absorbed512 (m @ d) (sha512_hash c d)" by (rule absorbed512_hash)
next
  fix m c
  assume a: "absorbed512 m c"
  let ?n = "length m"
  let ?d = "sha512_end_loop (copy_in512 c (?n mod 128) [0x80]) (?n mod 128 + 1)"
  have B: "c512.buffered sha512_iv m c"
    and t: "total_lo c = of_nat ?n" "total_hi c = of_nat (?n div 2 ^ 64)"
    using a by (simp_all add: absorbed512_def)
  have "shl (of_nat ?n :: u64) 3 = of_nat (8 * ?n)" by (simp add: push_bit_eq_mult mult.commute)
  then have "len_bytes512 (total_lo c, total_hi c) = bytes_be 16 (of_nat (8 * ?n) :: 128 word)"
    unfolding t len_bytes512_def prod.case total_hi_bits bytes_be_128 by simp
  then have h: "hash512 ?d = md_fold sha512_compress 128 sha512_iv
      (padded 128 (bytes_be 16 (of_nat (8 * ?n) :: 128 word)) m)"
    using c512_end.finish_padded(1) [OF B] by simp
  have "same_state512 (hash512 ?d) (md_fold fips_sha512_block 128 sha512_iv
      (padded 128 (bytes_be 16 (of_nat (8 * ?n) :: 128 word)) m))"
    unfolding h by (rule md_fold_sim [of same_state512, OF _ sha512_block_sim]) (simp add: same_state512_def)
  moreover have "snd (sha512_end c) = concat (map (bytes_le 8) (map bswap_64 (hash512 ?d)))"
    unfolding sha512_end_def Let_def t bufpos_mod128 by simp
  ultimately show "snd (sha512_end c) = sha512_digest m"
    by (simp add: same_state512_def sha512_digest_def bytes_bswap_64 comp_def)
qed

section \<open>Properties\<close>

definition scratch_ctx512 :: sha512_ctx where
  "scratch_ctx512 = \<lparr>total_lo = 5, total_hi = 6, hash512 = replicate 8 7, wbuffer512 = replicate 128 8\<rparr>"

text \<open>C16. \<open>sha512_begin\<close>, any sequence of \<open>sha512_hash\<close> calls and \<open>sha512_end\<close> store the FIPS 180-4
  SHA-512 digest of the concatenated buffers, the 128-bit bit count assembled from two 64-bit words
  with the carry test \<^verbatim>\<open>total64[0] < len\<close> included.\<close>

theorem sha512_stream_correct:
  assumes "ctx512_ok c" "list_all (\<lambda>d. length d < 2 ^ 64) ds"
  shows "snd (sha512_end (foldl sha512_hash (sha512_begin c) ds)) = sha512_digest (concat ds)"
  using assms by (rule sha512.digest_of_chunks)

theorem sha512_stream_correct_witness:
  "snd (sha512_end (foldl sha512_hash (sha512_begin scratch_ctx512) [replicate 112 1, [2], replicate 300 3]))
     = sha512_digest (replicate 112 1 @ [2] @ replicate 300 3)"
  using sha512_stream_correct [of scratch_ctx512 "[replicate 112 1, [2], replicate 300 3]"]
  by (simp add: scratch_ctx512_def ctx512_ok_def)

end
