(* ===== verification/Hash_Tables.thy ===== *)
theory Hash_Tables
  imports Complex_Main Hash_Sha512
begin

text \<open>
  The constant tables of SHA-256 and SHA-512 in \<^verbatim>\<open>libbb/hash_md5_sha.c\<close> against their
  definition in FIPS 180-4: the fractional parts of the cube roots of the first eighty primes and of
  the square roots of the first eight, to 64 bits.
\<close>

definition first_primes :: "int list" where
  "first_primes =
     [2, 3, 5, 7, 11, 13, 17, 19, 23, 29, 31, 37, 41, 43, 47, 53, 59, 61, 67, 71, 73, 79, 83, 89,
     97, 101, 103, 107, 109, 113, 127, 131, 137, 139, 149, 151, 157, 163, 167, 173, 179, 181,
     191, 193, 197, 199, 211, 223, 227, 229, 233, 239, 241, 251, 257, 263, 269, 271, 277, 281,
     283, 293, 307, 311, 313, 317, 331, 337, 347, 349, 353, 359, 367, 373, 379, 383, 389, 397,
     401, 409]"

lemma word_64_zero: "(18446744073709551616::u64) = 0"
  by code_simp

lemma root_frac:
  assumes "0 \<le> i" "(i * 2 ^ 64 + uint w) ^ k \<le> p * 2 ^ (64 * k)" "p * 2 ^ (64 * k) < (i * 2 ^ 64 + uint w + 1) ^ k"
    "0 < k"
  shows "w = (word_of_int \<lfloor>root k (of_int p) * 2 ^ 64\<rfloor> :: u64)"
proof -
  define x where "x = i * 2 ^ 64 + uint w"
  have x: "0 \<le> x" using assms(1) by (simp add: x_def)
  have r: "root k (real_of_int (p * 2 ^ (64 * k))) = root k p * 2 ^ 64"
    using assms(4) by (simp add: real_root_mult power_mult real_root_power_cancel)
  have "real_of_int x = root k (real_of_int (x ^ k))" "real_of_int (x + 1) = root k (real_of_int ((x + 1) ^ k))"
    using x assms(4) by (simp_all add: real_root_power_cancel del: of_int_add)
  moreover have "root k (real_of_int (x ^ k)) \<le> root k (real_of_int (p * 2 ^ (64 * k)))"
    using assms(2,4) unfolding x_def [symmetric] by (simp only: real_root_le_iff of_int_le_iff)
  moreover have "root k (real_of_int (p * 2 ^ (64 * k))) < root k (real_of_int ((x + 1) ^ k))"
    using assms(3,4) unfolding x_def [symmetric] by (simp only: real_root_less_iff of_int_less_iff)
  ultimately have "\<lfloor>root k (of_int p) * 2 ^ 64\<rfloor> = x" unfolding r by (simp add: floor_unique)
  moreover have "word_of_int x = w"
    by (simp add: x_def word_64_zero)
  ultimately show ?thesis by simp
qed

definition root_check :: "nat \<Rightarrow> int \<times> int \<Rightarrow> u64 \<Rightarrow> bool" where
  "root_check k = (\<lambda>(p, i) w. 0 \<le> i \<and> (i * 2 ^ 64 + uint w) ^ k \<le> p * 2 ^ (64 * k)
     \<and> p * 2 ^ (64 * k) < (i * 2 ^ 64 + uint w + 1) ^ k)"

lemma root_check_frac:
  assumes "list_all2 (root_check k) pis ws" "0 < k"
  shows "list_all2 (\<lambda>p w. w = word_of_int \<lfloor>root k (of_int p) * 2 ^ 64\<rfloor>) (map fst pis) ws"
  unfolding list_all2_map1 using assms(1)
  by (rule list_all2_mono) (use root_frac [OF _ _ _ assms(2)] in \<open>unfold root_check_def case_prod_beta, blast\<close>)

lemma sha_K_checked:
  "list_all2 (root_check 3)
     [(2, 1), (3, 1), (5, 1), (7, 1), (11, 2), (13, 2), (17, 2), (19, 2), (23, 2), (29, 3), (31,
     3), (37, 3), (41, 3), (43, 3), (47, 3), (53, 3), (59, 3), (61, 3), (67, 4), (71, 4), (73,
     4), (79, 4), (83, 4), (89, 4), (97, 4), (101, 4), (103, 4), (107, 4), (109, 4), (113, 4),
     (127, 5), (131, 5), (137, 5), (139, 5), (149, 5), (151, 5), (157, 5), (163, 5), (167, 5),
     (173, 5), (179, 5), (181, 5), (191, 5), (193, 5), (197, 5), (199, 5), (211, 5), (223, 6),
     (227, 6), (229, 6), (233, 6), (239, 6), (241, 6), (251, 6), (257, 6), (263, 6), (269, 6),
     (271, 6), (277, 6), (281, 6), (283, 6), (293, 6), (307, 6), (311, 6), (313, 6), (317, 6),
     (331, 6), (337, 6), (347, 7), (349, 7), (353, 7), (359, 7), (367, 7), (373, 7), (379, 7),
     (383, 7), (389, 7), (397, 7), (401, 7), (409, 7)] sha_K"
  by code_simp

lemma sha512_iv_checked:
  "list_all2 (root_check 2)
     [(2, 1), (3, 1), (5, 2), (7, 2), (11, 3), (13, 3), (17, 4), (19, 4)] sha512_iv"
  by code_simp

lemma hash_sha512_begin: "hash512 (sha512_begin c) = sha512_iv"
  by (simp add: sha512_begin_def init256_def init512_lo_def upt_rec Let_def)

text \<open>The tables are the constants of FIPS 180-4: entry \<open>t\<close> of \<open>sha_K\<close> is the first 64 bits of
  the fractional part of the cube root of the \<open>t\<close>-th prime, and the state \<open>sha512_begin\<close> assembles
  from \<open>init256\<close> and \<open>init512_lo\<close> is the first 64 bits of the fractional parts of the square roots of
  the first eight.\<close>

theorem sha2_constants:
  "list_all2 (\<lambda>p w. w = word_of_int \<lfloor>root 3 (of_int p) * 2 ^ 64\<rfloor>) first_primes sha_K
   \<and> list_all2 (\<lambda>p w. w = word_of_int \<lfloor>root 2 (of_int p) * 2 ^ 64\<rfloor>) (take 8 first_primes)
        (hash512 (sha512_begin c))"
  using root_check_frac [OF sha_K_checked] root_check_frac [OF sha512_iv_checked]
  unfolding hash_sha512_begin first_primes_def by simp

end
