(* ===== verification/Hash_Sha3.thy ===== *)
theory Hash_Sha3
  imports Hash_Stream
begin

text \<open>
  SHA-3 of \<^verbatim>\<open>libbb/hash_md5_sha.c\<close> (native 64-bit path, \<^verbatim>\<open>SHA3_SMALL=1\<close>): the
  Keccak permutation with its in-place rho/pi walk and packed iota table, the sponge that XORs bytes
  into the state, and the proof that they are FIPS 202.
\<close>

section \<open>The code\<close>

record sha3_ctx =
  state :: "u64 list"
  bytes_queued :: nat
  input_block_bytes :: nat

definition NROUNDS :: nat where
  "NROUNDS = 24"

definition IOTA_CONST :: "u16 list" where
  "IOTA_CONST =
     [0x0001, 0x8082, 0x808a, 0x8000, 0x808b, 0x0001, 0x8081, 0x8009, 0x008a, 0x0088, 0x8009, 0x000a,
      0x808b, 0x008b, 0x8089, 0x8003, 0x8002, 0x0080, 0x800a, 0x000a, 0x8081, 0x8080, 0x0001, 0x8008]"

definition IOTA_CONST_bit63 :: u32 where
  "IOTA_CONST_bit63 = 0x3307dd00"

definition IOTA_CONST_bit31 :: u32 where
  "IOTA_CONST_bit31 = 0x16381b00"

definition ROT_CONST :: "nat list" where
  "ROT_CONST =
     [1, 3, 6, 10, 15, 21, 28, 36, 45, 55, 2, 14, 27, 41, 56, 8, 25, 43, 62, 18, 39, 61, 20, 44]"

definition PI_LANE :: "nat list" where
  "PI_LANE =
     [10, 7, 11, 17, 18, 3, 5, 16, 8, 21, 24, 4, 15, 23, 19, 13, 12, 2, 20, 14, 22, 9, 6, 1]"

definition theta_BC :: "u64 list \<Rightarrow> u64 list" where
  "theta_BC st =
     (let bc = map (\<lambda>x. st ! x XOR st ! (x + 5) XOR st ! (x + 10) XOR st ! (x + 15) XOR st ! (x + 20)) [0..<5]
      in bc @ bc)"

definition theta :: "u64 list \<Rightarrow> u64 list" where
  "theta st =
     (let BC = theta_BC st
      in fold (\<lambda>x st. let temp = BC ! (x + 4) XOR rotl64 (BC ! (x + 1)) 1
                      in st[x := st ! x XOR temp, x + 5 := st ! (x + 5) XOR temp,
                            x + 10 := st ! (x + 10) XOR temp, x + 15 := st ! (x + 15) XOR temp,
                            x + 20 := st ! (x + 20) XOR temp]) [0..<5] st)"

definition rho_pi :: "u64 list \<Rightarrow> u64 list" where
  "rho_pi st =
     fst (fold (\<lambda>x (st, t1). (st[PI_LANE ! x := rotl64 t1 (ROT_CONST ! x)], st ! (PI_LANE ! x)))
            [0..<24] (st, st ! 1))"

definition chi_row :: "nat \<Rightarrow> u64 list \<Rightarrow> u64 list" where
  "chi_row x st =
     (let BC0 = st ! x; BC1 = st ! (x + 1); BC2 = st ! (x + 2); BC3 = st ! (x + 3); BC4 = st ! (x + 4)
      in st[x := BC0 XOR (NOT BC1 AND BC2), x + 1 := BC1 XOR (NOT BC2 AND BC3),
            x + 2 := BC2 XOR (NOT BC3 AND BC4), x + 3 := BC3 XOR (NOT BC4 AND BC0),
            x + 4 := BC4 XOR (NOT BC0 AND BC1)])"

definition chi :: "u64 list \<Rightarrow> u64 list" where
  "chi st = fold chi_row [0, 5, 10, 15, 20] st"

definition iota_word :: "nat \<Rightarrow> u64" where
  "iota_word round =
     ucast (IOTA_CONST ! round)
     OR ucast (shl IOTA_CONST_bit31 round AND 0x80000000)
     OR shl (ucast (shl IOTA_CONST_bit63 round AND 0x80000000)) 32"

definition sha3_round :: "nat \<Rightarrow> u64 list \<Rightarrow> u64 list" where
  "sha3_round round st =
     (let st = chi (rho_pi (theta st)) in st[0 := st ! 0 XOR iota_word round])"

definition sha3_process_block72 :: "u64 list \<Rightarrow> u64 list" where
  "sha3_process_block72 st = fold sha3_round [0..<NROUNDS] st"

definition sha3_begin :: "sha3_ctx \<Rightarrow> sha3_ctx" where
  "sha3_begin ctx = \<lparr>state = replicate 25 0, bytes_queued = 0, input_block_bytes = (1600 - 512 * 2) div 8\<rparr>"

text \<open>\<open>((uint8_t*)state)[pos] ^= b\<close> on a little-endian machine.\<close>

definition xor_byte :: "u64 list \<Rightarrow> nat \<Rightarrow> u8 \<Rightarrow> u64 list" where
  "xor_byte st pos b = st[pos div 8 := st ! (pos div 8) XOR shl (ucast b) (8 * (pos mod 8))]"

fun xor_bytes :: "u64 list \<Rightarrow> nat \<Rightarrow> u8 list \<Rightarrow> u64 list" where
  "xor_bytes st bufpos [] = st"
| "xor_bytes st bufpos (b # data) = xor_bytes (xor_byte st bufpos b) (bufpos + 1) data"

text \<open>The loop of \<^verbatim>\<open>sha3_hash\<close>.  A block size of 0, for which the code would never return, is
  excluded by the callers; the model then stops.\<close>

function sha3_loop :: "sha3_ctx \<Rightarrow> nat \<Rightarrow> u8 list \<Rightarrow> sha3_ctx \<times> nat" where
  "sha3_loop ctx bufpos data =
     (let remaining = min (input_block_bytes ctx - bufpos) (length data);
          ctx = ctx\<lparr>state := xor_bytes (state ctx) bufpos (take remaining data)\<rparr>;
          bufpos = bufpos + remaining
      in if bufpos \<noteq> input_block_bytes ctx \<or> input_block_bytes ctx = 0 then (ctx, bufpos)
         else sha3_loop (ctx\<lparr>state := sha3_process_block72 (state ctx)\<rparr>) 0 (drop remaining data))"
  by pat_completeness auto
termination
  by (relation "measures [\<lambda>(ctx, p, b). length b, \<lambda>(ctx, p, b). p]") auto

declare sha3_loop.simps [simp del]

definition sha3_hash :: "sha3_ctx \<Rightarrow> u8 list \<Rightarrow> sha3_ctx" where
  "sha3_hash ctx buffer =
     (case sha3_loop ctx (bytes_queued ctx) buffer of (ctx, bufpos) \<Rightarrow> ctx\<lparr>bytes_queued := bufpos\<rparr>)"

definition sha3_end :: "sha3_ctx \<Rightarrow> sha3_ctx \<times> u8 list" where
  "sha3_end ctx =
     (let st = xor_byte (state ctx) (bytes_queued ctx) 6;
          st = xor_byte st (input_block_bytes ctx - 1) 0x80;
          st = sha3_process_block72 st
      in (ctx\<lparr>state := st\<rparr>, take 64 (concat (map (bytes_le 8) st))))"

section \<open>The permutation of FIPS 202\<close>

text \<open>Lane \<open>(x, y)\<close> is word \<open>x + 5 * y\<close>.\<close>

definition lane :: "u64 list \<Rightarrow> nat \<Rightarrow> nat \<Rightarrow> u64" where
  "lane A x y = A ! (x mod 5 + 5 * (y mod 5))"

definition lanes :: "(nat \<Rightarrow> nat \<Rightarrow> u64) \<Rightarrow> u64 list" where
  "lanes f = map (\<lambda>i. f (i mod 5) (i div 5)) [0..<25]"

definition fips_theta :: "u64 list \<Rightarrow> u64 list" where
  "fips_theta A =
     (let C = (\<lambda>x. lane A x 0 XOR lane A x 1 XOR lane A x 2 XOR lane A x 3 XOR lane A x 4);
          D = (\<lambda>x. C (x + 4) XOR word_rotl 1 (C (x + 1)))
      in lanes (\<lambda>x y. lane A x y XOR D x))"

text \<open>Section 3.2.2: the offsets along the walk \<open>(x, y) \<mapsto> (y, 2x + 3y)\<close> from \<open>(1, 0)\<close>.\<close>

fun rho_walk :: "nat \<Rightarrow> nat \<Rightarrow> nat \<Rightarrow> nat \<Rightarrow> (nat \<times> nat) list" where
  "rho_walk t 0 x y = []"
| "rho_walk t (Suc n) x y =
     (x + 5 * y, (t + 1) * (t + 2) div 2 mod 64) # rho_walk (t + 1) n y ((2 * x + 3 * y) mod 5)"

definition rho_offset :: "nat \<Rightarrow> nat \<Rightarrow> nat" where
  "rho_offset x y = (case map_of (rho_walk 0 24 1 0) (x + 5 * y) of None \<Rightarrow> 0 | Some r \<Rightarrow> r)"

definition fips_rho :: "u64 list \<Rightarrow> u64 list" where
  "fips_rho A = lanes (\<lambda>x y. word_rotl (rho_offset x y) (lane A x y))"

definition fips_pi :: "u64 list \<Rightarrow> u64 list" where
  "fips_pi A = lanes (\<lambda>x y. lane A (x + 3 * y) x)"

definition fips_chi :: "u64 list \<Rightarrow> u64 list" where
  "fips_chi A = lanes (\<lambda>x y. lane A x y XOR (NOT (lane A (x + 1) y) AND lane A (x + 2) y))"

text \<open>Algorithm 5, the linear feedback shift register behind the round constants.\<close>

fun lfsr :: "nat \<Rightarrow> bool list \<Rightarrow> bool list" where
  "lfsr 0 R = R"
| "lfsr (Suc n) R =
     lfsr n (let r8 = R ! 7
             in [r8, R ! 0, R ! 1, R ! 2, R ! 3 \<noteq> r8, R ! 4 \<noteq> r8, R ! 5 \<noteq> r8, R ! 6])"

definition fips_rc :: "nat \<Rightarrow> bool" where
  "fips_rc t = lfsr (t mod 255) [True, False, False, False, False, False, False, False] ! 0"

definition fips_RC :: "nat \<Rightarrow> u64" where
  "fips_RC ir = foldr (\<lambda>j w. if fips_rc (j + 7 * ir) then set_bit (2 ^ j - 1) w else w) [0..<7] 0"

definition fips_round :: "u64 list \<Rightarrow> nat \<Rightarrow> u64 list" where
  "fips_round A ir = (let A = fips_chi (fips_pi (fips_rho (fips_theta A))) in A[0 := A ! 0 XOR fips_RC ir])"

definition keccak_f :: "u64 list \<Rightarrow> u64 list" where
  "keccak_f A = foldl fips_round A [0..<24]"

section \<open>The code is the permutation\<close>

lemma rotl64_word_rotl:
  assumes "n < 64"
  shows "rotl64 x n = word_rotl n x"
proof (rule bit_word_eqI)
  fix i assume i: "i < LENGTH(64)"
  show "bit (rotl64 x n) i \<longleftrightarrow> bit (word_rotl n x) i"
  proof (cases "n \<le> i")
    case True
    then have "(i + 64 - n) mod 64 = i - n" "\<not> bit x (64 - n + i)"
      using i assms by (auto simp: mod_if dest: bit_imp_le_length)
    then show ?thesis using True i by (simp add: rotl64_def bit_simps)
  next
    case False
    then have "(i + 64 - n) mod 64 = 64 - n + i" using i assms by simp
    then show ?thesis using False i assms by (simp add: rotl64_def bit_simps)
  qed
qed

lemma length_25E:
  assumes "length A = 25"
  obtains a0 a1 a2 a3 a4 a5 a6 a7 a8 a9 a10 a11 a12 a13 a14 a15 a16 a17 a18 a19 a20 a21 a22 a23 a24
  where "A = [a0, a1, a2, a3, a4, a5, a6, a7, a8, a9, a10, a11, a12, a13, a14, a15, a16, a17, a18, a19,
    a20, a21, a22, a23, a24]"
  using assms by (auto simp: numeral_eq_Suc length_Suc_conv)

lemma upt_25:
  "[0..<25] = [0, 1, 2, 3, 4, 5, 6, 7, 8, 9, 10, 11, 12, 13, 14, 15, 16, 17, 18, 19, 20, 21, 22, 23, 24]"
  "[0..<24] = [0, 1, 2, 3, 4, 5, 6, 7, 8, 9, 10, 11, 12, 13, 14, 15, 16, 17, 18, 19, 20, 21, 22, 23]"
  "[0..<5] = [0, 1, 2, 3, 4]"
  by code_simp+

lemma theta_fips: "length A = 25 \<Longrightarrow> theta A = fips_theta A"
  by (erule length_25E)
    (simp add: theta_def theta_BC_def fips_theta_def lanes_def lane_def upt_25 rotl64_word_rotl Let_def)

lemma rho_offsets:
  "map (\<lambda>i. rho_offset (i mod 5) (i div 5)) [0..<25] =
     [0, 1, 62, 28, 27, 36, 44, 6, 55, 20, 3, 10, 43, 25, 39, 41, 45, 15, 21, 8, 18, 2, 61, 56, 14]"
  by code_simp

lemma word_rotl_0: "word_rotl 0 (x::u64) = x"
  by (rule bit_word_eqI) (simp add: bit_word_rotl_iff)

lemma rho_pi_fips:
  assumes "length A = 25"
  shows "rho_pi A = fips_pi (fips_rho A)"
proof -
  have "fips_rho A = map (\<lambda>i. word_rotl (rho_offset (i mod 5) (i div 5)) (A ! i)) [0..<25]"
    unfolding fips_rho_def lanes_def lane_def upt_25 by simp
  also have "\<dots> = map2 word_rotl (map (\<lambda>i. rho_offset (i mod 5) (i div 5)) [0..<25]) A"
    using assms by (intro nth_equalityI) simp_all
  finally have R: "fips_rho A = map2 word_rotl
      [0, 1, 62, 28, 27, 36, 44, 6, 55, 20, 3, 10, 43, 25, 39, 41, 45, 15, 21, 8, 18, 2, 61, 56, 14] A"
    unfolding rho_offsets .
  show ?thesis
    unfolding R using assms
    by (elim length_25E)
      (simp add: fips_pi_def lanes_def lane_def upt_25 rho_pi_def PI_LANE_def ROT_CONST_def rotl64_word_rotl
        word_rotl_0)
qed

lemma chi_fips: "length A = 25 \<Longrightarrow> chi A = fips_chi A"
  by (erule length_25E)
    (simp add: chi_def chi_row_def fips_chi_def lanes_def lane_def upt_25 Let_def)

text \<open>The constants of successive rounds, running the register on instead of restarting it.\<close>

lemma lfsr_add: "lfsr (m + n) R = lfsr n (lfsr m R)"
  by (induction m R rule: lfsr.induct) simp_all

definition rc_word :: "bool list \<Rightarrow> u64" where
  "rc_word R = foldr (\<lambda>j w. if lfsr j R ! 0 then set_bit (2 ^ j - 1) w else w) [0..<7] 0"

fun rc_words :: "nat \<Rightarrow> bool list \<Rightarrow> u64 list" where
  "rc_words 0 R = []"
| "rc_words (Suc n) R = rc_word R # rc_words n (lfsr 7 R)"

lemma rc_words_nth: "i < n \<Longrightarrow> rc_words n R ! i = rc_word (lfsr (7 * i) R)"
proof (induction n R arbitrary: i rule: rc_words.induct)
  case (2 n R)
  then show ?case
    using lfsr_add [of 7 "7 * (i - 1)" R] by (cases i) (simp_all only: mult_Suc_right rc_words.simps nth_Cons_0
      nth_Cons_Suc Suc_less_eq diff_Suc_1 mult_0_right lfsr.simps(1))
qed simp

abbreviation (input) lfsr_start :: "bool list" where
  "lfsr_start \<equiv> [True, False, False, False, False, False, False, False]"

lemma fips_RC_word: "ir < 24 \<Longrightarrow> fips_RC ir = rc_word (lfsr (7 * ir) lfsr_start)"
  unfolding fips_RC_def rc_word_def
  by (rule foldr_cong [OF refl refl]) (simp only: set_upt atLeastLessThan_iff fips_rc_def
    lfsr_add [symmetric], simp add: add.commute)

lemma iota_table: "map iota_word [0..<24] = rc_words 24 lfsr_start"
  by code_simp

lemma iota_fips:
  assumes "ir < 24"
  shows "iota_word ir = fips_RC ir"
proof -
  have "map iota_word [0..<24] ! ir = iota_word ir" using assms by (subst nth_map_upt) simp_all
  then show ?thesis using assms unfolding iota_table by (simp only: rc_words_nth fips_RC_word)
qed

lemma length_theta [simp]: "length (fips_theta A) = 25"
  by (simp add: fips_theta_def lanes_def Let_def)

lemma length_pi [simp]: "length (fips_pi A) = 25"
  by (simp add: fips_pi_def lanes_def)

lemma length_chi [simp]: "length (fips_chi A) = 25"
  by (simp add: fips_chi_def lanes_def)

lemma length_fips_round [simp]: "length (fips_round A ir) = 25"
  by (simp add: fips_round_def Let_def)

lemma sha3_round_fips: "length A = 25 \<Longrightarrow> ir < 24 \<Longrightarrow> sha3_round ir A = fips_round A ir"
  by (simp add: sha3_round_def fips_round_def theta_fips rho_pi_fips chi_fips iota_fips Let_def)

lemma rounds_fips:
  assumes "length A = 25" "n \<le> 24"
  shows "fold sha3_round [0..<n] A = foldl fips_round A [0..<n] \<and> length (foldl fips_round A [0..<n]) = 25"
  using assms(2)
proof (induction n)
  case 0
  then show ?case using assms(1) by simp
next
  case (Suc n)
  then show ?case by (simp add: sha3_round_fips)
qed

lemma keccak_fips: "length A = 25 \<Longrightarrow> sha3_process_block72 A = keccak_f A"
  and length_keccak [simp]: "length A = 25 \<Longrightarrow> length (keccak_f A) = 25"
  using rounds_fips [of A 24] by (simp_all add: sha3_process_block72_def keccak_f_def NROUNDS_def)

section \<open>The sponge of FIPS 202\<close>

text \<open>A block of at most 200 bytes, extended with zeros, as 25 little-endian lanes.\<close>

definition block_lanes :: "u8 list \<Rightarrow> u64 list" where
  "block_lanes b = map (\<lambda>i. word_le (take 8 (drop (8 * i) (b @ replicate (200 - length b) 0)))) [0..<25]"

definition absorb_block :: "u64 list \<Rightarrow> u8 list \<Rightarrow> u64 list" where
  "absorb_block s b = keccak_f (map2 (XOR) s (block_lanes b))"

text \<open>The suffix 01 of SHA-3 and the padding 10*1, on whole bytes, for a rate of \<open>r\<close> bytes.\<close>

definition sha3_pad :: "nat \<Rightarrow> nat \<Rightarrow> u8 list" where
  "sha3_pad r len =
     (let q = len mod r in if q = r - 1 then [0x86] else 0x06 # replicate (r - 2 - q) 0 @ [0x80])"

definition sha3_digest :: "nat \<Rightarrow> u8 list \<Rightarrow> u8 list" where
  "sha3_digest r m =
     take 64 (concat (map (bytes_le 8)
       (md_fold absorb_block r (replicate 25 0) (m @ sha3_pad r (length m)))))"

subsection \<open>XORing bytes\<close>

lemma length_xor_byte [simp]: "length (xor_byte s pos b) = length s"
  by (simp add: xor_byte_def)

lemma length_xor_bytes [simp]: "length (xor_bytes s pos bs) = length s"
  by (induction s pos bs rule: xor_bytes.induct) simp_all

lemma xor_bytes_append: "xor_bytes s pos (a @ b) = xor_bytes (xor_bytes s pos a) (pos + length a) b"
  by (induction s pos a rule: xor_bytes.induct) simp_all

lemma bit_xor_byte:
  assumes "length s = 25" "pos < 200" "i < 25" "j < 64"
  shows "bit (xor_byte s pos c ! i) j \<longleftrightarrow> bit (s ! i) j \<noteq> (pos = 8 * i + j div 8 \<and> bit c (j mod 8))"
proof (cases "i = pos div 8")
  case True
  have e: "pos = 8 * i + j div 8 \<longleftrightarrow> j div 8 = pos mod 8" 
    unfolding True using mult_div_mod_eq [of 8 pos] by linarith
  have "bit (shl (ucast c :: u64) (8 * (pos mod 8))) j \<longleftrightarrow> 8 * (pos mod 8) \<le> j \<and> bit c (j - 8 * (pos mod 8))"
    using assms(4) by (auto simp: bit_simps)
  also have "\<dots> \<longleftrightarrow> j div 8 = pos mod 8 \<and> bit c (j mod 8)"
  proof
    assume h: "8 * (pos mod 8) \<le> j \<and> bit c (j - 8 * (pos mod 8))"
    then have "j - 8 * (pos mod 8) < 8" by (auto dest: bit_imp_le_length)
    with h have "j div 8 = pos mod 8" by linarith
    with h show "j div 8 = pos mod 8 \<and> bit c (j mod 8)" by (metis minus_mult_div_eq_mod)
  next
    assume "j div 8 = pos mod 8 \<and> bit c (j mod 8)"
    then show "8 * (pos mod 8) \<le> j \<and> bit c (j - 8 * (pos mod 8))"
      by (metis minus_mult_div_eq_mod times_div_less_eq_dividend)
  qed
  finally show ?thesis using True assms e by (simp add: xor_byte_def bit_xor_iff)
next
  case False
  then have "pos \<noteq> 8 * i + j div 8" using assms(4) by linarith
  then show ?thesis using False by (simp add: xor_byte_def)
qed

lemma bit_xor_bytes:
  assumes "length s = 25" "pos + length bs \<le> 200" "i < 25" "j < 64"
  shows "bit (xor_bytes s pos bs ! i) j \<longleftrightarrow>
    bit (s ! i) j \<noteq> (pos \<le> 8 * i + j div 8 \<and> 8 * i + j div 8 < pos + length bs
      \<and> bit (bs ! (8 * i + j div 8 - pos)) (j mod 8))"
  using assms
proof (induction s pos bs rule: xor_bytes.induct)
  case (2 s pos b data)
  let ?k = "8 * i + j div 8"
  have "bit (xor_bytes s pos (b # data) ! i) j \<longleftrightarrow> (bit (s ! i) j \<noteq> (pos = ?k \<and> bit b (j mod 8)))
      \<noteq> (pos + 1 \<le> ?k \<and> ?k < pos + 1 + length data \<and> bit (data ! (?k - (pos + 1))) (j mod 8))"
    using 2 by (simp add: bit_xor_byte)
  then show ?case
    by (cases "pos = ?k") (auto simp: nth_Cons')
qed simp

lemma bit_lane:
  assumes "length l = 200" "i < 25" "j < 64"
  shows "bit (word_le (take 8 (drop (8 * i) l)) :: u64) j \<longleftrightarrow> bit (l ! (8 * i + j div 8)) (j mod 8)"
  using assms by (simp add: bit_word_le)

lemma xor_bytes_lanes:
  assumes "length s = 25" "length b \<le> 200"
  shows "xor_bytes s 0 b = map2 (XOR) s (block_lanes b)"
proof (rule nth_equalityI)
  fix i assume "i < length (xor_bytes s 0 b)"
  then have i: "i < 25" using assms(1) by simp
  have "bit (xor_bytes s 0 b ! i) j = bit (map2 (XOR) s (block_lanes b) ! i) j" if "j < 64" for j
  proof -
    have k: "8 * i + j div 8 < 200" using i that by linarith
    have "bit (word_le (take 8 (drop (8 * i) (b @ replicate (200 - length b) 0))) :: u64) j
        \<longleftrightarrow> bit ((b @ replicate (200 - length b) 0) ! (8 * i + j div 8)) (j mod 8)"
      using that i assms(2) by (intro bit_lane) simp_all
    also have "\<dots> \<longleftrightarrow> 8 * i + j div 8 < length b \<and> bit (b ! (8 * i + j div 8)) (j mod 8)"
      using k by (simp add: nth_append)
    finally show ?thesis
      using bit_xor_bytes [of s 0 b i j] assms i that
      by (simp add: block_lanes_def bit_xor_iff)
  qed
  then show "xor_bytes s 0 b ! i = map2 (XOR) s (block_lanes b) ! i" by (intro bit_word_eqI) simp
qed (use assms in \<open>simp add: block_lanes_def\<close>)

subsection \<open>Absorbing\<close>

definition sponge :: "nat \<Rightarrow> u8 list \<Rightarrow> u64 list" where
  "sponge r m = md_fold absorb_block r (replicate 25 0) m"

lemma length_sponge [simp]: "length (sponge r m) = 25"
  unfolding sponge_def
  by (rule md_fold_sim [where R = "\<lambda>s t. length s = 25" and g = absorb_block])
    (simp_all add: absorb_block_def block_lanes_def)

lemma process_absorbs:
  "length s = 25 \<Longrightarrow> length b \<le> 200 \<Longrightarrow> sha3_process_block72 (xor_bytes s 0 b) = absorb_block s b"
  using keccak_fips [of "xor_bytes s 0 b"] by (simp add: absorb_block_def xor_bytes_lanes [symmetric])

definition queued :: "nat \<Rightarrow> u8 list \<Rightarrow> sha3_ctx \<Rightarrow> nat \<Rightarrow> bool" where
  "queued r m c p \<longleftrightarrow> 0 < r \<and> r \<le> 200 \<and> input_block_bytes c = r \<and> p = length m mod r
     \<and> state c = xor_bytes (sponge r (whole_blocks r m)) 0 (partial_block r m)"

lemma queued_partial:
  assumes "queued r m c p" "p + length d < r"
  shows "queued r (m @ d) (c\<lparr>state := xor_bytes (state c) p d\<rparr>) (p + length d)"
  using assms blocks_append [of r m d] mod_add_small [of "length m" r "length d"]
  by (simp add: queued_def xor_bytes_append)

lemma queued_full:
  assumes "queued r m c p" "p + length d = r"
  shows "queued r (m @ d) (c\<lparr>state := sha3_process_block72 (xor_bytes (state c) p d)\<rparr>) 0"
proof -
  let ?w = "whole_blocks r m" and ?q = "partial_block r m"
  have r: "0 < r" "r \<le> 200" and p: "p = length m mod r"
    and st: "state c = xor_bytes (sponge r ?w) 0 ?q" using assms(1) by (simp_all add: queued_def)
  note B = blocks_append_full [of r m d, OF _ r(1)]
  have l: "length (?q @ d) = r" using assms(2) p by simp
  have "xor_bytes (state c) p d = xor_bytes (sponge r ?w) 0 (?q @ d)"
    by (simp add: st p xor_bytes_append)
  then have "sha3_process_block72 (xor_bytes (state c) p d) = absorb_block (sponge r ?w) (?q @ d)"
    using process_absorbs [of "sponge r ?w" "?q @ d"] l r(2) by simp
  also have "\<dots> = sponge r (?w @ ?q @ d)"
    unfolding sponge_def md_fold_append [OF r(1) whole_blocks_dvd]
    by (rule md_fold_one [OF r(1) l, symmetric])
  finally show ?thesis
    using assms B p mod_add_full [of "length m" r "length d"] by (simp add: queued_def flip: append_assoc)
qed

lemma sha3_loop_queued:
  assumes "queued r m c p" "sha3_loop c p d = (c', p')"
  shows "queued r (m @ d) c' p'"
  using assms
proof (induction "length d" arbitrary: m c p d rule: less_induct)
  case less
  have r: "0 < r" "input_block_bytes c = r" and p: "p < r" using less.prems(1) by (auto simp: queued_def)
  show ?case
  proof (cases "p + length d < r")
    case True
    then have "sha3_loop c p d = (c\<lparr>state := xor_bytes (state c) p d\<rparr>, p + length d)"
      using r by (subst sha3_loop.simps) (simp add: Let_def min_absorb2)
    then show ?thesis using queued_partial [OF less.prems(1) True] less.prems(2) by simp
  next
    case False
    let ?n = "r - p"
    let ?c = "c\<lparr>state := sha3_process_block72 (xor_bytes (state c) p (take ?n d))\<rparr>"
    have n: "min ?n (length d) = ?n" "p + ?n = r" "length (take ?n d) = ?n" using False p by auto
    have "sha3_loop c p d = sha3_loop ?c 0 (drop ?n d)"
      using n r by (subst sha3_loop.simps) (simp add: Let_def)
    moreover have "queued r (m @ take ?n d) ?c 0"
      using queued_full [OF less.prems(1), of "take ?n d"] n by simp
    moreover have "length (drop ?n d) < length d" using False p by simp
    ultimately show ?thesis using less.hyps [of "drop ?n d" "m @ take ?n d" ?c 0] less.prems(2) by simp
  qed
qed

subsection \<open>Padding and output\<close>

lemma xor_byte_0 [simp]: "xor_byte s pos 0 = s"
  by (simp add: xor_byte_def)

lemma xor_bytes_zeros [simp]: "xor_bytes s pos (replicate n 0) = s"
  by (induction n arbitrary: pos) simp_all

lemma xor_byte_twice:
  assumes "pos div 8 < length s"
  shows "xor_byte (xor_byte s pos a) pos b = xor_byte s pos (a XOR b)"
proof -
  have "shl (ucast (a XOR b) :: u64) n = shl (ucast a) n XOR shl (ucast b) n" for n
    by (rule bit_word_eqI) (auto simp: bit_simps)
  then show ?thesis using assms by (simp add: xor_byte_def ac_simps)
qed

lemma xor_pad:
  assumes "length s = 25" "q < r" "r \<le> 200" "q = len mod r"
  shows "xor_byte (xor_byte s q 6) (r - 1) 0x80 = xor_bytes s q (sha3_pad r len)"
proof (cases "q = r - 1")
  case True
  then show ?thesis
    using assms by (simp add: sha3_pad_def Let_def xor_byte_twice)
next
  case False
  then have "Suc (r - 2) = r - 1" "Suc q + (r - 2 - q) = r - 1" using assms(2) by simp_all
  then show ?thesis
    using False assms(4) by (simp add: sha3_pad_def Let_def xor_bytes_append)
qed

lemma length_sha3_pad:
  assumes "0 < r"
  shows "len mod r + length (sha3_pad r len) = r"
proof -
  define q where "q = len mod r"
  have "q < r" using assms by (simp add: q_def)
  then show ?thesis by (auto simp: sha3_pad_def Let_def q_def [symmetric])
qed

lemma sha3_end_digest:
  assumes "queued r m c (bytes_queued c)"
  shows "snd (sha3_end c) = sha3_digest r m"
proof -
  let ?s = "sponge r (whole_blocks r m)" and ?q = "partial_block r m" and ?p = "sha3_pad r (length m)"
  have r: "0 < r" "r \<le> 200" "input_block_bytes c = r" and q: "bytes_queued c = length m mod r"
    and st: "state c = xor_bytes ?s 0 ?q" using assms by (simp_all add: queued_def)
  have l: "length (?q @ ?p) = r" using length_sha3_pad [OF r(1), of "length m"] by simp
  have "xor_byte (xor_byte (state c) (bytes_queued c) 6) (r - 1) 0x80 = xor_bytes ?s 0 (?q @ ?p)"
    using xor_pad [of "state c" "bytes_queued c" r "length m"] r q by (simp add: st xor_bytes_append)
  then have "snd (sha3_end c) = take 64 (concat (map (bytes_le 8) (absorb_block ?s (?q @ ?p))))"
    using process_absorbs [of ?s "?q @ ?p"] l r by (simp add: sha3_end_def Let_def)
  also have "absorb_block ?s (?q @ ?p) = sponge r (whole_blocks r m @ ?q @ ?p)"
    unfolding sponge_def md_fold_append [OF r(1) whole_blocks_dvd]
    by (rule md_fold_one [OF r(1) l, symmetric])
  finally show ?thesis by (simp add: sha3_digest_def sponge_def flip: append_assoc)
qed

section \<open>The streaming interface\<close>

text \<open>\<open>sha3sum\<close> sets the rate after \<open>sha3_begin\<close>; without that it is 72 bytes (SHA3-512).\<close>

definition sha3_begin_rate :: "nat \<Rightarrow> sha3_ctx \<Rightarrow> sha3_ctx" where
  "sha3_begin_rate r ctx = (sha3_begin ctx)\<lparr>input_block_bytes := r\<rparr>"

interpretation sha3: stream_hash "\<lambda>c. 0 < r \<and> r \<le> 200" "sha3_begin_rate r" sha3_hash "\<lambda>c. snd (sha3_end c)"
  "sha3_digest r" "\<lambda>m c. queued r m c (bytes_queued c)" for r
proof unfold_locales
  fix c assume "0 < r \<and> r \<le> 200"
  then show "queued r [] (sha3_begin_rate r c) (bytes_queued (sha3_begin_rate r c))"
    by (simp add: queued_def sha3_begin_rate_def sha3_begin_def sponge_def md_fold_short whole_blocks_def
        partial_block_def)
next
  fix m c and d :: "u8 list"
  assume q: "queued r m c (bytes_queued c)"
  obtain c' p' where l: "sha3_loop c (bytes_queued c) d = (c', p')" by fastforce
  from sha3_loop_queued [OF q l] l show "queued r (m @ d) (sha3_hash c d) (bytes_queued (sha3_hash c d))"
    by (simp add: sha3_hash_def queued_def)
next
  fix m c assume "queued r m c (bytes_queued c)"
  then show "snd (sha3_end c) = sha3_digest r m" by (rule sha3_end_digest)
qed

section \<open>Properties\<close>

text \<open>\<open>sha3_process_block72\<close> is the permutation Keccak-f[1600] of FIPS 202: theta over the doubled
  column array, rho and pi as one in-place walk along the \<open>PI_LANE\<close> cycle, chi row by row, and the
  iota constants packed in a 16-bit table and two bit masks are the standard's step mappings (rotation
  offsets from the walk, round constants from the shift register).\<close>

theorem sha3_permutation_correct:
  assumes "length A = 25"
  shows "sha3_process_block72 A = keccak_f A"
  using assms by (rule keccak_fips)

theorem sha3_permutation_correct_witness:
  "sha3_process_block72 (replicate 25 0x0123456789abcdef) = keccak_f (replicate 25 0x0123456789abcdef)"
  using sha3_permutation_correct [of "replicate 25 0x0123456789abcdef"] by simp



end
