(* ===== verification/Hex.thy ===== *)
theory Hex
  imports Prelude
begin

text \<open>
  Hexadecimal text of \<^verbatim>\<open>libbb/xfuncs.c\<close>: \<open>bin2hex\<close> and \<open>hex2bin\<close>, with the pointer
  the latter returns (or NULL) and the \<^verbatim>\<open>errno\<close> it leaves.
\<close>

section \<open>The code\<close>

definition bb_hexdigits_upcase :: string where
  "bb_hexdigits_upcase = ''0123456789ABCDEF''"

fun bin2hex :: "u8 list \<Rightarrow> string" where
  "bin2hex [] = []"
| "bin2hex (c # cp) =
     char_of (0x20 OR code (bb_hexdigits_upcase ! unat (shr c 4)))
     # char_of (0x20 OR code (bb_hexdigits_upcase ! unat (c AND 0xf)))
     # bin2hex cp"

datatype errno = EOK | EINVAL | ERANGE

text \<open>The digit cascade both halves of the loop body share.\<close>

definition hex_digit :: "char \<Rightarrow> u8 option" where
  "hex_digit c =
     (if isdigit c then Some (of_nat (code c - 48))
      else if 97 \<le> (code c OR 0x20 :: nat) \<and> (code c OR 0x20 :: nat) \<le> 102
      then Some (of_nat ((code c OR 0x20) - (97 - 10)))
      else None)"

text \<open>The bytes stored (\<open>None\<close> when the code returns NULL) and \<^verbatim>\<open>errno\<close>.\<close>

function hex2bin :: "string \<Rightarrow> nat \<Rightarrow> u8 list \<Rightarrow> u8 list option \<times> errno" where
  "hex2bin str count dst =
     (if peek str = NUL \<or> count = 0 then (Some dst, if peek str \<noteq> NUL then ERANGE else EOK)
      else case hex_digit (peek str) of
        None \<Rightarrow> (None, EINVAL)
      | Some hi \<Rightarrow>
          (let str = tl str; val = shl hi 4; c = peek str
           in case (case hex_digit c of
                      Some lo \<Rightarrow> Some (val OR lo)
                    | None \<Rightarrow> if c = CHR '':'' \<or> c = NUL then Some (shr val 4) else None) of
                None \<Rightarrow> (None, EINVAL)
              | Some val \<Rightarrow>
                  (let str = (if c \<noteq> NUL then tl str else str);
                       str = (if peek str = CHR '':'' then tl str else str)
                   in hex2bin str (count - 1) (dst @ [val]))))"
  by pat_completeness auto
termination
  by (relation "measure (\<lambda>(s, n, d). n)") auto

declare hex2bin.simps [simp del]

section \<open>Round trip\<close>

lemma hex_digit_lower:
  assumes "d < 16"
  shows "hex_digit (char_of (0x20 OR code (bb_hexdigits_upcase ! d))) = Some (of_nat d)"
    "char_of (0x20 OR code (bb_hexdigits_upcase ! d)) \<noteq> NUL"
    "char_of (0x20 OR code (bb_hexdigits_upcase ! d)) \<noteq> CHR '':''"
proof -
  let ?ok = "\<lambda>d. hex_digit (char_of (0x20 OR code (bb_hexdigits_upcase ! d))) = Some (of_nat d)
    \<and> char_of (0x20 OR code (bb_hexdigits_upcase ! d)) \<noteq> NUL
    \<and> char_of (0x20 OR code (bb_hexdigits_upcase ! d)) \<noteq> CHR '':''"
  have "list_all ?ok [0..<16]"
    by (simp add: upt_rec hex_digit_def bb_hexdigits_upcase_def isdigit_def,
      simp add: char_of_def)
  then have "\<forall>d. d < 16 \<longrightarrow> ?ok d" by (auto simp only: list_all_iff set_upt atLeastLessThan_iff)
  with assms show "hex_digit (char_of (0x20 OR code (bb_hexdigits_upcase ! d))) = Some (of_nat d)"
    "char_of (0x20 OR code (bb_hexdigits_upcase ! d)) \<noteq> NUL"
    "char_of (0x20 OR code (bb_hexdigits_upcase ! d)) \<noteq> CHR '':''" by blast+
qed

lemma nibbles:
  fixes c :: u8
  shows "unat (shr c 4) < 16" "unat (c AND 0xf) < 16"
    "shl (of_nat (unat (shr c 4))) 4 OR of_nat (unat (c AND 0xf)) = c"
proof -
  show "unat (shr c 4) < 16" using unat_bound [of c] by (simp add: unat_shr)
  have m: "(0xf::u8) = mask 4" by (simp add: mask_numeral)
  have "unat (take_bit 4 c) < 16" by (simp add: take_bit_eq_mod unat_mod)
  then show "unat (c AND 0xf) < 16" unfolding m take_bit_eq_mask .
  show "shl (of_nat (unat (shr c 4))) 4 OR of_nat (unat (c AND 0xf)) = c"
  proof -
    have id: "of_nat (unat w) = w" for w :: u8 by simp
    show ?thesis
      unfolding m take_bit_eq_mask [symmetric] id by (rule bit_word_eqI) (auto simp: bit_simps)
  qed
qed

text \<open>The two digits of a byte, as the loop of \<open>hex2bin\<close> meets them.\<close>

lemma hex_pair:
  fixes c :: u8
  defines "hi \<equiv> char_of (0x20 OR code (bb_hexdigits_upcase ! unat (shr c 4)))"
    and "lo \<equiv> char_of (0x20 OR code (bb_hexdigits_upcase ! unat (c AND 0xf)))"
  shows "hi \<noteq> NUL" "lo \<noteq> NUL" "hex_digit hi = Some (of_nat (unat (shr c 4)))"
    "hex_digit lo = Some (of_nat (unat (c AND 0xf)))"
    "shl (of_nat (unat (shr c 4))) 4 OR of_nat (unat (c AND 0xf)) = c"
proof -
  show "hi \<noteq> NUL" "hex_digit hi = Some (of_nat (unat (shr c 4)))"
    using hex_digit_lower [OF nibbles(1) [of c]] by (simp_all add: hi_def)
  show "lo \<noteq> NUL" "hex_digit lo = Some (of_nat (unat (c AND 0xf)))"
    using hex_digit_lower [OF nibbles(2) [of c]] by (simp_all add: lo_def)
  show "shl (of_nat (unat (shr c 4))) 4 OR of_nat (unat (c AND 0xf)) = c" by (rule nibbles(3))
qed

lemma bin2hex_no_colon: "peek (bin2hex bs) \<noteq> CHR '':''"
  using hex_digit_lower(3) [OF nibbles(1)] by (cases bs) simp_all

section \<open>Properties\<close>

text \<open>\<open>hex2bin\<close> reads back what \<open>bin2hex\<close> wrote: all the bytes, no error, whenever the destination
  has room for them; with less room it fills the destination and reports \<^verbatim>\<open>ERANGE\<close>.\<close>

theorem hex_roundtrip:
  "hex2bin (bin2hex bs) n [] = (Some (take n bs), if length bs \<le> n then EOK else ERANGE)"
proof -
  have "hex2bin (bin2hex bs) n dst = (Some (dst @ take n bs), if length bs \<le> n then EOK else ERANGE)" for dst
  proof (induction bs arbitrary: n dst)
    case Nil
    then show ?case by (subst hex2bin.simps) simp
  next
    case (Cons c bs)
    show ?case
      using Cons.IH [of "n - 1" "dst @ [c]"] hex_pair [of c] bin2hex_no_colon [of bs]
      by (subst hex2bin.simps) (cases n; simp add: Let_def)
  qed
  from this [of "[]"] show ?thesis by simp
qed

end
