(* ===== verification/Md5_Sha1_Sum.thy ===== *)
theory Md5_Sha1_Sum
  imports Hash_Sha512 Hash_Sha3 Hex
begin

text \<open>
  The applets md5sum, sha1sum, sha256sum, sha512sum and sha3sum: \<^verbatim>\<open>hash_file\<close> of
  \<^verbatim>\<open>coreutils/md5_sha1_sum.c\<close>, which selects the hash functions, feeds them what
  \<^verbatim>\<open>safe_read\<close> returns and prints the digest.  The stack memory the code starts with (the
  union of contexts and \<^verbatim>\<open>in_buf\<close>) is an argument.
\<close>

section \<open>The code\<close>

record union_ctx =
  u_md5 :: md5_ctx
  u_sha512 :: sha512_ctx
  u_sha3 :: sha3_ctx

datatype sum_result = Hex_value string | Open_error | Read_error | Bad_width u32 | Xfunc_die

definition hash_bin_to_hex :: "u8 list \<Rightarrow> nat \<Rightarrow> string" where
  "hash_bin_to_hex hash_value hash_length = bin2hex (take hash_length hash_value)"

text \<open>The reading loop: each positive \<^verbatim>\<open>safe_read\<close> lands at the start of \<^verbatim>\<open>in_buf\<close>.\<close>

fun feed :: "('c \<Rightarrow> u8 list \<Rightarrow> 'c) \<Rightarrow> 'c \<Rightarrow> u8 list \<Rightarrow> u8 list list \<Rightarrow> 'c \<times> u8 list" where
  "feed update context in_buf [] = (context, in_buf)"
| "feed update context in_buf (r # reads) = feed update (update context r) (overwrite in_buf 0 r) reads"

definition hash_stream ::
    "('c \<Rightarrow> u8 list \<Rightarrow> 'c) \<Rightarrow> ('c \<Rightarrow> 'c \<times> u8 list) \<Rightarrow> 'c \<Rightarrow> nat \<Rightarrow> u8 list \<Rightarrow> u8 list list \<Rightarrow> bool \<Rightarrow> sum_result" where
  "hash_stream update final context hash_len in_buf reads read_ok =
     (case feed update context in_buf reads of
        (context, in_buf) \<Rightarrow>
          if \<not> read_ok then Read_error
          else Hex_value (hash_bin_to_hex (overwrite in_buf 0 (snd (final context))) hash_len))"

text \<open>The file is what opening and reading it give: \<open>None\<close> when it cannot be opened, else the results
  of the successful reads and whether the last \<^verbatim>\<open>safe_read\<close> returned 0.\<close>

definition hash_file ::
    "char \<Rightarrow> u32 \<Rightarrow> union_ctx \<Rightarrow> u8 list \<Rightarrow> (u8 list list \<times> bool) option \<Rightarrow> sum_result" where
  "hash_file hash_algo sha3_width u in_buf file =
     (case file of None \<Rightarrow> Open_error | Some (reads, read_ok) \<Rightarrow>
      if hash_algo = CHR ''s'' then
        hash_stream md5_hash md5_end (md5_begin (u_md5 u)) 16 in_buf reads read_ok
      else if hash_algo = CHR ''1'' then
        hash_stream md5_hash sha1_end (sha1_begin (u_md5 u)) 20 in_buf reads read_ok
      else if hash_algo = CHR ''2'' then
        hash_stream md5_hash sha1_end (sha256_begin (u_md5 u)) 32 in_buf reads read_ok
      else if hash_algo = CHR ''5'' then
        hash_stream sha512_hash sha512_end (sha512_begin (u_sha512 u)) 64 in_buf reads read_ok
      else if hash_algo = CHR ''3'' then
        (let ctx = sha3_begin (u_sha3 u)
         in if sha3_width \<ge> 1600 div 2 \<or> sha3_width = 0 \<or> sha3_width AND 0x1f \<noteq> 0 then Bad_width sha3_width
            else (let sha3_width = sha3_width div 4;
                      ctx = ctx\<lparr>input_block_bytes := unat (1600 div 8 - sha3_width)\<rparr>;
                      hash_len = unat (sha3_width div 2)
                  in hash_stream sha3_hash sha3_end ctx hash_len in_buf reads read_ok))
      else Xfunc_die)"

section \<open>What the stream loop prints\<close>

definition reads_ok :: "u8 list list \<Rightarrow> bool" where
  "reads_ok reads \<longleftrightarrow> list_all (\<lambda>r. r \<noteq> [] \<and> length r \<le> 4096) reads"

lemma reads_ok_small: "reads_ok reads \<Longrightarrow> list_all (\<lambda>d. length d < 2 ^ 64) reads"
  by (fastforce simp: reads_ok_def list_all_iff)

lemma feed_foldl: "feed update c b reads = (foldl update c reads, foldl (\<lambda>b r. overwrite b 0 r) b reads)"
  by (induction update c b reads rule: feed.induct) simp_all

lemma hash_stream_exact:
  assumes "snd (final (foldl update c reads)) = d" "length d = n"
  shows "hash_stream update final c n b reads True = Hex_value (bin2hex d)"
  using assms by (simp add: hash_stream_def feed_foldl hash_bin_to_hex_def overwrite_def)

lemma length_concat_const: "list_all (\<lambda>x. length x = k) xss \<Longrightarrow> length (concat xss) = k * length xss"
  by (induction xss) simp_all

lemma length_md5_digest: "length (md5_digest m) = 16"
  by (simp add: md5_digest_def split: prod.split)

lemma length_sha1_digest: "length (sha1_digest m) = 20"
  by (simp add: sha1_digest_def split: prod.split)

lemma length_sha256_digest: "length (sha256_digest m) = 32"
proof -
  have "length (md_fold fips_sha256_block 64 h b) = 8" if "length h = 8" for h b
    by (rule md_fold_sim [where R = "\<lambda>s t. length s = 8" and g = fips_sha256_block])
      (auto simp: that fips_sha256_block_def split: prod.split)
  then show ?thesis
    by (simp add: sha256_digest_def length_concat_const [where k = 4] list_all_length)
qed

lemma length_sha512_digest: "length (sha512_digest m) = 64"
proof -
  have "length (md_fold fips_sha512_block 128 h b) = 8" if "length h = 8" for h b
    by (rule md_fold_sim [where R = "\<lambda>s t. length s = 8" and g = fips_sha512_block])
      (auto simp: that fips_sha512_block_def split: prod.split)
  then show ?thesis
    by (simp add: sha512_digest_def length_concat_const [where k = 8] list_all_length)
qed

lemma length_sha3_digest: "length (sha3_digest r m) = 64"
  using length_sponge [of r "m @ sha3_pad r (length m)"]
  by (simp add: sha3_digest_def sponge_def length_concat_const [where k = 8] list_all_length)

section \<open>The width option of sha3sum\<close>

lemma sha3_width_arith:
  fixes w :: u32
  assumes "unat w = n" "n < 800" "32 dvd n"
  shows "w \<ge> 1600 div 2 \<longleftrightarrow> False" "w AND 0x1f = 0"
    "unat (1600 div 8 - w div 4) = 200 - n div 4" "unat (w div 4 div 2) = n div 8"
proof -
  show "w \<ge> 1600 div 2 \<longleftrightarrow> False" using assms by (simp add: word_le_nat_alt)
  have "(0x1f::u32) = mask 5" by (simp add: mask_numeral)
  then have "w AND 0x1f = take_bit 5 w" by (simp only: take_bit_eq_mask)
  also have "unat (take_bit 5 w) = take_bit 5 n" using assms(1) by (simp only: unsigned_take_bit_eq)
  then have "unat (take_bit 5 w) = 0" using assms(3) by (simp add: take_bit_eq_mod)
  then have "take_bit 5 w = 0" by (simp only: unat_eq_zero)
  finally show "w AND 0x1f = 0" .
  have d: "unat (w div 4) = n div 4" using assms by (simp add: unat_div)
  then have "unat (w div 4) \<le> unat (200::u32)" using assms(2) by simp
  from unat_sub_small [OF this] d show "unat (1600 div 8 - w div 4) = 200 - n div 4" by simp
  show "unat (w div 4 div 2) = n div 8" using d by (simp add: unat_div div_mult2_eq [symmetric])
qed

text \<open>For every width the check lets through, the digest occupies the first 64 bytes of
  \<^verbatim>\<open>in_buf\<close> and \<open>n div 8\<close> bytes of \<^verbatim>\<open>in_buf\<close> are printed.\<close>

lemma sha3sum_prints:
  assumes "unat w = n" "0 < n" "n < 800" "32 dvd n" "reads_ok reads"
  shows "hash_file (CHR ''3'') w u b (Some (reads, True)) =
    Hex_value (bin2hex (take (n div 8) (sha3_digest (200 - n div 4) (concat reads)
      @ drop 64 (foldl (\<lambda>b r. overwrite b 0 r) b reads))))"
proof -
  have r: "0 < 200 - n div 4" "200 - n div 4 \<le> 200" using assms(3) by simp_all
  have w: "w \<noteq> 0" using assms(1,2) by auto
  have d: "snd (sha3_end (foldl sha3_hash ((sha3_begin (u_sha3 u))\<lparr>input_block_bytes := 200 - n div 4\<rparr>) reads))
      = sha3_digest (200 - n div 4) (concat reads)"
    using sha3.digest_of_chunks [of "200 - n div 4" reads "u_sha3 u"] r reads_ok_small [OF assms(5)]
    by (simp add: sha3_begin_rate_def)
  show ?thesis
    using w
    unfolding hash_file_def Let_def sha3_width_arith [OF assms(1,3,4)]
    by (simp add: hash_stream_def feed_foldl d hash_bin_to_hex_def overwrite_def length_sha3_digest)
qed

section \<open>Properties\<close>

text \<open>C17. md5sum, sha1sum, sha256sum and sha512sum print the standard digest of the file in
  hexadecimal, however \<^verbatim>\<open>read\<close> cuts the file and whatever the stack held before.\<close>

theorem hash_file_correct:
  assumes "reads_ok reads" "ctx_ok (u_md5 u)" "ctx512_ok (u_sha512 u)"
  shows "hash_file (CHR ''s'') w u b (Some (reads, True)) = Hex_value (bin2hex (md5_digest (concat reads)))
    \<and> hash_file (CHR ''1'') w u b (Some (reads, True)) = Hex_value (bin2hex (sha1_digest (concat reads)))
    \<and> hash_file (CHR ''2'') w u b (Some (reads, True)) = Hex_value (bin2hex (sha256_digest (concat reads)))
    \<and> hash_file (CHR ''5'') w u b (Some (reads, True)) = Hex_value (bin2hex (sha512_digest (concat reads)))"
  unfolding hash_file_def
  using md5.digest_of_chunks [OF assms(2)] sha1.digest_of_chunks [OF assms(2)]
    sha256.digest_of_chunks [OF assms(2)] sha512.digest_of_chunks [OF assms(3)] reads_ok_small [OF assms(1)]
  by (simp add: hash_stream_exact length_md5_digest length_sha1_digest length_sha256_digest
      length_sha512_digest)

definition stack_union :: union_ctx where
  "stack_union = \<lparr>u_md5 = scratch_ctx, u_sha512 = scratch_ctx512,
     u_sha3 = \<lparr>state = replicate 25 1, bytes_queued = 2, input_block_bytes = 3\<rparr>\<rparr>"

theorem hash_file_correct_witness:
  "hash_file (CHR ''s'') 0 stack_union (replicate 4096 7) (Some ([replicate 4096 1, [2, 3]], True))
     = Hex_value (bin2hex (md5_digest (replicate 4096 1 @ [2, 3])))"
  using hash_file_correct [of "[replicate 4096 1, [2, 3]]" stack_union 0 "replicate 4096 7"]
  by (simp add: stack_union_def reads_ok_def scratch_ctx512_def ctx512_ok_def)

text \<open>sha3sum with a width of up to 512 bits (a multiple of 32) prints the first \<open>n div 8\<close> bytes of
  the FIPS 202 sponge at rate \<open>200 - n div 4\<close>: SHA3-224, -256, -384 and -512 among them.\<close>

theorem sha3sum_correct:
  assumes "0 < n" "n \<le> 512" "32 dvd n" "reads_ok reads"
  shows "hash_file (CHR ''3'') (of_nat n) u b (Some (reads, True)) =
    Hex_value (bin2hex (take (n div 8) (sha3_digest (200 - n div 4) (concat reads))))"
proof -
  have "n mod 4294967296 = n" using assms(2) by simp
  then have "unat (of_nat n :: u32) = n" by (simp add: unsigned_of_nat take_bit_eq_mod)
  from sha3sum_prints [OF this assms(1) _ assms(3,4)] assms(2) show ?thesis
    by (simp add: length_sha3_digest)
qed

theorem sha3sum_correct_witness:
  "hash_file (CHR ''3'') 224 stack_union (replicate 4096 7) (Some ([[2, 3]], True))
     = Hex_value (bin2hex (take 28 (sha3_digest 144 [2, 3])))"
  using sha3sum_correct [of 224 "[[2, 3]]" stack_union "replicate 4096 7"] by (simp add: reads_ok_def)



end
