(* ===== verification/Base64.thy ===== *)
theory Base64
  imports Prelude
begin

text \<open>
  \<^verbatim>\<open>libbb/uuencode.c\<close>: the encoder \<open>bb_uuencode\<close> for both alphabets, the string decoder
  \<open>decode_base64\<close>, and the stream decoder \<open>read_base64\<close> with its 64-byte line buffer.  A C string is
  its characters before the NUL; the stream decoder may run forever, so its loop is a partial
  function whose value \<open>None\<close> is not returning.
\<close>

section \<open>Encoding\<close>

definition bb_uuenc_tbl_base64 :: string where
  "bb_uuenc_tbl_base64 = ''ABCDEFGHIJKLMNOPQRSTUVWXYZabcdefghijklmnopqrstuvwxyz0123456789+/=''"

definition bb_uuenc_tbl_std :: string where
  "bb_uuenc_tbl_std =
     CHR 0x60 # ''!'' @ [CHR 0x22] @ ''#$%&'' @ [CHR 0x27]
     @ ''()*+,-./0123456789:;<=>?@ABCDEFGHIJKLMNOPQRSTUVWXYZ['' @ [CHR 0x5C] @ '']^_'' @ [CHR 0x60]"

text \<open>The loop: the characters stored so far and what is left of \<^verbatim>\<open>length\<close> (0, -1 or -2 at the
  end).\<close>

function uuenc_loop :: "string \<Rightarrow> u8 list \<Rightarrow> int \<Rightarrow> string \<Rightarrow> string \<times> int" where
  "uuenc_loop tbl s len p =
     (if len > 0 then
        (let len = len - 3;
             s1 = (if len \<ge> - 1 then s ! 1 else 0);
             s2 = (if len \<ge> - 1 \<and> len \<ge> 0 then s ! 2 else 0)
         in uuenc_loop tbl (drop 3 s) len
              (p @ [tbl ! unat (shr (s ! 0) 2),
                    tbl ! unat (shl (s ! 0 AND 3) 4 + shr s1 4),
                    tbl ! unat (shl (s1 AND 0xf) 2 + shr s2 6),
                    tbl ! unat (s2 AND 0x3f)]))
      else (p, len))"
  by pat_completeness auto
termination
  by (relation "measure (\<lambda>(tbl, s, len, p). nat len)") auto

declare uuenc_loop.simps [simp del]

definition bb_uuencode :: "u8 list \<Rightarrow> string \<Rightarrow> string" where
  "bb_uuencode src tbl =
     (case uuenc_loop tbl src (int (length src)) [] of
        (p, len) \<Rightarrow> take (length p - nat (- len)) p @ replicate (nat (- len)) (tbl ! 64))"

section \<open>Decoding a string\<close>

text \<open>\<open>strchr(tbl, ch) - tbl\<close>.\<close>

fun strchr_index :: "string \<Rightarrow> char \<Rightarrow> nat option" where
  "strchr_index [] ch = None"
| "strchr_index (c # tbl) ch = (if c = ch then Some 0 else map_option Suc (strchr_index tbl ch))"

abbreviation b64 :: "char \<Rightarrow> nat option" where
  "b64 ch \<equiv> strchr_index bb_uuenc_tbl_base64 ch"

text \<open>Fetching up to four 6-bit values: the values and the rest of the source, or the NUL was met
  with \<open>n\<close> values in hand.\<close>

datatype fetched = Values "u8 list" string | Nul_met nat

fun fetch6 :: "u8 list \<Rightarrow> string \<Rightarrow> fetched" where
  "fetch6 six_bit src =
     (if length six_bit \<ge> 4 then Values six_bit src
      else case src of
        [] \<Rightarrow> Nul_met (length six_bit)
      | ch # src \<Rightarrow>
          (case b64 ch of
             None \<Rightarrow> fetch6 six_bit src
           | Some i \<Rightarrow> if i = 64 then Values six_bit src else fetch6 (six_bit @ [of_nat i]) src))"

declare fetch6.simps [simp del]

definition emit8 :: "u8 list \<Rightarrow> u8 list" where
  "emit8 six =
     (if length six > 1 then [shl (six ! 0) 2 OR shr (six ! 1) 4] else [])
     @ (if length six > 2 then [shl (six ! 1) 4 OR shr (six ! 2) 2] else [])
     @ (if length six > 3 then [shl (six ! 2) 6 OR six ! 3] else [])"

lemma fetch6_unfold:
  "4 \<le> length six \<Longrightarrow> fetch6 six s = Values six s"
  "length six < 4 \<Longrightarrow> fetch6 six [] = Nul_met (length six)"
  "length six < 4 \<Longrightarrow> fetch6 six (c # s) =
     (case b64 c of None \<Rightarrow> fetch6 six s
      | Some i \<Rightarrow> if i = 64 then Values six s else fetch6 (six @ [of_nat i]) s)"
  by (simp_all add: fetch6.simps [of six s] fetch6.simps [of six "[]"] fetch6.simps [of six "c # s"])

lemma fetch6_rest: "fetch6 six s = Values six' rest \<Longrightarrow> length rest \<le> length s"
proof (induction s arbitrary: six)
  case Nil
  then show ?case by (cases "length six < 4") (simp_all add: fetch6_unfold)
next
  case (Cons c s)
  then show ?case
    by (cases "length six < 4") (fastforce simp: fetch6_unfold split: option.splits if_splits)+
qed

lemma fetch6_shorter:
  assumes "fetch6 six src = Values six' rest" "length six < 4"
  shows "length rest < length src"
proof (cases src)
  case Nil
  then show ?thesis using assms by (simp add: fetch6_unfold)
next
  case (Cons c s)
  then show ?thesis
    using assms fetch6_rest [of _ s six' rest] by (auto simp: fetch6_unfold le_imp_less_Suc split: option.splits if_splits)
qed

text \<open>The bytes written and the undecoded rest of the source.\<close>

function decode_base64 :: "u8 list \<Rightarrow> string \<Rightarrow> u8 list \<times> string" where
  "decode_base64 dst src =
     (case fetch6 [] src of
        Nul_met count \<Rightarrow> (dst, if count = 0 then [] else src)
      | Values six_bit rest \<Rightarrow> decode_base64 (dst @ emit8 six_bit) rest)"
  by pat_completeness auto
termination
  by (relation "measure (\<lambda>(dst, src). length src)") (auto dest: fetch6_shorter)

declare decode_base64.simps [simp del]

section \<open>Decoding a stream\<close>

text \<open>One run of the inner loop of \<^verbatim>\<open>read_base64\<close>: characters go to \<^verbatim>\<open>in_buf\<close> until it is
  full or a terminator, the end of the stream (\<open>EOF\<close> is -1) or a control character or space stops it.
  \<open>Return\<close> is the early return.\<close>

datatype filled = Return | Line string string bool

fun fill_line :: "int \<Rightarrow> string \<Rightarrow> string \<Rightarrow> filled" where
  "fill_line exit_char in_buf stream =
     (if length in_buf \<ge> 64 then Line in_buf stream False
      else case stream of
        [] \<Rightarrow> if exit_char = - 1 \<and> in_buf = [] then Return else Line in_buf [] True
      | c # stream \<Rightarrow>
          (let ch = int (code c)
           in if ch = exit_char then (if in_buf = [] then Return else Line in_buf stream True)
              else if ch \<le> 32 then Line in_buf stream False
              else fill_line exit_char (in_buf @ [c]) stream))"

declare fill_line.simps [simp del]

datatype rb_status = Returned | Truncated

partial_function (option) read_base64_loop ::
    "int \<Rightarrow> bool \<Rightarrow> string \<Rightarrow> string \<Rightarrow> u8 list \<Rightarrow> (u8 list \<times> rb_status) option" where
  "read_base64_loop exit_char uu_style_end in_buf stream out =
     (case fill_line exit_char in_buf stream of
        Return \<Rightarrow> Some (out, Returned)
      | Line in_buf stream term_seen \<Rightarrow>
          if uu_style_end \<and> in_buf = ''===='' then Some (out, Returned)
          else (case decode_base64 [] in_buf of
            (out_buf, in_tail) \<Rightarrow>
              if term_seen then Some (out @ out_buf, if in_tail = [] then Returned else Truncated)
              else read_base64_loop exit_char uu_style_end in_tail stream (out @ out_buf)))"

definition read_base64 :: "int \<Rightarrow> bool \<Rightarrow> string \<Rightarrow> (u8 list \<times> rb_status) option" where
  "read_base64 exit_char uu_style_end stream = read_base64_loop exit_char uu_style_end [] stream []"

section \<open>Decoding undoes encoding\<close>

text \<open>The encoder by groups of three.\<close>

fun enc3 :: "string \<Rightarrow> u8 list \<Rightarrow> string" where
  "enc3 tbl (a # b # c # s) =
     [tbl ! unat (shr a 2), tbl ! unat (shl (a AND 3) 4 + shr b 4),
      tbl ! unat (shl (b AND 0xf) 2 + shr c 6), tbl ! unat (c AND 0x3f)] @ enc3 tbl s"
| "enc3 tbl [a, b] =
     [tbl ! unat (shr a 2), tbl ! unat (shl (a AND 3) 4 + shr b 4), tbl ! unat (shl (b AND 0xf) 2), tbl ! 64]"
| "enc3 tbl [a] = [tbl ! unat (shr a 2), tbl ! unat (shl (a AND 3) 4), tbl ! 64, tbl ! 64]"
| "enc3 tbl [] = []"

lemma induct_list3 [case_names step two one nil]:
  assumes "\<And>a b c s. P s \<Longrightarrow> P (a # b # c # s)" "\<And>a b. P [a, b]" "\<And>a. P [a]" "P []"
  shows "P (s :: u8 list)"
  using assms by (induction "[] :: string" s rule: enc3.induct) auto

lemma uuenc_loop_enc3:
  "(case uuenc_loop tbl s (int (length s)) p of
      (p, len) \<Rightarrow> take (length p - nat (- len)) p @ replicate (nat (- len)) (tbl ! 64)) = p @ enc3 tbl s"
proof (induction tbl s arbitrary: p rule: enc3.induct)
  case (1 tbl a b c s)
  then show ?case by (subst uuenc_loop.simps) (simp add: Let_def)
next
  case (2 tbl a b)
  then show ?case
    by (subst uuenc_loop.simps, subst uuenc_loop.simps) (simp add: Let_def)
next
  case (3 tbl a)
  then show ?case
    by (subst uuenc_loop.simps, subst uuenc_loop.simps) (simp add: Let_def eval_nat_numeral)
next
  case (4 tbl)
  then show ?case by (subst uuenc_loop.simps) simp
qed

lemma bb_uuencode_enc3: "bb_uuencode s tbl = enc3 tbl s"
  using uuenc_loop_enc3 [of tbl s "[]"] by (simp add: bb_uuencode_def)

lemma strchr_index_nth: "distinct tbl \<Longrightarrow> i < length tbl \<Longrightarrow> strchr_index tbl (tbl ! i) = Some i"
proof (induction tbl arbitrary: i)
  case (Cons c tbl)
  then show ?case by (cases i) auto
qed simp

lemma b64_nth: "i < 65 \<Longrightarrow> b64 (bb_uuenc_tbl_base64 ! i) = Some i"
  by (rule strchr_index_nth) (simp_all add: bb_uuenc_tbl_base64_def)

lemma fetch6_step:
  assumes "length six < 4" "i < 64"
  shows "fetch6 six (bb_uuenc_tbl_base64 ! i # src) = fetch6 (six @ [of_nat i]) src"
  using assms b64_nth [of i] by (simp add: fetch6_unfold)

lemma fetch6_pad: "length six < 4 \<Longrightarrow> fetch6 six (bb_uuenc_tbl_base64 ! 64 # src) = Values six src"
  using b64_nth [of 64] by (simp add: fetch6_unfold)

text \<open>The decoder as a function of its source alone.\<close>

lemma decode_base64_dst: "decode_base64 dst src = (dst @ fst (decode_base64 [] src), snd (decode_base64 [] src))"
proof (induction "length src" arbitrary: dst src rule: less_induct)
  case less
  show ?case
  proof (cases "fetch6 [] src")
    case (Values six rest)
    then have "length rest < length src" by (auto dest: fetch6_shorter)
    note ih = less [OF this]
    have "decode_base64 d src = decode_base64 (d @ emit8 six) rest" for d
      using Values by (subst decode_base64.simps) simp
    then show ?thesis using ih [of "dst @ emit8 six"] ih [of "emit8 six"] by simp
  next
    case (Nul_met n)
    then show ?thesis by (simp add: decode_base64.simps [of _ src])
  qed
qed

abbreviation decode :: "string \<Rightarrow> u8 list \<times> string" where
  "decode src \<equiv> decode_base64 [] src"

lemma decode_Values:
  "fetch6 [] src = Values six rest \<Longrightarrow> decode src = (emit8 six @ fst (decode rest), snd (decode rest))"
  by (subst decode_base64.simps) (simp add: decode_base64_dst [of "emit8 six" rest])

lemma decode_Nul: "fetch6 [] src = Nul_met n \<Longrightarrow> decode src = ([], if n = 0 then [] else src)"
  by (subst decode_base64.simps) simp

lemma decode_Nil [simp]: "decode [] = ([], [])"
proof -
  have "fetch6 [] [] = Nul_met 0" by (subst fetch6.simps) simp
  from decode_Nul [OF this] show ?thesis by simp
qed

lemma decode_quad:
  assumes "i < 64" "j < 64" "k < 64" "l < 64"
  shows "decode (bb_uuenc_tbl_base64 ! i # bb_uuenc_tbl_base64 ! j # bb_uuenc_tbl_base64 ! k
      # bb_uuenc_tbl_base64 ! l # src)
    = (emit8 [of_nat i, of_nat j, of_nat k, of_nat l] @ fst (decode src), snd (decode src))"
  by (rule decode_Values) (simp add: fetch6_step fetch6_unfold(1) assms)

lemma decode_pad: "decode (bb_uuenc_tbl_base64 ! 64 # src) = decode src"
  using decode_Values [of "bb_uuenc_tbl_base64 ! 64 # src" "[]" src] by (simp add: fetch6_pad emit8_def)

lemma decode_triple:
  assumes "i < 64" "j < 64" "k < 64"
  shows "decode (bb_uuenc_tbl_base64 ! i # bb_uuenc_tbl_base64 ! j # bb_uuenc_tbl_base64 ! k
      # bb_uuenc_tbl_base64 ! 64 # src)
    = (emit8 [of_nat i, of_nat j, of_nat k] @ fst (decode src), snd (decode src))"
  by (rule decode_Values) (simp add: fetch6_step fetch6_pad assms)

lemma decode_pair:
  assumes "i < 64" "j < 64"
  shows "decode (bb_uuenc_tbl_base64 ! i # bb_uuenc_tbl_base64 ! j # bb_uuenc_tbl_base64 ! 64 # src)
    = (emit8 [of_nat i, of_nat j] @ fst (decode src), snd (decode src))"
  by (rule decode_Values) (simp add: fetch6_step fetch6_pad assms)

lemma u8_eqI:
  fixes x y :: u8
  assumes "bit x 0 = bit y 0" "bit x 1 = bit y 1" "bit x 2 = bit y 2" "bit x 3 = bit y 3"
    "bit x 4 = bit y 4" "bit x 5 = bit y 5" "bit x 6 = bit y 6" "bit x 7 = bit y 7"
  shows "x = y"
proof (rule bit_word_eqI)
  fix n assume "n < LENGTH(8)"
  then consider "n = 0" | "n = 1" | "n = 2" | "n = 3" | "n = 4" | "n = 5" | "n = 6" | "n = 7"
    by simp linarith
  then show "bit x n = bit y n" using assms by cases simp_all
qed

lemma six_bits:
  fixes a b c :: u8
  shows "shl (a AND 3) 4 + shr b 4 = shl (a AND 3) 4 OR shr b 4"
    "shl (b AND 0xf) 2 + shr c 6 = shl (b AND 0xf) 2 OR shr c 6"
    "unat (shr a 2) < 64" "unat (shl (a AND 3) 4 OR shr b 4) < 64"
    "unat (shl (b AND 0xf) 2 OR shr c 6) < 64" "unat (c AND 0x3f) < 64"
    "unat (shl (a AND 3) 4) < 64" "unat (shl (b AND 0xf) 2) < 64"
    "shl (shr a 2) 2 OR shr (shl (a AND 3) 4 OR shr b 4) 4 = a"
    "shl (shl (a AND 3) 4 OR shr b 4) 4 OR shr (shl (b AND 0xf) 2 OR shr c 6) 2 = b"
    "shl (shl (b AND 0xf) 2 OR shr c 6) 6 OR (c AND 0x3f) = c"
proof -
  have m: "(3::u8) = mask 2" "(0xf::u8) = mask 4" "(0x3f::u8) = mask 6" by (simp_all add: mask_numeral)
  have lt: "unat x < 64" if "\<And>n. bit x n \<Longrightarrow> n < 6" for x :: u8
  proof -
    have "take_bit 6 x = x" by (rule bit_word_eqI) (auto simp: bit_simps dest: that)
    then have e: "take_bit 6 (unat x) = unat x" by (metis unsigned_take_bit_eq)
    have "take_bit 6 (unat x) < 2 ^ 6" by (rule take_bit_nat_less_exp)
    then show ?thesis unfolding e by simp
  qed
  show "shl (a AND 3) 4 + shr b 4 = shl (a AND 3) 4 OR shr b 4"
    "shl (b AND 0xf) 2 + shr c 6 = shl (b AND 0xf) 2 OR shr c 6"
    unfolding m by (rule disjunctive_add, auto simp: bit_simps dest: bit_imp_le_length)+
  show "unat (shr a 2) < 64" "unat (shl (a AND 3) 4 OR shr b 4) < 64"
    "unat (shl (b AND 0xf) 2 OR shr c 6) < 64" "unat (c AND 0x3f) < 64"
    "unat (shl (a AND 3) 4) < 64" "unat (shl (b AND 0xf) 2) < 64"
    unfolding m by (rule lt, auto simp: bit_simps dest: bit_imp_le_length)+
  show "shl (shr a 2) 2 OR shr (shl (a AND 3) 4 OR shr b 4) 4 = a"
    "shl (shl (a AND 3) 4 OR shr b 4) 4 OR shr (shl (b AND 0xf) 2 OR shr c 6) 2 = b"
    "shl (shl (b AND 0xf) 2 OR shr c 6) 6 OR (c AND 0x3f) = c"
    unfolding m by (rule u8_eqI; simp add: bit_simps)+
qed

lemma emit8_values:
  "emit8 [of_nat (unat p), of_nat (unat q)] = [shl p 2 OR shr q 4]"
  "emit8 [of_nat (unat p), of_nat (unat q), of_nat (unat r)] = [shl p 2 OR shr q 4, shl q 4 OR shr r 2]"
  "emit8 [of_nat (unat p), of_nat (unat q), of_nat (unat r), of_nat (unat s)]
     = [shl p 2 OR shr q 4, shl q 4 OR shr r 2, shl r 6 OR s]"
  by (simp_all add: emit8_def)

lemma decode_enc3: "decode (enc3 bb_uuenc_tbl_base64 s) = (s, [])"
proof (induction s rule: induct_list3)
  case (step a b c s)
  then show ?case
    by (simp only: enc3.simps append.simps six_bits(1,2) decode_quad [OF six_bits(3,4,5,6)] emit8_values
        six_bits(9,10,11) fst_conv snd_conv)
next
  case (two a b)
  have z: "shl (b AND 0xf) 2 = shl (b AND 0xf) 2 OR shr (0::u8) 6" by simp
  show ?case
    unfolding enc3.simps six_bits(1) decode_triple [OF six_bits(3,4,8)] emit8_values
    by (subst z) (simp only: six_bits(9,10) decode_Nil fst_conv snd_conv append.simps)
next
  case (one a)
  have z: "shl (a AND 3) 4 = shl (a AND 3) 4 OR shr (0::u8) 4" by simp
  show ?case
    unfolding enc3.simps decode_pair [OF six_bits(3,7)] emit8_values decode_pad
    by (subst z) (simp only: six_bits(9) decode_Nil fst_conv snd_conv append.simps)
qed simp

section \<open>Decoding piece by piece\<close>

definition encoded :: "string \<Rightarrow> bool" where
  "encoded s \<longleftrightarrow> list_all (\<lambda>c. b64 c \<noteq> None) s"

lemma encoded_simps [simp]:
  "encoded []" "encoded (c # s) \<longleftrightarrow> b64 c \<noteq> None \<and> encoded s" "encoded (s @ t) \<longleftrightarrow> encoded s \<and> encoded t"
  by (simp_all add: encoded_def)

lemma less_65: "(64::nat) < 65"
  by simp

lemma enc3_encoded: "encoded (enc3 bb_uuenc_tbl_base64 s)"
proof (induction s rule: induct_list3)
  case (step a b c s)
  then show ?case
    by (simp only: enc3.simps append.simps encoded_simps six_bits(1,2) b64_nth six_bits(3,4,5,6)
        [THEN less_trans [OF _ less_65]]) simp
next
  case (two a b)
  show ?case
    by (simp only: enc3.simps append.simps encoded_simps six_bits(1,2) b64_nth less_65 six_bits(3,4,8)
        [THEN less_trans [OF _ less_65]]) simp
next
  case (one a)
  show ?case
    by (simp only: enc3.simps append.simps encoded_simps b64_nth less_65 six_bits(3,7)
        [THEN less_trans [OF _ less_65]]) simp
qed simp

lemma fetch6_append: "fetch6 six a = Values six' rest \<Longrightarrow> fetch6 six (a @ b) = Values six' (rest @ b)"
proof (induction a arbitrary: six)
  case Nil
  then show ?case by (cases "length six < 4") (simp_all add: fetch6_unfold)
next
  case (Cons c a)
  then show ?case
    by (cases "length six < 4") (auto simp: fetch6_unfold split: option.splits if_splits)
qed

lemma fetch6_encoded_Nul: "encoded s \<Longrightarrow> fetch6 six s = Nul_met n \<Longrightarrow> n = length six + length s \<and> n < 4"
proof (induction s arbitrary: six)
  case Nil
  then show ?case by (cases "length six < 4") (simp_all add: fetch6_unfold)
next
  case (Cons c s)
  then show ?case
    by (cases "length six < 4") (fastforce simp: fetch6_unfold split: option.splits if_splits)+
qed

lemma fetch6_encoded_rest: "encoded s \<Longrightarrow> fetch6 six s = Values six' rest \<Longrightarrow> encoded rest"
proof (induction s arbitrary: six)
  case Nil
  then show ?case by (cases "length six < 4") (simp_all add: fetch6_unfold)
next
  case (Cons c s)
  then show ?case
    by (cases "length six < 4") (auto simp: fetch6_unfold split: option.splits if_splits)
qed

lemma decode_encoded_tail: "encoded s \<Longrightarrow> encoded (snd (decode s)) \<and> length (snd (decode s)) < 4"
proof (induction "length s" arbitrary: s rule: less_induct)
  case less
  show ?case
  proof (cases "fetch6 [] s")
    case (Values six rest)
    then show ?thesis
      using less fetch6_encoded_rest [OF less.prems Values] fetch6_shorter [OF Values] by (simp add: decode_Values)
  next
    case (Nul_met n)
    then show ?thesis
      using fetch6_encoded_Nul [OF less.prems Nul_met] less.prems by (simp add: decode_Nul)
  qed
qed

text \<open>Decoding a prefix and then its tail with the rest is decoding the whole.\<close>

lemma decode_append:
  "encoded a \<Longrightarrow> decode (a @ b)
    = (fst (decode a) @ fst (decode (snd (decode a) @ b)), snd (decode (snd (decode a) @ b)))"
proof (induction "length a" arbitrary: a rule: less_induct)
  case less
  show ?case
  proof (cases "fetch6 [] a")
    case (Values six rest)
    then show ?thesis
      using less fetch6_encoded_rest [OF less.prems Values] fetch6_shorter [OF Values]
      by (simp add: decode_Values [OF Values] decode_Values [OF fetch6_append [OF Values]])
  next
    case (Nul_met n)
    then show ?thesis
      using fetch6_encoded_Nul [OF less.prems Nul_met] by (auto simp: decode_Nul)
  qed
qed

section \<open>The stream decoder\<close>

abbreviation visible :: "string \<Rightarrow> string" where
  "visible s \<equiv> filter (\<lambda>c. 32 < code c) s"

lemma fill_line_unfold:
  "64 \<le> length buf \<Longrightarrow> fill_line e buf s = Line buf s False"
  "length buf < 64 \<Longrightarrow> fill_line (- 1) buf [] = (if buf = [] then Return else Line buf [] True)"
  "length buf < 64 \<Longrightarrow> fill_line (- 1) buf (c # s) =
     (if code c \<le> (32::nat) then Line buf s False else fill_line (- 1) (buf @ [c]) s)"
  by (simp_all add: fill_line.simps [of e buf s] fill_line.simps [of _ buf "[]"] fill_line.simps [of _ buf "c # s"]
      Let_def)

lemma fill_line_Return: "fill_line (- 1) buf s = Return \<Longrightarrow> buf = [] \<and> s = []"
proof (induction s arbitrary: buf)
  case Nil
  then show ?case by (cases "length buf < 64") (auto simp: fill_line_unfold split: if_splits)
next
  case (Cons c s)
  then show ?case by (cases "length buf < 64") (auto simp: fill_line_unfold split: if_splits)
qed

lemma fill_line_Line:
  "fill_line (- 1) buf s = Line buf' s' t \<Longrightarrow>
     buf' @ visible s' = buf @ visible s \<and> length s' \<le> length s \<and> (t \<longrightarrow> s' = [])"
proof (induction s arbitrary: buf)
  case Nil
  then show ?case by (cases "length buf < 64") (auto simp: fill_line_unfold split: if_splits)
next
  case (Cons c s)
  then show ?case by (cases "length buf < 64") (fastforce simp: fill_line_unfold split: if_splits)+
qed

lemma fill_line_progress:
  assumes "fill_line (- 1) buf s = Line buf' s' False" "length buf < 64"
  shows "length s' < length s"
proof (cases s)
  case Nil
  then show ?thesis using assms by (simp add: fill_line_unfold split: if_splits)
next
  case (Cons c r)
  then show ?thesis
    using assms fill_line_Line [of "buf @ [c]" r buf' s' False] by (auto simp: fill_line_unfold split: if_splits)
qed

text \<open>A stream of alphabet characters cut by control characters and spaces in any way.\<close>

definition clean :: "string \<Rightarrow> bool" where
  "clean s \<longleftrightarrow> encoded (visible s)"

lemma clean_loop:
  assumes "encoded buf" "length buf < 4" "clean s"
  shows "read_base64_loop (- 1) False buf s out =
    Some (out @ fst (decode (buf @ visible s)), if snd (decode (buf @ visible s)) = [] then Returned else Truncated)"
  using assms
proof (induction "length s" arbitrary: buf s out rule: less_induct)
  case less
  show ?case
  proof (cases "fill_line (- 1) buf s")
    case Return
    then show ?thesis using fill_line_Return [OF Return] by (subst read_base64_loop.simps) simp
  next
    case (Line buf' s' t)
    note L = fill_line_Line [OF Line]
    have e: "encoded buf'" "clean s'" "encoded (visible s')"
      using L less.prems by (auto simp: clean_def dest!: arg_cong [of "_ @ _" _ encoded])
    note T = decode_encoded_tail [OF e(1)]
    show ?thesis
    proof (cases t)
      case True
      then show ?thesis
        using L Line by (subst read_base64_loop.simps) (auto split: prod.split)
    next
      case False
      have "length s' < length s" using fill_line_progress [of buf s buf' s'] Line False less.prems(2) by simp
      from less.hyps [OF this, of "snd (decode buf')" "out @ fst (decode buf')"] T e(2)
      have "read_base64_loop (- 1) False buf s out =
        Some ((out @ fst (decode buf')) @ fst (decode (snd (decode buf') @ visible s')),
          if snd (decode (snd (decode buf') @ visible s')) = [] then Returned else Truncated)"
        using Line False by (subst read_base64_loop.simps) (simp add: case_prod_beta)
      moreover have "decode (buf @ visible s) = decode (buf' @ visible s')" using L by simp
      ultimately show ?thesis using decode_append [OF e(1), of "visible s'"] by simp
    qed
  qed
qed

text \<open>A full buffer that decodes to nothing is never left.\<close>

lemma stuck_loop:
  assumes "read_base64_loop e uu buf s out = Some r"
  shows "\<not> (64 \<le> length buf \<and> decode buf = ([], buf) \<and> \<not> uu)"
proof (rule read_base64_loop.raw_induct
    [where P = "\<lambda>e uu buf s out r. \<not> (64 \<le> length buf \<and> decode buf = ([], buf) \<and> \<not> uu)", OF _ assms], rule notI)
  fix loop :: "int \<Rightarrow> bool \<Rightarrow> string \<Rightarrow> string \<Rightarrow> u8 list \<Rightarrow> (u8 list \<times> rb_status) option"
  fix e uu buf s out r
  assume ih: "\<And>e uu buf s out r. loop e uu buf s out = Some r
      \<Longrightarrow> \<not> (64 \<le> length buf \<and> decode buf = ([], buf) \<and> \<not> uu)"
    and eq: "(case fill_line e buf s of
        Return \<Rightarrow> Some (out, Returned)
      | Line in_buf stream term_seen \<Rightarrow>
          if uu \<and> in_buf = ''===='' then Some (out, Returned)
          else (case decode_base64 [] in_buf of
            (out_buf, in_tail) \<Rightarrow>
              if term_seen then Some (out @ out_buf, if in_tail = [] then Returned else Truncated)
              else loop e uu in_tail stream (out @ out_buf))) = Some r"
    and h: "64 \<le> length buf \<and> decode buf = ([], buf) \<and> \<not> uu"
  from eq h have "loop e uu buf s out = Some r" by (simp add: fill_line_unfold(1))
  from ih [OF this] h show False by blast
qed

lemma fill_line_visible:
  "list_all (\<lambda>c. 32 < code c) a \<Longrightarrow> length buf + length a \<le> 64 \<Longrightarrow>
     fill_line (- 1) buf (a @ rest) = fill_line (- 1) (buf @ a) rest"
  by (induction a arbitrary: buf) (simp_all add: fill_line_unfold)

lemma decode_stuck: "decode (''A'' @ replicate n (CHR ''!'')) = ([], ''A'' @ replicate n (CHR ''!''))"
proof -
  have "b64 (CHR ''A'') = Some 0" "b64 (CHR ''!'') = None" by (simp_all add: bb_uuenc_tbl_base64_def)
  moreover have "fetch6 [0] (replicate n (CHR ''!'')) = Nul_met 1" if "b64 (CHR ''!'') = None"
    using that by (induction n) (simp_all add: fetch6_unfold)
  ultimately have "fetch6 [] (''A'' @ replicate n (CHR ''!'')) = Nul_met 1" by (simp add: fetch6_unfold)
  from decode_Nul [OF this] show ?thesis by simp
qed

section \<open>Properties\<close>

text \<open>C23. Decoding what the base64 encoder wrote gives back the bytes and leaves nothing undecoded,
  for every length; the encoder writes \<open>4 * ((n + 2) div 3)\<close> characters, all from the alphabet.\<close>

theorem base64_roundtrip:
  "decode_base64 [] (bb_uuencode bs bb_uuenc_tbl_base64) = (bs, [])
   \<and> length (bb_uuencode bs bb_uuenc_tbl_base64) = 4 * ((length bs + 2) div 3)
   \<and> list_all (\<lambda>c. b64 c \<noteq> None) (bb_uuencode bs bb_uuenc_tbl_base64)"
proof (intro conjI)
  show "decode_base64 [] (bb_uuencode bs bb_uuenc_tbl_base64) = (bs, [])"
    by (simp add: bb_uuencode_enc3 decode_enc3)
  show "length (bb_uuencode bs bb_uuenc_tbl_base64) = 4 * ((length bs + 2) div 3)"
    unfolding bb_uuencode_enc3
  proof (induction bs rule: induct_list3)
    case (step a b c s)
    have "(length (a # b # c # s) + 2) div 3 = Suc ((length s + 2) div 3)"
      using div_add_self2 [of 3 "length s + 2"] by simp
    then show ?case using step by simp
  qed simp_all
  show "list_all (\<lambda>c. b64 c \<noteq> None) (bb_uuencode bs bb_uuenc_tbl_base64)"
    unfolding bb_uuencode_enc3 using enc3_encoded by (simp add: encoded_def)
qed

text \<open>C24. The stream decoder returns on every stream whose characters are base64 characters, line ends
  and spaces, and writes what decoding the characters without the white space gives; so an encoding
  broken into lines anywhere is decoded to the original bytes, and a cut one is reported.\<close>

theorem read_base64_clean:
  assumes "clean s"
  shows "read_base64 (- 1) False s =
    Some (fst (decode_base64 [] (visible s)), if snd (decode_base64 [] (visible s)) = [] then Returned else Truncated)
   \<and> (visible s = bb_uuencode bs bb_uuenc_tbl_base64 \<longrightarrow> read_base64 (- 1) False s = Some (bs, Returned))"
  using clean_loop [of "[]" s "[]"] assms by (simp add: read_base64_def bb_uuencode_enc3 decode_enc3)

theorem read_base64_clean_witness:
  "read_base64 (- 1) False ''aG\<newline>Vsb G8='' = Some ([104, 101, 108, 108, 111], Returned)"
proof -
  have c: "clean ''aG\<newline>Vsb G8=''" by code_simp
  have e: "visible ''aG\<newline>Vsb G8='' = bb_uuencode [104, 101, 108, 108, 111] bb_uuenc_tbl_base64" by code_simp
  show ?thesis using read_base64_clean [OF c] e by blast
qed


end
