(* ===== verification/Crc32.thy ===== *)
theory Crc32
  imports Bytes
begin

text \<open>
  \<^verbatim>\<open>libbb/crc32.c\<close>: the table generator and the two table-driven block functions, and the
  checksum of \<^verbatim>\<open>coreutils/cksum.c\<close>.  The reference is the bit-serial division by the CRC-32
  polynomial, one message bit at a time.
\<close>

section \<open>The code\<close>

definition crc_step :: "bool \<Rightarrow> u32 \<Rightarrow> u32 \<Rightarrow> u32" where
  "crc_step endian polynomial c =
     (if endian then (if c AND 0x80000000 \<noteq> 0 then shl c 1 XOR polynomial else shl c 1)
      else (if c AND 1 \<noteq> 0 then shr c 1 XOR polynomial else shr c 1))"

definition crc_poly :: "bool \<Rightarrow> u32" where
  "crc_poly endian = (if endian then 0x04c11db7 else 0xedb88320)"

definition crc32_filltable :: "bool \<Rightarrow> u32 list" where
  "crc32_filltable endian =
     (let polynomial = crc_poly endian
      in map (\<lambda>i. let c = (if endian then shl (of_nat i) 24 else of_nat i)
                  in (crc_step endian polynomial ^^ 8) c) [0..<256])"

fun crc32_block_endian1 :: "u32 \<Rightarrow> u8 list \<Rightarrow> u32 list \<Rightarrow> u32" where
  "crc32_block_endian1 val [] crc_table = val"
| "crc32_block_endian1 val (b # buf) crc_table =
     crc32_block_endian1 (shl val 8 XOR crc_table ! unat (shr val 24 XOR ucast b)) buf crc_table"

fun crc32_block_endian0 :: "u32 \<Rightarrow> u8 list \<Rightarrow> u32 list \<Rightarrow> u32" where
  "crc32_block_endian0 val [] crc_table = val"
| "crc32_block_endian0 val (b # buf) crc_table =
     crc32_block_endian0 (crc_table ! unat ((ucast val :: u8) XOR b) XOR shr val 8) buf crc_table"

text \<open>The bytes of the file size \<^verbatim>\<open>cksum_main\<close> appends, least significant first.\<close>

function size_bytes :: "u64 \<Rightarrow> u8 list" where
  "size_bytes t = (if t \<noteq> 0 then ucast t # size_bytes (shr t 8) else [])"
  by pat_completeness auto

termination
proof (relation "measure unat")
  fix t :: u64 assume "t \<noteq> 0"
  then have "0 < unat t" by (simp add: unat_gt_0)
  then show "(shr t 8, t) \<in> measure unat" by (simp add: unat_shr)
qed simp

declare size_bytes.simps [simp del]

text \<open>One file: what the reads return, then the size; the checksum and the size printed.\<close>

fun cksum_reads :: "u32 list \<Rightarrow> u32 \<Rightarrow> u64 \<Rightarrow> u8 list list \<Rightarrow> u32 \<times> u64" where
  "cksum_reads crc32_table crc filesize [] =
     (crc32_block_endian1 crc (size_bytes filesize) crc32_table, filesize)"
| "cksum_reads crc32_table crc filesize (r # reads) =
     cksum_reads crc32_table (crc32_block_endian1 crc r crc32_table) (filesize + of_nat (length r)) reads"

definition cksum_file :: "u8 list list \<Rightarrow> u32 \<times> u64" where
  "cksum_file reads =
     (case cksum_reads (crc32_filltable True) 0 0 reads of (crc, filesize) \<Rightarrow> (NOT crc, filesize))"

section \<open>The bit-serial reference\<close>

text \<open>Message bits enter most significant first when \<open>msb_first\<close>, else least significant first; the
  bit shifted out decides whether the polynomial is subtracted.\<close>

definition crc_bit :: "bool \<Rightarrow> bool \<Rightarrow> u32 \<Rightarrow> u32" where
  "crc_bit msb_first b c =
     (if msb_first then (if bit c 31 \<noteq> b then shl c 1 XOR crc_poly True else shl c 1)
      else (if bit c 0 \<noteq> b then shr c 1 XOR crc_poly False else shr c 1))"

definition byte_bits :: "bool \<Rightarrow> u8 \<Rightarrow> bool list" where
  "byte_bits msb_first b = map (bit b) (if msb_first then rev [0..<8] else [0..<8])"

definition crc_serial :: "bool \<Rightarrow> u32 \<Rightarrow> u8 list \<Rightarrow> u32" where
  "crc_serial msb_first c bs = fold (crc_bit msb_first) (concat (map (byte_bits msb_first) bs)) c"

section \<open>One byte at a time\<close>

lemma and_one_bit: "(c::u32) AND 1 \<noteq> 0 \<longleftrightarrow> bit c 0"
  by (simp add: and_one_eq bit_0 odd_iff_mod_2_eq_one)

lemma and_msb_bit: "(c::u32) AND 0x80000000 \<noteq> 0 \<longleftrightarrow> bit c 31"
proof -
  have e: "(0x80000000::u32) = push_bit 31 1" by simp
  have b: "bit (0x80000000::u32) n \<longleftrightarrow> n = 31" for n
    unfolding e by (auto simp only: bit_push_bit_iff bit_1_iff possible_bit_word) simp_all
  show ?thesis
  proof
    assume "c AND 0x80000000 \<noteq> 0"
    then obtain n where "bit (c AND 0x80000000) n" by (auto simp: bit_eq_iff)
    then show "bit c 31" by (auto simp only: bit_and_iff b)
  next
    assume "bit c 31"
    then have "bit (c AND 0x80000000) 31" by (simp only: bit_and_iff b simp_thms)
    then show "c AND 0x80000000 \<noteq> 0" by auto
  qed
qed

lemma crc_step_bit:
  "crc_step True (crc_poly True) c = crc_bit True False c"
  "crc_step False (crc_poly False) c = crc_bit False False c"
  by (simp_all only: crc_step_def crc_bit_def and_one_bit and_msb_bit if_True if_False simp_thms)

lemma crc_bit_xor: "crc_bit m (a \<noteq> b) (c XOR d) = crc_bit m a c XOR crc_bit m b d"
  unfolding crc_bit_def by (rule bit_word_eqI) (auto simp: bit_simps)

text \<open>Feeding a bit is XORing it into the end that is shifted out.\<close>

lemma crc_bit_in:
  "crc_bit True b c = crc_bit True False (c XOR push_bit 31 (of_bool b))"
  "crc_bit False b c = crc_bit False False (c XOR of_bool b)"
  unfolding crc_bit_def by (rule bit_word_eqI, auto simp: bit_simps)+

text \<open>Eight steps on a word shift it out when the bits leaving it are zero.\<close>

lemma crc_bits_zero_le:
  assumes "\<And>i. i < k \<Longrightarrow> \<not> bit c i"
  shows "(crc_bit False False ^^ k) c = shr c k"
  using assms
proof (induction k arbitrary: c)
  case (Suc k)
  have "crc_bit False False c = shr c 1" using Suc.prems [of 0] by (simp only: crc_bit_def) simp
  moreover have "(crc_bit False False ^^ k) (shr c 1) = shr (shr c 1) k"
  proof (rule Suc.IH)
    fix i assume "i < k"
    with Suc.prems [of "Suc i"] show "\<not> bit (shr c 1) i" by (simp only: bit_drop_bit_eq comp_def) simp
  qed
  ultimately show ?case by (simp add: funpow_Suc_right del: funpow.simps)
qed simp

lemma crc_bits_zero_be:
  assumes "\<And>i. i < k \<Longrightarrow> \<not> bit c (31 - i)" "k \<le> 32"
  shows "(crc_bit True False ^^ k) c = shl c k"
  using assms
proof (induction k arbitrary: c)
  case (Suc k)
  have "crc_bit True False c = shl c 1" using Suc.prems(1) [of 0] by (simp only: crc_bit_def) simp
  moreover have "(crc_bit True False ^^ k) (shl c 1) = shl (shl c 1) k"
  proof (rule Suc.IH)
    fix i assume "i < k"
    then have "31 - i - 1 = 31 - Suc i" "Suc i < Suc k" by simp_all
    with Suc.prems(1) [of "Suc i"] show "\<not> bit (shl c 1) (31 - i)" by (simp only: bit_push_bit_iff) simp
  qed (use Suc.prems in simp)
  ultimately show ?case by (simp add: funpow_Suc_right del: funpow.simps)
qed simp

lemma crc_bits_xor: "(crc_bit m False ^^ k) (c XOR d) = (crc_bit m False ^^ k) c XOR (crc_bit m False ^^ k) d"
  using crc_bit_xor [of m False False] by (induction k) simp_all

text \<open>A byte entering bit by bit is the byte XORed into the end of the register, then eight steps.\<close>

lemma shr_shl:
  fixes w :: u32
  assumes "\<And>i. bit w i \<Longrightarrow> i + k < 32"
  shows "shr (shl w k) k = w"
  by (rule bit_word_eqI) (auto simp: bit_simps add.commute dest: assms)

lemma shr_shl_bool: "Suc k \<le> 8 \<Longrightarrow> shr (shl (of_bool P :: u32) k) k = of_bool P"
  by (rule shr_shl) (cases P; auto simp: bit_1_iff)

lemma crc_serial_byte_le: "fold (crc_bit False) (byte_bits False b) c = (crc_bit False False ^^ 8) (c XOR ucast b)"
proof -
  have "fold (crc_bit False) (map (bit b) [0..<k]) c = (crc_bit False False ^^ k) (c XOR ucast (take_bit k b))"
    if "k \<le> 8" for k
    using that
  proof (induction k)
    case (Suc k)
    have "take_bit (Suc k) b = take_bit k b XOR push_bit k (of_bool (bit b k))"
      by (rule bit_word_eqI) (auto simp: bit_simps less_Suc_eq)
    then have u: "(ucast (take_bit (Suc k) b) :: u32) = ucast (take_bit k b) XOR push_bit k (of_bool (bit b k))"
      using Suc.prems by (simp only:) (rule bit_word_eqI, auto simp: bit_simps)
    have "(crc_bit False False ^^ k) (push_bit k (of_bool (bit b k))) = shr (push_bit k (of_bool (bit b k))) k"
      by (rule crc_bits_zero_le) (simp only: bit_push_bit_iff, simp)
    then have "(crc_bit False False ^^ k) (push_bit k (of_bool (bit b k))) = of_bool (bit b k)"
      using Suc.prems by (simp only: shr_shl_bool)
    then show ?case
      using Suc by (simp add: u crc_bits_xor crc_bit_in(2) [of "bit b k"] flip: xor.assoc)
  qed simp
  from this [of 8] show ?thesis by (simp add: byte_bits_def take_bit_word_eq_self)
qed

lemma crc_serial_byte_be:
  "fold (crc_bit True) (byte_bits True b) c = (crc_bit True False ^^ 8) (c XOR shl (ucast b) 24)"
proof -
  let ?h = "\<lambda>k. shl (ucast (shl (shr b (8 - k)) (8 - k)) :: u32) 24"
  have hb: "bit (?h k) n \<longleftrightarrow> 32 - k \<le> n \<and> bit b (n - 24)" if "k \<le> 8" "n < 32" for k n
    using that by (auto simp: bit_simps)
  have "fold (crc_bit True) (map (bit b) (rev [8 - k..<8])) c = (crc_bit True False ^^ k) (c XOR ?h k)"
    if "k \<le> 8" for k
    using that
  proof (induction k)
    case 0
    have "?h 0 = 0" by (rule bit_word_eqI) (auto simp: bit_simps dest: bit_imp_le_length)
    then show ?case by simp
  next
    case (Suc k)
    let ?b = "of_bool (bit b (7 - k)) :: u32"
    have l: "rev [8 - Suc k..<8] = rev [8 - k..<8] @ [7 - k]"
      using Suc.prems upt_conv_Cons [of "7 - k" 8] by (simp add: Suc_diff_le [symmetric])
    have u: "?h (Suc k) = ?h k XOR shl ?b (31 - k)"
    proof (rule bit_word_eqI)
      fix n assume n: "n < LENGTH(32)"
      have "bit (shl ?b (31 - k)) n \<longleftrightarrow> n = 31 - k \<and> bit b (n - 24)"
        using n Suc.prems
        by (cases "n = 31 - k") (simp_all only: bit_push_bit_iff bit_of_bool_iff, auto)
      then show "bit (?h (Suc k)) n \<longleftrightarrow> bit (?h k XOR shl ?b (31 - k)) n"
        using hb [of "Suc k" n] hb [of k n] n Suc.prems by (simp only: bit_xor_iff) auto
    qed
    have z: "(crc_bit True False ^^ k) (shl ?b (31 - k)) = shl (shl ?b (31 - k)) k"
    proof (rule crc_bits_zero_be)
      fix i assume "i < k"
      then show "\<not> bit (shl ?b (31 - k)) (31 - i)"
        using Suc.prems by (simp only: bit_push_bit_iff bit_of_bool_iff) auto
    qed (use Suc.prems in simp)
    also have "\<dots> = shl ?b 31" using Suc.prems by (simp add: push_bit_push_bit)
    finally show ?case
      using Suc unfolding l u
      by (simp add: crc_bits_xor crc_bit_in(1) [of "bit b (7 - k)"] flip: xor.assoc)
  qed
  from this [of 8] show ?thesis by (simp add: byte_bits_def)
qed

section \<open>The table routines\<close>

lemma table_nth:
  "i < 256 \<Longrightarrow> crc32_filltable True ! i = (crc_bit True False ^^ 8) (shl (of_nat i) 24)"
  "i < 256 \<Longrightarrow> crc32_filltable False ! i = (crc_bit False False ^^ 8) (of_nat i)"
proof -
  have s: "crc_step True (crc_poly True) = crc_bit True False" "crc_step False (crc_poly False) = crc_bit False False"
    by (rule ext, rule crc_step_bit)+
  show "i < 256 \<Longrightarrow> crc32_filltable True ! i = (crc_bit True False ^^ 8) (shl (of_nat i) 24)"
    "i < 256 \<Longrightarrow> crc32_filltable False ! i = (crc_bit False False ^^ 8) (of_nat i)"
    by (simp_all only: crc32_filltable_def Let_def s if_True if_False) simp_all
qed

lemma index_small:
  "unat (shr val 24 XOR ucast b :: u32) < 256" "of_nat (unat (shr (val::u32) 24 XOR ucast (b::u8))) = shr val 24 XOR ucast b"
  "unat ((ucast val :: u8) XOR b) < 256"
proof -
  have t: "take_bit 8 (shr val 24 XOR ucast b) = shr val 24 XOR ucast b"
    by (rule bit_word_eqI) (auto simp: bit_simps dest: bit_imp_le_length)
  have "unat (take_bit 8 (shr val 24 XOR ucast b)) < 2 ^ 8"
    by (simp only: unsigned_take_bit_eq take_bit_nat_less_exp)
  then show "unat (shr val 24 XOR ucast b :: u32) < 256" unfolding t by simp
  show "unat ((ucast val :: u8) XOR b) < 256" using unat_bound [of "(ucast val :: u8) XOR b"] by simp
qed simp

lemma block_endian1_byte:
  "shl val 8 XOR crc32_filltable True ! unat (shr val 24 XOR ucast b) = fold (crc_bit True) (byte_bits True b) val"
proof -
  let ?lo = "val AND mask 24"
  have "val XOR shl (ucast b) 24 = shl (shr val 24 XOR ucast b) 24 XOR ?lo"
    by (rule bit_word_eqI) (auto simp: bit_simps)
  moreover have "(crc_bit True False ^^ 8) ?lo = shl ?lo 8"
    by (rule crc_bits_zero_be) (auto simp: bit_simps)
  moreover have "shl ?lo 8 = shl val 8" by (rule bit_word_eqI) (auto simp: bit_simps)
  ultimately show ?thesis
    by (simp only: crc_serial_byte_be crc_bits_xor table_nth(1) index_small) (rule xor.commute)
qed

lemma block_endian0_byte:
  "crc32_filltable False ! unat ((ucast val :: u8) XOR b) XOR shr val 8 = fold (crc_bit False) (byte_bits False b) val"
proof -
  let ?hi = "shl (shr val 8) 8" and ?lo = "of_nat (unat ((ucast val :: u8) XOR b)) :: u32"
  have l: "?lo = ucast ((ucast val :: u8) XOR b)" by simp
  have "val XOR ucast b = ?lo XOR ?hi"
    unfolding l by (rule bit_word_eqI) (auto simp: bit_simps)
  moreover have "(crc_bit False False ^^ 8) ?hi = shr ?hi 8"
    by (rule crc_bits_zero_le) (auto simp: bit_simps)
  moreover have "shr ?hi 8 = shr val 8" by (rule bit_word_eqI) (auto simp: bit_simps dest: bit_imp_le_length)
  ultimately show ?thesis
    by (simp only: crc_serial_byte_le crc_bits_xor table_nth(2) index_small)
qed

lemma block_endian1_serial: "crc32_block_endian1 val buf (crc32_filltable True) = crc_serial True val buf"
  by (induction buf arbitrary: val) (simp_all only: crc32_block_endian1.simps block_endian1_byte crc_serial_def
    list.map concat.simps fold_append fold_simps comp_apply)

lemma block_endian0_serial: "crc32_block_endian0 val buf (crc32_filltable False) = crc_serial False val buf"
  by (induction buf arbitrary: val) (simp_all only: crc32_block_endian0.simps block_endian0_byte crc_serial_def
    list.map concat.simps fold_append fold_simps comp_apply)

lemma crc_serial_append: "crc_serial m c (a @ b) = crc_serial m (crc_serial m c a) b"
  by (simp add: crc_serial_def)

lemma cksum_reads_serial:
  "cksum_reads (crc32_filltable True) crc n reads =
     (crc_serial True crc (concat reads @ size_bytes (n + of_nat (length (concat reads)))),
      n + of_nat (length (concat reads)))"
  by (induction reads arbitrary: crc n) (simp_all add: block_endian1_serial crc_serial_append add.assoc)

section \<open>Properties\<close>

text \<open>The table-driven routines compute the bit-serial CRC-32: \<open>crc32_block_endian1\<close> with the
  big-endian table, most significant message bit first, and \<open>crc32_block_endian0\<close> with the reflected
  table, least significant bit first, from every register value and for every buffer.\<close>

theorem crc32_block_serial:
  "crc32_block_endian1 val buf (crc32_filltable True) = crc_serial True val buf
   \<and> crc32_block_endian0 val buf (crc32_filltable False) = crc_serial False val buf"
  by (simp add: block_endian1_serial block_endian0_serial)


end
