(* ===== verification/Factor.thy ===== *)
theory Factor
  imports Prelude
begin

text \<open>
  \<^verbatim>\<open>libbb/isqrt.c\<close> and \<^verbatim>\<open>coreutils/factor.c\<close>: the bit-by-bit integer
  square root and the trial division with its packed 3-5-7 sieve word.  The square root is
  shown exact on the whole 64-bit range; the factoriser is shown to return, and to print a
  sorted list of primes whose product is the argument.
\<close>

section \<open>Integer square root\<close>

text \<open>One round per two bits of \<open>N\<close>; the \<^verbatim>\<open>do ... while\<close> stops when
  \<open>shift - 2\<close> would be negative.\<close>

fun isqrt_loop :: "u64 \<Rightarrow> nat \<Rightarrow> u64 \<Rightarrow> u64" where
  "isqrt_loop N shift x =
     (let x1 = shl x 1 + 1;
          x2 = (if x1 * x1 > shr N shift then x1 - 1 else x1)
      in if shift < 2 then x2 else isqrt_loop N (shift - 2) x2)"

declare isqrt_loop.simps [simp del]

definition isqrt :: "u64 \<Rightarrow> u64" where
  "isqrt N = isqrt_loop N 62 0"

text \<open>\<open>is_root r n\<close>: \<open>r\<close> is the integer part of the square root of \<open>n\<close>.\<close>

definition is_root :: "nat \<Rightarrow> nat \<Rightarrow> bool" where
  "is_root r n \<longleftrightarrow> r * r \<le> n \<and> n < Suc r * Suc r"

lemma is_root_bound: "is_root r n \<Longrightarrow> n < m * m \<Longrightarrow> r < m"
  unfolding is_root_def by (meson le_less_trans linorder_not_less mult_le_mono)

lemma is_root_step:
  assumes "is_root x (n div 4)"
  shows "is_root (if (2 * x + 1) * (2 * x + 1) > n then 2 * x else 2 * x + 1) n"
proof -
  have lo: "x * x \<le> n div 4" and hi: "n div 4 < Suc x * Suc x"
    using assms by (auto simp: is_root_def)
  have "4 * (x * x) \<le> n" using lo by linarith
  moreover have "n < 4 * (Suc x * Suc x)" using hi by linarith
  ultimately show ?thesis by (auto simp: is_root_def algebra_simps)
qed

lemma isqrt_round:
  fixes N x :: u64
  assumes root: "is_root (unat x) (unat N div 2 ^ (s + 2))"
    and s: "s \<le> 62"
  defines "x1 \<equiv> shl x 1 + 1"
  shows "is_root (unat (if x1 * x1 > shr N s then x1 - 1 else x1)) (unat N div 2 ^ s)"
proof -
  have "unat N div 2 ^ (s + 2) < 2 ^ 62"
  proof (rule less_mult_imp_div_less)
    have "(2::nat) ^ 64 \<le> 2 ^ 62 * 2 ^ (s + 2)"
      by (simp only: power_add [symmetric]) (rule power_increasing, auto)
    moreover have "unat N < 2 ^ 64"
      using unat_bound [of N] by simp
    ultimately show "unat N < 2 ^ 62 * 2 ^ (s + 2)"
      by (rule order.strict_trans2 [rotated])
  qed
  then have x: "unat x < 2 ^ 31"
    by (intro is_root_bound [OF root]) simp
  then have x1: "unat x1 = 2 * unat x + 1"
    unfolding x1_def by (simp add: unat_shl unat_word_ariths)
  have "unat x1 * unat x1 < 2 ^ 32 * 2 ^ 32"
    using x x1 by (intro mult_strict_mono) auto
  then have sq: "unat (x1 * x1) = unat x1 * unat x1"
    by (intro unat_mult_small) simp
  have dec: "unat (x1 - 1) = 2 * unat x"
    using x1 by (subst unat_sub_small) auto
  have "is_root (unat x) ((unat N div 2 ^ s) div 4)"
    using root by (simp add: div_mult2_eq [symmetric] power_add mult.commute)
  from is_root_step [OF this] show ?thesis
    by (auto simp: word_less_nat_alt unat_shr sq x1 dec split: if_splits)
qed

lemma isqrt_loop_root:
  assumes "is_root (unat x) (unat N div 2 ^ (s + 2))" "s \<le> 62" "even s"
  shows "is_root (unat (isqrt_loop N s x)) (unat N)"
  using assms
proof (induction N s x rule: isqrt_loop.induct)
  case (1 N s x)
  let ?x = "if (shl x 1 + 1) * (shl x 1 + 1) > shr N s then shl x 1 + 1 - 1 else shl x 1 + 1"
  note step = isqrt_round [OF "1.prems"(1,2)]
  have unfold: "isqrt_loop N s x = (if s < 2 then ?x else isqrt_loop N (s - 2) ?x)"
    by (subst isqrt_loop.simps) (simp only: Let_def)
  show ?case
  proof (cases "s < 2")
    case True
    with \<open>even s\<close> have "s = 0" by (cases s) (auto simp: less_Suc_eq numeral_2_eq_2)
    then have "isqrt_loop N s x = ?x" using unfold by (simp only: if_True zero_less_numeral)
    with step \<open>s = 0\<close> show ?thesis by (simp only: power_0 div_by_1)
  next
    case False
    with "1.prems" have s: "s - 2 \<le> 62" "even (s - 2)" "s - 2 + 2 = s" by auto
    have "is_root (unat (isqrt_loop N (s - 2) ?x)) (unat N)"
      by (rule "1.IH" [OF refl refl False]) (use step s in \<open>simp_all only:\<close>)
    then show ?thesis using False unfold by (simp only: if_False)
  qed
qed

lemma isqrt_root: "is_root (unat (isqrt N)) (unat N)"
proof -
  have "is_root (unat (0::u64)) (unat N div 2 ^ (62 + 2))"
    using unat_bound [of N] by (simp add: is_root_def)
  from isqrt_loop_root [OF this] show ?thesis
    by (simp add: isqrt_def)
qed

text \<open>\<^verbatim>\<open>isqrt\<close> returns the exact integer square root for every 64-bit argument: no
  intermediate square overflows.\<close>

theorem isqrt_correct:
  "unat (isqrt N) * unat (isqrt N) \<le> unat N \<and> unat N < Suc (unat (isqrt N)) * Suc (unat (isqrt N))"
  using isqrt_root [of N] by (simp add: is_root_def)

section \<open>Factorisation\<close>

subsection \<open>The program\<close>

text \<open>\<open>half_t\<close> is \<^verbatim>\<open>unsigned\<close>, half as wide as \<^verbatim>\<open>unsigned long long\<close>.\<close>

definition isqrt_odd :: "u64 \<Rightarrow> u32" where
  "isqrt_odd N = (let s = ucast (isqrt N) in (s - 1) OR 1)"

definition SHIFT_3 :: u32 where "SHIFT_3 = 1"
definition SHIFT_5 :: u32 where "SHIFT_5 = 8"
definition SHIFT_7 :: u32 where "SHIFT_7 = 128"
definition INCREMENT_EACH :: u32 where "INCREMENT_EACH = SHIFT_3 OR SHIFT_5 OR SHIFT_7"
definition MULTIPLE_OF_3 :: u32 where "MULTIPLE_OF_3 = 4"
definition MULTIPLE_OF_5 :: u32 where "MULTIPLE_OF_5 = 64"
definition MULTIPLE_OF_7 :: u32 where "MULTIPLE_OF_7 = 2048"
definition MULTIPLE_DETECTED :: u32 where
  "MULTIPLE_DETECTED = MULTIPLE_OF_3 OR MULTIPLE_OF_5 OR MULTIPLE_OF_7"

lemmas sieve_defs = SHIFT_3_def SHIFT_5_def SHIFT_7_def INCREMENT_EACH_def MULTIPLE_OF_3_def
  MULTIPLE_OF_5_def MULTIPLE_OF_7_def MULTIPLE_DETECTED_def

definition sieve_init :: u32 where
  "sieve_init = 0 + (MULTIPLE_OF_3 - 3 * SHIFT_3) + (MULTIPLE_OF_5 - 6 * SHIFT_5)
                  + (MULTIPLE_OF_7 - 9 * SHIFT_7)"

text \<open>The three counter resets of the loop body.\<close>

definition sieve_reset :: "u32 \<Rightarrow> u32" where
  "sieve_reset w =
     (let w = (if w AND MULTIPLE_OF_3 \<noteq> 0 then w - SHIFT_3 * 3 else w);
          w = (if w AND MULTIPLE_OF_5 \<noteq> 0 then w - SHIFT_5 * 5 else w)
      in if w AND MULTIPLE_OF_7 \<noteq> 0 then w - SHIFT_7 * 7 else w)"

text \<open>The leading loop that prints the factors 2.  It would not return for 0.\<close>

partial_function (option) strip_twos :: "u64 \<Rightarrow> u64 list \<Rightarrow> (u64 \<times> u64 list) option" where
  "strip_twos N out =
     (if N AND 1 = 0 then strip_twos (shr N 1) (out @ [2]) else Some (N, out))"

text \<open>
  The main loop: \<open>Test\<close> is the head of the \<^verbatim>\<open>for\<close>, where the candidate is divided out as
  often as it goes, \<open>Next_factor\<close> the label of the same name.
\<close>

datatype pc = Test | Next_factor

partial_function (option) factor_loop ::
    "pc \<Rightarrow> u64 \<Rightarrow> u32 \<Rightarrow> u32 \<Rightarrow> u32 \<Rightarrow> u64 list \<Rightarrow> (u64 \<times> u64 list) option" where
  "factor_loop pc N factor max_factor sieve_word out =
     (case pc of
        Test \<Rightarrow>
          (if N mod ucast factor = 0
           then (let N = N div ucast factor
                 in factor_loop Test N factor (isqrt_odd N) sieve_word (out @ [ucast factor]))
           else factor_loop Next_factor N factor max_factor sieve_word out)
      | Next_factor \<Rightarrow>
          (if factor \<ge> max_factor then Some (N, out)
           else (let factor = factor + 2; sieve_word = sieve_word + INCREMENT_EACH
                 in if sieve_word AND MULTIPLE_DETECTED = 0
                    then factor_loop Test N factor max_factor sieve_word out
                    else factor_loop Next_factor N factor max_factor (sieve_reset sieve_word) out)))"

declare strip_twos.simps [code] factor_loop.simps [code]

definition factor_end :: "u64 \<times> u64 list \<Rightarrow> u64 list" where
  "factor_end = (\<lambda>(N, out). if N > 1 then out @ [N] else out)"

text \<open>The numbers \<^verbatim>\<open>factorize\<close> prints, in order; \<open>None\<close> would be a run that never ends.\<close>

definition factorize :: "u64 \<Rightarrow> u64 list option" where
  "factorize N =
     map_option factor_end
       (if N < 4 then Some (N, [])
        else Option.bind (strip_twos N [])
               (\<lambda>(N, out). factor_loop Test N 3 (isqrt_odd N) sieve_init out))"

definition factorize_text :: "u64 list \<Rightarrow> string" where
  "factorize_text fs = concat (map (\<lambda>f. CHR '' '' # dec_nat (unat f)) fs) @ [CHR 0x0A]"

subsection \<open>Square roots of the cofactor\<close>

lemma isqrt_half: "unat (isqrt N) < 2 ^ 32"
proof -
  have "is_root (unat (isqrt N)) (unat N)"
    using isqrt_root by blast
  then show ?thesis
    by (rule is_root_bound) (use unat_bound [of N] in simp)
qed

lemma isqrt_odd_unat:
  assumes "0 < unat N"
  shows "unat (isqrt_odd N) = (if odd (unat (isqrt N)) then unat (isqrt N) else unat (isqrt N) - 1)"
proof -
  let ?r = "unat (isqrt N)"
  define s :: u32 where "s = ucast (isqrt N)"
  have r: "0 < ?r"
    using isqrt_root [of N] assms by (cases ?r) (auto simp: is_root_def)
  have s: "unat s = ?r"
    using isqrt_half [of N] by (simp add: s_def unsigned_ucast_eq take_bit_nat_eq_self_iff)
  then have s1: "unat (s - 1) = ?r - 1"
    using r by (subst unat_sub_small) auto
  have "unat ((s - 1) OR 1) = (if odd ?r then ?r else ?r - 1)"
  proof (cases "odd ?r")
    case True
    then have "even (s - 1)" using s1 r by (simp add: even_unat_iff [symmetric])
    then have "(s - 1) OR 1 = s" by (simp add: or_one_eq)
    with True s show ?thesis by simp
  next
    case False
    then have "odd (s - 1)" using s1 r by (simp add: even_unat_iff [symmetric])
    then have "(s - 1) OR 1 = s - 1" by (simp add: or_one_eq)
    with False s1 show ?thesis by simp
  qed
  then show ?thesis by (simp add: isqrt_odd_def s_def)
qed

lemma isqrt_odd_largest:
  assumes "0 < unat N" "odd d" "d * d \<le> unat N"
  shows "d \<le> unat (isqrt_odd N)"
proof -
  let ?r = "unat (isqrt N)"
  have "d < Suc ?r"
    using isqrt_root [of N] assms(3) unfolding is_root_def
    by (meson le_less_trans linorder_not_less mult_le_mono)
  then show ?thesis
    using assms by (auto simp: isqrt_odd_unat) (cases "d = ?r"; auto)
qed

lemma odd_isqrt_odd: "0 < unat N \<Longrightarrow> odd (unat (isqrt_odd N))"
  using isqrt_root [of N] by (cases "unat (isqrt N)") (auto simp: isqrt_odd_unat is_root_def)

subsection \<open>The sieve word\<close>

text \<open>Three counters packed into one word; the candidate is a multiple of 3, 5 or 7 when the
  counter for it reaches 4, 8 or 16.\<close>

definition counters :: "nat \<Rightarrow> nat \<Rightarrow> nat \<Rightarrow> u32" where
  "counters c3 c5 c7 = of_nat (c3 + 8 * c5 + 128 * c7)"

definition sieve_ok :: "nat \<Rightarrow> u32 \<Rightarrow> bool" where
  "sieve_ok f w \<longleftrightarrow>
     (\<exists>c3 c5 c7. w = counters c3 c5 c7 \<and> c3 \<in> set [1..<4] \<and> c5 \<in> set [2..<8] \<and> c7 \<in> set [7..<16]
        \<and> 3 dvd f + 2 * (4 - c3) \<and> 5 dvd f + 2 * (8 - c5) \<and> 7 dvd f + 2 * (16 - c7)
        \<and> 5 < f + 2 * (8 - c5) \<and> 7 < f + 2 * (16 - c7))"

definition next_count :: "nat \<Rightarrow> nat \<Rightarrow> nat \<Rightarrow> nat" where
  "next_count hi lo c = (if Suc c = hi then lo else Suc c)"

definition sieve_next :: "nat \<Rightarrow> nat \<Rightarrow> nat \<Rightarrow> u32" where
  "sieve_next c3 c5 c7 = counters (next_count 4 1 c3) (next_count 8 3 c5) (next_count 16 9 c7)"

definition sieve_entry :: "nat \<Rightarrow> nat \<Rightarrow> nat \<Rightarrow> bool" where
  "sieve_entry c3 c5 c7 \<longleftrightarrow>
     (let w = counters c3 c5 c7 + INCREMENT_EACH
      in if c3 < 3 \<and> c5 < 7 \<and> c7 < 15
         then w AND MULTIPLE_DETECTED = 0 \<and> w = sieve_next c3 c5 c7
         else w AND MULTIPLE_DETECTED \<noteq> 0 \<and> sieve_reset w = sieve_next c3 c5 c7)"

lemma sieve_table:
  "list_all (\<lambda>c3. list_all (\<lambda>c5. list_all (sieve_entry c3 c5) [7..<16]) [2..<8]) [1..<4]"
  by (simp add: sieve_entry_def sieve_next_def sieve_defs counters_def next_count_def
      sieve_reset_def Let_def upt_rec)

lemmas sieve_table_at = sieve_table [unfolded list_all_iff, THEN bspec, THEN bspec, THEN bspec]

lemma next_count_dvd:
  assumes "k dvd f + 2 * (hi - c)" "lo + k = hi" "c < hi" "0 < k"
  shows "k dvd (f + 2) + 2 * (hi - next_count hi lo c)"
proof (cases "Suc c = hi")
  case True
  then have "hi - c = 1" by linarith
  then have "k dvd f + 2" using assms(1) by simp
  moreover have "hi - lo = k" using assms(2) by linarith
  ultimately have "k dvd (f + 2) + 2 * (hi - lo)" by (metis dvd_add dvd_triv_right)
  with True show ?thesis by (simp add: next_count_def)
next
  case False
  then have "(f + 2) + 2 * (hi - Suc c) = f + 2 * (hi - c)" using assms by linarith
  with assms(1) have "k dvd (f + 2) + 2 * (hi - Suc c)" by (simp only:)
  with False show ?thesis by (simp add: next_count_def)
qed

lemma next_count_gt:
  assumes "m < f + 2 * (hi - c)" "c < hi"
  shows "m < (f + 2) + 2 * (hi - next_count hi lo c)"
  using assms by (auto simp: next_count_def)

lemma next_count_range:
  assumes "c \<in> set [lo'..<hi]" "lo' \<le> lo" "lo < hi"
  shows "next_count hi lo c \<in> set [lo'..<hi]"
  using assms by (auto simp: next_count_def)

lemma sieve_ok_init: "sieve_ok 3 sieve_init"
  unfolding sieve_ok_def
  by (intro exI [of _ 1] exI [of _ 2] exI [of _ 7]) code_simp

lemma sieve_step:
  assumes "sieve_ok f w"
  defines "w' \<equiv> w + INCREMENT_EACH"
  shows "w' AND MULTIPLE_DETECTED = 0 \<Longrightarrow> sieve_ok (f + 2) w'"
    and "w' AND MULTIPLE_DETECTED \<noteq> 0 \<Longrightarrow> sieve_ok (f + 2) (sieve_reset w') \<and>
      (\<exists>k \<in> {3, 5, 7}. k dvd f + 2 \<and> (k < f + 2 \<or> f + 2 = 3))"
proof -
  from assms(1) obtain c3 c5 c7 where w: "w = counters c3 c5 c7"
    and r: "c3 \<in> set [1..<4]" "c5 \<in> set [2..<8]" "c7 \<in> set [7..<16]"
    and d: "3 dvd f + 2 * (4 - c3)" "5 dvd f + 2 * (8 - c5)" "7 dvd f + 2 * (16 - c7)"
    and g: "5 < f + 2 * (8 - c5)" "7 < f + 2 * (16 - c7)"
    unfolding sieve_ok_def by blast
  have lt: "c3 < 4" "c5 < 8" "c7 < 16"
    using r by (simp_all only: set_upt atLeastLessThan_iff)
  have "next_count 4 1 c3 \<in> set [1..<4]" "next_count 8 3 c5 \<in> set [2..<8]"
      "next_count 16 9 c7 \<in> set [7..<16]"
    by (rule next_count_range [OF r(1)] next_count_range [OF r(2)] next_count_range [OF r(3)]; simp)+
  moreover have "3 dvd (f + 2) + 2 * (4 - next_count 4 1 c3)"
      "5 dvd (f + 2) + 2 * (8 - next_count 8 3 c5)" "7 dvd (f + 2) + 2 * (16 - next_count 16 9 c7)"
    by (rule next_count_dvd [OF d(1) _ lt(1)] next_count_dvd [OF d(2) _ lt(2)]
        next_count_dvd [OF d(3) _ lt(3)]; simp)+
  moreover note next_count_gt [OF g(1) lt(2), of 3] next_count_gt [OF g(2) lt(3), of 9]
  ultimately have "sieve_ok (f + 2) (sieve_next c3 c5 c7)"
    unfolding sieve_ok_def sieve_next_def by blast
  moreover have "sieve_entry c3 c5 c7"
    using r by (rule sieve_table_at)
  moreover have "\<exists>k \<in> {3, 5, 7}. k dvd f + 2 \<and> (k < f + 2 \<or> f + 2 = 3)"
    if trig: "\<not> (c3 < 3 \<and> c5 < 7 \<and> c7 < 15)"
  proof -
    have "c3 = 3 \<or> c5 = 7 \<or> c7 = 15" using trig lt by linarith
    then show ?thesis
    proof (elim disjE)
      assume "c3 = 3"
      then have "3 dvd f + 2" using d(1) by simp
      moreover from this have "3 \<le> f + 2" by (intro dvd_imp_le) auto
      ultimately show ?thesis by (intro bexI [of _ 3]) auto
    qed (use d g in auto)
  qed
  ultimately show "w' AND MULTIPLE_DETECTED = 0 \<Longrightarrow> sieve_ok (f + 2) w'"
    and "w' AND MULTIPLE_DETECTED \<noteq> 0 \<Longrightarrow> sieve_ok (f + 2) (sieve_reset w') \<and>
      (\<exists>k \<in> {3, 5, 7}. k dvd f + 2 \<and> (k < f + 2 \<or> f + 2 = 3))"
    unfolding sieve_entry_def w w'_def Let_def by (auto split: if_splits)
qed

subsection \<open>Correctness of the loop\<close>

definition prime_nat :: "nat \<Rightarrow> bool" where
  "prime_nat p \<longleftrightarrow> 1 < p \<and> (\<forall>d. d dvd p \<longrightarrow> d = 1 \<or> d = p)"

text \<open>\<open>no_divisor b n\<close>: nothing in \<open>2 .. b - 1\<close> divides \<open>n\<close>.\<close>

definition no_divisor :: "nat \<Rightarrow> nat \<Rightarrow> bool" where
  "no_divisor b n \<longleftrightarrow> (\<forall>d. 1 < d \<and> d < b \<longrightarrow> \<not> d dvd n)"

definition factors_of :: "u64 list \<Rightarrow> nat \<Rightarrow> bool" where
  "factors_of fs n \<longleftrightarrow>
     prod_list (map unat fs) = n \<and> (\<forall>f \<in> set fs. prime_nat (unat f)) \<and> sorted (map unat fs)"

definition loop_inv :: "pc \<Rightarrow> u64 \<Rightarrow> u32 \<Rightarrow> u32 \<Rightarrow> u64 list \<Rightarrow> nat \<Rightarrow> bool" where
  "loop_inv pc N f w out n0 \<longleftrightarrow>
     0 < unat N \<and> odd (unat f) \<and> 3 \<le> unat f \<and> sieve_ok (unat f) w
     \<and> no_divisor (case pc of Test \<Rightarrow> unat f | Next_factor \<Rightarrow> Suc (unat f)) (unat N)
     \<and> prod_list (map unat out) * unat N = n0
     \<and> (\<forall>p \<in> set out. prime_nat (unat p) \<and> unat p \<le> unat f) \<and> sorted (map unat out)"

lemma no_divisor_prime:
  assumes "no_divisor f n" "f dvd n" "1 < f" "0 < n"
  shows "prime_nat f"
  unfolding prime_nat_def
proof (intro conjI allI impI)
  fix d assume "d dvd f"
  with assms have "d dvd n" "d \<le> f" "0 < d"
    by (auto intro: dvd_trans dvd_imp_le dvd_pos_nat)
  with assms(1) show "d = 1 \<or> d = f"
    by (auto simp: no_divisor_def) (metis One_nat_def le_neq_implies_less less_Suc_eq not_less_eq)
qed (rule assms)

lemma no_divisor_cofactor: "no_divisor b n \<Longrightarrow> m dvd n \<Longrightarrow> no_divisor b m"
  by (auto simp: no_divisor_def intro: dvd_trans)

lemma no_divisor_Suc: "no_divisor (Suc f) n \<longleftrightarrow> no_divisor f n \<and> (1 < f \<longrightarrow> \<not> f dvd n)"
  by (auto simp: no_divisor_def less_Suc_eq)

text \<open>When no divisor up to the odd root is left, the cofactor is 1 or prime.\<close>

lemma no_divisor_root:
  assumes "no_divisor (Suc f) (unat N)" "unat (isqrt_odd N) \<le> f" "2 \<le> f" "1 < unat N"
  shows "prime_nat (unat N)"
  unfolding prime_nat_def
proof (intro conjI allI impI)
  let ?n = "unat N"
  have odd: "odd ?n"
    using assms by (auto simp: no_divisor_def)
  have small: "d = 1" if "d dvd ?n" "d * d \<le> ?n" for d
  proof (rule ccontr)
    assume "d \<noteq> 1"
    have "odd d" using odd that(1) by (metis dvd_trans)
    then have "d \<le> f" "1 < d"
      using isqrt_odd_largest [of N d] that assms \<open>d \<noteq> 1\<close> by (auto elim: oddE)
    with that(1) assms(1) show False by (auto simp: no_divisor_def)
  qed
  fix d assume "d dvd ?n"
  then obtain e where e: "?n = d * e" by blast
  show "d = 1 \<or> d = ?n"
  proof (cases "d \<le> e")
    case True
    then show ?thesis using small [of d] e by simp
  next
    case False
    then have "e * e \<le> ?n" using e by simp
    then show ?thesis using small [of e] e by simp
  qed
qed (rule assms)

lemma loop_inv_divide:
  assumes "loop_inv Test N f w out n0" "N mod ucast f = 0"
  shows "loop_inv Test (N div ucast f) f w (out @ [ucast f]) n0" "unat (N div ucast f) < unat N"
proof -
  let ?f = "unat f" and ?n = "unat N"
  have f: "unat (ucast f :: u64) = ?f"
    using unat_bound [of f] by (simp add: unsigned_ucast_eq take_bit_nat_eq_self_iff)
  have inv: "0 < ?n" "3 \<le> ?f" "no_divisor ?f ?n" "prod_list (map unat out) * ?n = n0"
    using assms(1) by (auto simp: loop_inv_def)
  have "?n mod ?f = 0"
    using arg_cong [OF assms(2), of unat] by (simp add: unat_mod f)
  then have dvd: "?f dvd ?n" by presburger
  then obtain q where q: "?n = ?f * q" by blast
  then have q': "unat (N div ucast f) = q" "0 < q"
    using inv by (auto simp: unat_div f)
  show "unat (N div ucast f) < unat N"
    using q q' inv by simp
  have "prime_nat ?f"
    by (rule no_divisor_prime) (use inv dvd in auto)
  moreover have "no_divisor ?f q"
    using inv(3) by (rule no_divisor_cofactor) (simp add: q)
  ultimately show "loop_inv Test (N div ucast f) f w (out @ [ucast f]) n0"
    using assms(1) q q' by (auto simp: loop_inv_def f sorted_append mult.assoc)
qed

lemma loop_inv_next:
  assumes "loop_inv Test N f w out n0" "N mod ucast f \<noteq> 0"
  shows "loop_inv Next_factor N f w out n0"
proof -
  have f: "unat (ucast f :: u64) = unat f"
    using unat_bound [of f] by (simp add: unsigned_ucast_eq take_bit_nat_eq_self_iff)
  have "unat (N mod ucast f) \<noteq> 0"
    using assms(2) by (metis unat_eq_zero)
  then have "\<not> unat f dvd unat N"
    by (simp add: unat_mod f dvd_eq_mod_eq_0)
  then show ?thesis
    using assms(1) by (auto simp: loop_inv_def no_divisor_Suc)
qed

text \<open>Advancing the candidate: it stays within the root, and a candidate the sieve skips has a
  smaller factor already excluded.\<close>

lemma loop_inv_advance:
  assumes inv: "loop_inv Next_factor N f w out n0" and lt: "f < isqrt_odd N"
  defines "w' \<equiv> w + INCREMENT_EACH"
  shows "unat (f + 2) = unat f + 2"
    and "w' AND MULTIPLE_DETECTED = 0 \<Longrightarrow> loop_inv Test N (f + 2) w' out n0"
    and "w' AND MULTIPLE_DETECTED \<noteq> 0 \<Longrightarrow> loop_inv Next_factor N (f + 2) (sieve_reset w') out n0"
proof -
  have I: "0 < unat N" "odd (unat f)" "3 \<le> unat f" "sieve_ok (unat f) w"
      "no_divisor (Suc (unat f)) (unat N)" "prod_list (map unat out) * unat N = n0"
      "\<forall>p \<in> set out. prime_nat (unat p) \<and> unat p \<le> unat f" "sorted (map unat out)"
    using inv by (auto simp: loop_inv_def)
  have "unat f < unat (isqrt_odd N)" "odd (unat (isqrt_odd N))"
    using lt odd_isqrt_odd [OF I(1)] by (auto simp: word_less_nat_alt)
  then have "unat f + 2 < 2 ^ 32"
    using I(2) unat_bound [of "isqrt_odd N"] by (auto elim!: oddE)
  then show f: "unat (f + 2) = unat f + 2"
    by (subst unat_add_small) simp_all
  have "\<not> Suc (unat f) dvd unat N"
  proof
    assume "Suc (unat f) dvd unat N"
    then have "2 dvd unat N" using I(2) by (meson dvd_trans even_Suc)
    then show False using I(3,5) by (auto simp: no_divisor_def)
  qed
  then have nd: "no_divisor (unat f + 2) (unat N)"
    using I(5) by (simp add: no_divisor_Suc)
  have inv': "loop_inv Test N (f + 2) v out n0" if "sieve_ok (unat f + 2) v" for v
    using I nd that by (auto simp: loop_inv_def f)
  show "w' AND MULTIPLE_DETECTED = 0 \<Longrightarrow> loop_inv Test N (f + 2) w' out n0"
    unfolding w'_def by (intro inv' sieve_step(1) I(4))
  assume "w' AND MULTIPLE_DETECTED \<noteq> 0"
  from sieve_step(2) [OF I(4) this [unfolded w'_def]]
  have ok: "sieve_ok (unat f + 2) (sieve_reset w')"
    and ex: "\<exists>k \<in> {3, 5, 7}. k dvd unat f + 2 \<and> (k < unat f + 2 \<or> unat f + 2 = 3)"
    unfolding w'_def by blast+
  from ex obtain k where k: "k \<in> {3, 5, 7}" "k dvd unat f + 2" "k < unat f + 2 \<or> unat f + 2 = 3"
    by blast
  have "\<not> unat f + 2 dvd unat N"
  proof
    assume "unat f + 2 dvd unat N"
    with k(2) have "k dvd unat N" by (rule dvd_trans)
    with k nd I(3) show False by (auto simp: no_divisor_def)
  qed
  with inv' [OF ok] show "loop_inv Next_factor N (f + 2) (sieve_reset w') out n0"
    by (auto simp: loop_inv_def f no_divisor_Suc)
qed

text \<open>The run ends: each round divides \<open>N\<close>, moves the candidate up, or goes from the test to
  the advance.\<close>

definition loop_measure :: "pc \<Rightarrow> u64 \<Rightarrow> u32 \<Rightarrow> nat" where
  "loop_measure pc N f =
     unat N * 2 ^ 34 + (2 ^ 32 - unat f) * 2 + (case pc of Test \<Rightarrow> 1 | Next_factor \<Rightarrow> 0)"

lemma factor_end_ok:
  assumes "loop_inv Next_factor N f w out n0" "\<not> f < isqrt_odd N"
  shows "factors_of (factor_end (N, out)) n0"
proof (cases "unat N = 1")
  case True
  then have "\<not> N > 1" by (simp add: word_less_nat_alt)
  with assms True show ?thesis
    by (auto simp: factor_end_def factors_of_def loop_inv_def)
next
  case False
  with assms have N: "1 < unat N" "N > 1"
    by (auto simp: loop_inv_def word_less_nat_alt)
  have "unat (isqrt_odd N) \<le> unat f"
    using assms(2) by (simp add: word_less_nat_alt)
  with N assms(1) have "prime_nat (unat N)"
    by (intro no_divisor_root [of "unat f"]) (auto simp: loop_inv_def)
  moreover have "unat f < unat N"
    using assms(1) N by (auto simp: loop_inv_def no_divisor_def not_less)
  ultimately show ?thesis
    using assms(1) N(2)
    by (fastforce simp: factor_end_def factors_of_def loop_inv_def sorted_append)
qed

lemma factor_loop_correct:
  assumes "loop_inv pc N f w out n0"
  shows "\<exists>r. factor_loop pc N f (isqrt_odd N) w out = Some r \<and> factors_of (factor_end r) n0"
  using assms
proof (induction "loop_measure pc N f" arbitrary: pc N f w out rule: less_induct)
  case less
  have bound: "unat f < 2 ^ 32" using unat_bound [of f] by simp
  show ?case
  proof (cases pc)
    case Test
    show ?thesis
    proof (cases "N mod ucast f = 0")
      case True
      note step = loop_inv_divide [OF less.prems [unfolded Test] True]
      have "loop_measure Test (N div ucast f) f < loop_measure pc N f"
        using step(2) by (simp add: loop_measure_def Test)
      from less.hyps [OF this step(1)] True show ?thesis
        by (subst factor_loop.simps) (simp add: Test Let_def)
    next
      case False
      note step = loop_inv_next [OF less.prems [unfolded Test] False]
      have "loop_measure Next_factor N f < loop_measure pc N f"
        by (simp add: loop_measure_def Test)
      from less.hyps [OF this step] False show ?thesis
        by (subst factor_loop.simps) (simp add: Test)
    qed
  next
    case Next_factor
    show ?thesis
    proof (cases "f < isqrt_odd N")
      case False
      with factor_end_ok [OF less.prems [unfolded Next_factor]] show ?thesis
        by (subst factor_loop.simps) (simp add: Next_factor linorder_not_less)
    next
      case True
      note step = loop_inv_advance [OF less.prems [unfolded Next_factor] True]
      have nle: "\<not> isqrt_odd N \<le> f" using True by simp
      have m: "loop_measure pc' N (f + 2) < loop_measure pc N f" for pc'
        using bound step(1) unat_bound [of "f + 2"] by (auto simp: loop_measure_def Next_factor split: pc.splits)
      show ?thesis
      proof (cases "(w + INCREMENT_EACH) AND MULTIPLE_DETECTED = 0")
        case d: True
        from less.hyps [OF m step(2) [OF d]] nle d show ?thesis
          by (subst factor_loop.simps) (simp add: Next_factor Let_def)
      next
        case d: False
        from less.hyps [OF m step(3) [OF d]] nle d show ?thesis
          by (subst factor_loop.simps) (simp add: Next_factor Let_def)
      qed
    qed
  qed
qed

lemma strip_twos_correct:
  assumes "0 < unat N"
  shows "\<exists>k M. strip_twos N out = Some (M, out @ replicate k 2) \<and> unat N = 2 ^ k * unat M \<and> odd (unat M)"
  using assms
proof (induction "unat N" arbitrary: N out rule: less_induct)
  case less
  show ?case
  proof (cases "even (unat N)")
    case False
    then have "N AND 1 \<noteq> 0" by (simp add: even_unat_iff and_one_eq odd_iff_mod_2_eq_one)
    with False show ?thesis
      by (subst strip_twos.simps) (auto intro!: exI [of _ 0])
  next
    case True
    then have and1: "N AND 1 = 0" unfolding even_unat_iff by (simp add: and_one_eq even_iff_mod_2_eq_zero)
    obtain q where q: "unat N = 2 * q" using True by blast
    then have q': "unat (shr N 1) = q" by (simp only: unat_shr) simp
    with q less.prems have "unat (shr N 1) < unat N" "0 < unat (shr N 1)" by auto
    from less.hyps [OF this, of "out @ [2]"] obtain k M where
      "strip_twos (shr N 1) (out @ [2]) = Some (M, (out @ [2]) @ replicate k 2)"
      "q = 2 ^ k * unat M" "odd (unat M)"
      unfolding q' by blast
    then show ?thesis
      by (subst strip_twos.simps) (simp only: and1 if_True q append.assoc append_Cons append_Nil,
        rule exI [of _ "Suc k"], auto)
  qed
qed

lemma prime_nat_self: "no_divisor p p \<Longrightarrow> 1 < p \<Longrightarrow> prime_nat p"
  by (rule no_divisor_prime) auto

lemma prime_nat_2: "prime_nat 2"
  by (auto intro!: prime_nat_self simp: no_divisor_def)

lemma prime_nat_3: "prime_nat 3"
proof (rule prime_nat_self)
  have "d = 2" if "1 < d" "d < 3" for d :: nat using that by linarith
  moreover have "\<not> (2::nat) dvd 3" by simp
  ultimately show "no_divisor 3 3" unfolding no_divisor_def by metis
qed simp

lemma loop_inv_start:
  assumes "odd (unat M)" "n0 = 2 ^ k * unat M"
  shows "loop_inv Test M 3 sieve_init (replicate k 2) n0"
proof -
  have "no_divisor 3 (unat M)"
    using assms(1) by (auto simp: no_divisor_def less_Suc_eq numeral_3_eq_3)
  moreover have "0 < unat M" using assms(1) by (cases "unat M") auto
  ultimately show ?thesis
    using assms(2) sieve_ok_init prime_nat_2
    by (auto simp: loop_inv_def prod_list_replicate)
qed

lemma factors_of_small:
  assumes "0 < unat N" "N < 4"
  shows "factors_of (factor_end (N, [])) (unat N)"
proof -
  have "unat N = 1 \<or> unat N = 2 \<or> unat N = 3"
    using assms by (auto simp: word_less_nat_alt)
  then show ?thesis
    using prime_nat_2 prime_nat_3 by (auto simp: factor_end_def factors_of_def word_less_nat_alt)
qed

lemma factorize_prime_factors:
  assumes "0 < unat N"
  shows "\<exists>fs. factorize N = Some fs \<and> prod_list (map unat fs) = unat N
    \<and> (\<forall>f \<in> set fs. prime_nat (unat f)) \<and> sorted (map unat fs)"
proof (cases "N < 4")
  case True
  with factors_of_small [OF assms] show ?thesis
    by (simp add: factorize_def factors_of_def)
next
  case False
  obtain k M where M: "strip_twos N [] = Some (M, replicate k 2)"
    "unat N = 2 ^ k * unat M" "odd (unat M)"
    using strip_twos_correct [OF assms, of "[]"] by auto
  from factor_loop_correct [OF loop_inv_start [OF M(3,2)]] False M(1) show ?thesis
    by (auto simp: factorize_def factors_of_def)
qed


lemma factorize_84: "factorize 84 = Some [2, 2, 3, 7]"
  by code_simp


end
