(* ===== verification/Strtonum.thy ===== *)
theory Strtonum
  imports Hex Factor
begin

text \<open>
  Numbers from text: the \<^verbatim>\<open>strtoull\<close> and \<^verbatim>\<open>strtoll\<close> of the C library as the C standard
  describes them (C locale, 64-bit), the checked wrappers of \<^verbatim>\<open>libbb/bb_strtonum.c\<close>, the
  dying ones of \<^verbatim>\<open>libbb/xatonum_template.c\<close> at the two widths \<^verbatim>\<open>libbb/xatonum.c\<close>
  instantiates it with on this platform, \<^verbatim>\<open>libbb/skip_whitespace.c\<close>, and the number reading of
  the factor applet.
\<close>

section \<open>The C library\<close>

definition digit_val :: "char \<Rightarrow> nat option" where
  "digit_val c =
     (if isdigit c then Some (code c - 48)
      else if isupper c then Some (code c - 65 + 10)
      else if islower c then Some (code c - 97 + 10)
      else None)"

fun scan_digits :: "nat \<Rightarrow> string \<Rightarrow> nat \<Rightarrow> nat \<times> string" where
  "scan_digits b [] acc = (acc, [])"
| "scan_digits b (c # s) acc =
     (case digit_val c of
        Some d \<Rightarrow> if d < b then scan_digits b s (acc * b + d) else (acc, c # s)
      | None \<Rightarrow> (acc, c # s))"

definition is_digit_of :: "nat \<Rightarrow> char \<Rightarrow> bool" where
  "is_digit_of b c \<longleftrightarrow> (case digit_val c of Some d \<Rightarrow> d < b | None \<Rightarrow> False)"

text \<open>White space, sign, base prefix, digits: the sign, the magnitude and the rest; \<open>None\<close> when there
  are no digits.\<close>

definition strto_scan :: "string \<Rightarrow> nat \<Rightarrow> (bool \<times> nat \<times> string) option" where
  "strto_scan nptr base =
     (let s = dropWhile isspace nptr;
          neg = (peek s = CHR ''-'');
          s = (if peek s = CHR ''-'' \<or> peek s = CHR ''+'' then tl s else s);
          hex = ((base = 0 \<or> base = 16) \<and> peek s = CHR ''0''
                 \<and> (peek_at s 1 = CHR ''x'' \<or> peek_at s 1 = CHR ''X'') \<and> is_digit_of 16 (peek_at s 2));
          b = (if hex then 16 else if base = 0 then (if peek s = CHR ''0'' then 8 else 10) else base);
          s = (if hex then drop 2 s else s)
      in if is_digit_of b (peek s) then (case scan_digits b s 0 of (v, rest) \<Rightarrow> Some (neg, v, rest)) else None)"

text \<open>The value, the end pointer and whether \<^verbatim>\<open>errno\<close> became \<^verbatim>\<open>ERANGE\<close>.\<close>

definition strtoull :: "string \<Rightarrow> nat \<Rightarrow> u64 \<times> string \<times> bool" where
  "strtoull nptr base =
     (case strto_scan nptr base of
        None \<Rightarrow> (0, nptr, False)
      | Some (neg, v, rest) \<Rightarrow>
          if v \<ge> 2 ^ 64 then (- 1, rest, True)
          else (if neg then - of_nat v else of_nat v, rest, False))"

definition strtoll :: "string \<Rightarrow> nat \<Rightarrow> u64 \<times> string \<times> bool" where
  "strtoll nptr base =
     (case strto_scan nptr base of
        None \<Rightarrow> (0, nptr, False)
      | Some (neg, v, rest) \<Rightarrow>
          if neg then (if v > 2 ^ 63 then (of_nat (2 ^ 63), rest, True) else (- of_nat v, rest, False))
          else (if v \<ge> 2 ^ 63 then (of_nat (2 ^ 63 - 1), rest, True) else (of_nat v, rest, False)))"

section \<open>White space\<close>

fun skip_whitespace :: "string \<Rightarrow> string" where
  "skip_whitespace [] = []"
| "skip_whitespace (c # s) =
     (if c = CHR '' '' \<or> (of_nat (code c) - 9 :: u8) \<le> 13 - 9 then skip_whitespace s else c # s)"

fun skip_non_whitespace :: "string \<Rightarrow> string" where
  "skip_non_whitespace [] = []"
| "skip_non_whitespace (c # s) =
     (if c \<noteq> CHR '' '' \<and> (of_nat (code c) - 9 :: u8) > 13 - 9 then skip_non_whitespace s else c # s)"

section \<open>Checked conversions\<close>

text \<open>Value, end pointer and \<^verbatim>\<open>errno\<close>.\<close>

type_synonym strto_result = "u64 \<times> string \<times> errno"

definition handle_errors :: "u64 \<Rightarrow> string \<Rightarrow> bool \<Rightarrow> strto_result" where
  "handle_errors v endp erange =
     (if peek endp \<noteq> NUL then
        (if isalnum (peek endp) \<or> erange then (- 1, endp, ERANGE) else (v, endp, EINVAL))
      else (v, endp, if erange then ERANGE else EOK))"

definition bb_strtoull :: "string \<Rightarrow> nat \<Rightarrow> strto_result" where
  "bb_strtoull arg base =
     (if \<not> isalnum (peek arg) then (- 1, arg, ERANGE)
      else case strtoull arg base of (v, endp, erange) \<Rightarrow> handle_errors v endp erange)"

definition bb_strtoll :: "string \<Rightarrow> nat \<Rightarrow> strto_result" where
  "bb_strtoll arg base =
     (let first = (if peek arg \<noteq> CHR ''-'' then peek arg else peek_at arg 1)
      in if \<not> isalnum first then (- 1, arg, ERANGE)
         else case strtoll arg base of (v, endp, erange) \<Rightarrow> handle_errors v endp erange)"

text \<open>The 32-bit ones check the value before the terminator.\<close>

definition bb_strtou :: "string \<Rightarrow> nat \<Rightarrow> strto_result" where
  "bb_strtou arg base =
     (if \<not> isalnum (peek arg) then (- 1, arg, ERANGE)
      else case strtoull arg base of
        (v, endp, erange) \<Rightarrow> if v > 0xffffffff then (- 1, endp, ERANGE) else handle_errors v endp erange)"

definition bb_strtoi :: "string \<Rightarrow> nat \<Rightarrow> strto_result" where
  "bb_strtoi arg base =
     (let first = (if peek arg \<noteq> CHR ''-'' then peek arg else peek_at arg 1)
      in if \<not> isalnum first then (- 1, arg, ERANGE)
         else case strtoll arg base of
           (v, endp, erange) \<Rightarrow>
             if sint v > 2147483647 \<or> sint v < - 2147483648 then (- 1, endp, ERANGE)
             else handle_errors v endp erange)"

section \<open>Conversions that die\<close>

text \<open>The template's parameters at its two instances (\<^verbatim>\<open>long long\<close> and \<^verbatim>\<open>int\<close>).\<close>

datatype xtype = Ty_llong | Ty_int

fun XSTR_UTYPE_MAX :: "xtype \<Rightarrow> nat" where
  "XSTR_UTYPE_MAX Ty_llong = 2 ^ 64 - 1"
| "XSTR_UTYPE_MAX Ty_int = 2 ^ 32 - 1"

fun XSTR_TYPE_MAX :: "xtype \<Rightarrow> nat" where
  "XSTR_TYPE_MAX Ty_llong = 2 ^ 63 - 1"
| "XSTR_TYPE_MAX Ty_int = 2 ^ 31 - 1"

definition XSTR_TYPE_MIN :: "xtype \<Rightarrow> int" where
  "XSTR_TYPE_MIN t = - int (XSTR_TYPE_MAX t) - 1"

fun XSTR_STRTOU :: "xtype \<Rightarrow> string \<Rightarrow> nat \<Rightarrow> nat \<times> string \<times> bool" where
  "XSTR_STRTOU Ty_llong s base = (case strtoull s base of (v, e, erange) \<Rightarrow> (unat v, e, erange))"
| "XSTR_STRTOU Ty_int s base =
     (case strtoull s base of
        (v, e, erange) \<Rightarrow> if v > 0xffffffff then (2 ^ 32 - 1, e, True) else (unat v, e, erange))"

datatype 'a xnum = Val 'a | Die_range | Die_inval

text \<open>A suffix table ends at the first multiplier 0; a null pointer is \<open>None\<close>.\<close>

type_synonym suffix_mult = "string \<times> nat"

fun find_suffix :: "suffix_mult list \<Rightarrow> string \<Rightarrow> nat option" where
  "find_suffix [] e = None"
| "find_suffix ((suffix, mult) # suffixes) e =
     (if mult = 0 then None else if suffix = e then Some mult else find_suffix suffixes e)"

definition xstrtou_range_sfx ::
    "xtype \<Rightarrow> string \<Rightarrow> nat \<Rightarrow> nat \<Rightarrow> nat \<Rightarrow> suffix_mult list option \<Rightarrow> nat xnum" where
  "xstrtou_range_sfx t numstr base lower upper suffixes =
     (let chk_range = (\<lambda>r. if r \<ge> lower \<and> r \<le> upper then Val r else Die_range)
      in if peek numstr = CHR ''-'' \<or> peek numstr = CHR ''+'' \<or> isspace (peek numstr) then Die_inval
         else case XSTR_STRTOU t numstr base of
           (r, e, erange) \<Rightarrow>
             if erange \<or> numstr = e then Die_inval
             else (case (case suffixes of None \<Rightarrow> None | Some sfx \<Rightarrow> find_suffix sfx e) of
                     Some mult \<Rightarrow> if XSTR_UTYPE_MAX t div mult < r then Die_range else chk_range (r * mult)
                   | None \<Rightarrow> if peek e \<noteq> NUL then Die_inval else chk_range r))"

definition xstrto_range_sfx ::
    "xtype \<Rightarrow> string \<Rightarrow> nat \<Rightarrow> int \<Rightarrow> int \<Rightarrow> suffix_mult list option \<Rightarrow> int xnum" where
  "xstrto_range_sfx t numstr base lower upper suffixes =
     (let u = XSTR_TYPE_MAX t;
          p = numstr;
          (p, u) = (if peek p = CHR ''+'' \<or> peek p = CHR ''-''
                    then (let p = tl p in (p, if peek p = CHR ''-'' then u + 1 else u))
                    else (p, u))
      in case xstrtou_range_sfx t p base 0 u suffixes of
           Val r \<Rightarrow>
             (let r = (if peek numstr = CHR ''-'' then - int r else int r)
              in if r < lower \<or> r > upper then Die_range else Val r)
         | Die_range \<Rightarrow> Die_range
         | Die_inval \<Rightarrow> Die_inval)"

definition xatoull_range_sfx :: "string \<Rightarrow> nat \<Rightarrow> nat \<Rightarrow> suffix_mult list option \<Rightarrow> nat xnum" where
  "xatoull_range_sfx numstr lower upper suffixes = xstrtou_range_sfx Ty_llong numstr 10 lower upper suffixes"

definition xatoll :: "string \<Rightarrow> int xnum" where
  "xatoll numstr =
     xstrto_range_sfx Ty_llong numstr 10 (XSTR_TYPE_MIN Ty_llong) (int (XSTR_TYPE_MAX Ty_llong)) None"

definition xatoi :: "string \<Rightarrow> int xnum" where
  "xatoi numstr = xstrto_range_sfx Ty_int numstr 10 (XSTR_TYPE_MIN Ty_int) (int (XSTR_TYPE_MAX Ty_int)) None"

definition xatou_range :: "string \<Rightarrow> nat \<Rightarrow> nat \<Rightarrow> nat xnum" where
  "xatou_range numstr lower upper = xstrtou_range_sfx Ty_int numstr 10 lower upper None"

definition xatoi_positive :: "string \<Rightarrow> nat xnum" where
  "xatoi_positive numstr = xatou_range numstr 0 (2 ^ 31 - 1)"

definition xatou16 :: "string \<Rightarrow> nat xnum" where
  "xatou16 numstr = xatou_range numstr 0 0xffff"

definition bkm_suffixes :: "suffix_mult list" where
  "bkm_suffixes = [(''b'', 512), (''k'', 1024), (''m'', 1024 * 1024), ('''', 0)]"

definition kmg_i_suffixes :: "suffix_mult list" where
  "kmg_i_suffixes =
     [(''KiB'', 1024), (''kiB'', 1024), (''K'', 1024), (''k'', 1024), (''MiB'', 1048576),
      (''miB'', 1048576), (''M'', 1048576), (''m'', 1048576), (''GiB'', 1073741824),
      (''giB'', 1073741824), (''G'', 1073741824), (''g'', 1073741824), (''KB'', 1000),
      (''MB'', 1000000), (''GB'', 1000000000), ('''', 0)]"

section \<open>Numbers of the factor applet\<close>

datatype factor_out = Usage | Line string

definition factorize_numstr :: "string \<Rightarrow> factor_out option" where
  "factorize_numstr numstr =
     (let numstr = (if peek numstr = CHR ''+'' then tl numstr else numstr)
      in case bb_strtoull numstr 10 of
           (N, e, err) \<Rightarrow>
             if err \<noteq> EOK then Some Usage
             else map_option (\<lambda>fs. Line (dec_nat (unat N) @ '':'' @ factorize_text fs)) (factorize N))"

section \<open>Reading decimal text\<close>

lemma digit_val_dec: "d < 10 \<Longrightarrow> digit_val (char_of (48 + d :: nat)) = Some d"
  by (simp add: digit_val_def isdigit_def)

lemma scan_digits_append:
  "list_all isdigit a \<Longrightarrow> scan_digits 10 (a @ b) acc = scan_digits 10 b (fst (scan_digits 10 a acc))"
  by (induction a arbitrary: acc) (auto simp: digit_val_def isdigit_def)

lemma scan_dec_nat: "scan_digits 10 (dec_nat n) 0 = (n, [])"
proof (induction n rule: dec_nat.induct)
  case (1 n)
  show ?case
  proof (cases "n < 10")
    case True
    then show ?thesis by (subst dec_nat.simps) (simp add: digit_val_dec)
  next
    case False
    then have e: "dec_nat n = dec_nat (n div 10) @ [char_of (48 + n mod 10)]"
      by (subst dec_nat.simps) simp
    have "digit_val (char_of (48 + n mod 10)) = Some (n mod 10)" by (rule digit_val_dec) simp
    then show ?thesis
      unfolding e scan_digits_append [OF dec_nat_digits] using 1 [OF False] by simp
  qed
qed

lemma scan_dec_nat_rest:
  assumes "\<not> isdigit (peek r)"
  shows "scan_digits 10 (dec_nat n @ r) 0 = (n, r)"
proof -
  have "scan_digits 10 r n = (n, r)"
    using assms by (cases r) (auto simp: digit_val_def ctype_defs)
  then show ?thesis
    by (simp add: scan_digits_append [OF dec_nat_digits] scan_dec_nat)
qed

lemma dec_nat_head: obtains c s where "dec_nat n = c # s" "isdigit c"
  using dec_nat_digits [of n] by (cases "dec_nat n") auto

lemma strto_scan_dec:
  assumes "\<not> isdigit (peek r)"
  shows "strto_scan (dec_nat n @ r) 10 = Some (False, n, r)"
proof -
  obtain c s where c: "dec_nat n = c # s" "isdigit c" by (rule dec_nat_head)
  then have "\<not> isspace c" "c \<noteq> CHR ''-''" "c \<noteq> CHR ''+''" "is_digit_of 10 c"
    by (auto simp: ctype_defs is_digit_of_def digit_val_def)
  with c(1) scan_dec_nat_rest [OF assms, of n] show ?thesis
    by (simp add: strto_scan_def Let_def)
qed

lemma strtoull_dec:
  "\<not> isdigit (peek r) \<Longrightarrow> strtoull (dec_nat n @ r) 10 = (if n < 2 ^ 64 then (of_nat n, r, False) else (- 1, r, True))"
  by (simp add: strtoull_def strto_scan_dec)

lemma peek_dec_nat: "isalnum (peek (dec_nat n @ r))" "peek (dec_nat n @ r) \<noteq> CHR ''-''"
  "peek (dec_nat n @ r) \<noteq> CHR ''+''" "\<not> isspace (peek (dec_nat n @ r))"
  by (rule dec_nat_head [of n], auto simp: ctype_defs)+

section \<open>Properties\<close>

text \<open>C27. \<open>bb_strtoull\<close> on decimal text: the value when it fits and the text ends there; the value and
  \<^verbatim>\<open>EINVAL\<close> when a character that is not alphanumeric follows; otherwise, and for a value of
  65 bits or more, all ones and \<^verbatim>\<open>ERANGE\<close>.\<close>

theorem bb_strtoull_decimal:
  assumes "\<not> isdigit (peek r)" "no_nul r"
  shows "bb_strtoull (dec_nat n @ r) 10 =
    (if n < 2 ^ 64 \<and> r = [] then (of_nat n, [], EOK)
     else if n < 2 ^ 64 \<and> \<not> isalnum (peek r) then (of_nat n, r, EINVAL)
     else (- 1, r, ERANGE))"
  using assms peek_NUL_iff [OF assms(2)]
  by (auto simp: bb_strtoull_def peek_dec_nat strtoull_dec handle_errors_def)

theorem bb_strtoull_decimal_witness:
  "bb_strtoull ''1234:'' 10 = (1234, '':'', EINVAL)"
proof -
  have "dec_nat 1234 = ''1234''" by (simp add: dec_nat.simps char_of_def bit_0)
  with bb_strtoull_decimal [of "'':''" 1234] show ?thesis by (simp add: ctype_defs)
qed



text \<open>C29. \<open>xatoll\<close> reads back every decimal \<^verbatim>\<open>long long\<close> except the least one: the code that is to
  allow it tests the character after the sign, so \<^verbatim>\<open>LLONG_MIN\<close> dies as out of range.\<close>

theorem xatoll_dec_int:
  assumes "- (2 ^ 63) \<le> i" "i < 2 ^ 63"
  shows "xatoll (dec_int i) = (if i = - (2 ^ 63) then Die_range else Val i)"
proof -
  have x: "xstrtou_range_sfx Ty_llong (dec_nat n) 10 0 u None = (if n \<le> u then Val n else Die_range)"
    if "n < 2 ^ 64" for n u
    using that peek_dec_nat [of n "[]"] strtoull_dec [of "[]" n] dec_nat_not_Nil [of n]
    by (auto simp: xstrtou_range_sfx_def Let_def unsigned_of_nat take_bit_eq_mod)
  show ?thesis
  proof (cases "i < 0")
    case True
    define n where "n = nat (- i)"
    have n: "n \<le> 2 ^ 63" "n < 2 ^ 64" "i = - int n" "0 < n" using True assms(1) by (auto simp: n_def)
    then have "dec_int i = CHR ''-'' # dec_nat n" by (simp add: dec_int_def)
    then show ?thesis
      using x [OF n(2)] n peek_dec_nat [of n "[]"]
      by (auto simp: xatoll_def xstrto_range_sfx_def XSTR_TYPE_MIN_def Let_def)
  next
    case False
    define n where "n = nat i"
    have n: "n < 2 ^ 63" "n < 2 ^ 64" "i = int n" using False assms(2) by (auto simp: n_def nat_less_iff)
    then have "dec_int i = dec_nat n" by (simp add: dec_int_def)
    then show ?thesis
      using x [OF n(2)] n peek_dec_nat [of n "[]"]
      by (auto simp: xatoll_def xstrto_range_sfx_def XSTR_TYPE_MIN_def Let_def)
  qed
qed

theorem xatoll_dec_int_witness:
  "xatoll ''-9223372036854775808'' = Die_range \<and> xatoll ''-42'' = Val (- 42)"
proof -
  have "dec_int (- 9223372036854775808) = ''-9223372036854775808''" "dec_int (- 42) = ''-42''"
    by (simp_all add: dec_int_def dec_nat.simps char_of_def bit_0)
  with xatoll_dec_int [of "- 9223372036854775808"] xatoll_dec_int [of "- 42"] show ?thesis by simp
qed

text \<open>C30. The factor applet on the decimal text of a positive 64-bit number (with an optional plus sign)
  prints the number, a colon and its prime factors in ascending order; on a number of more than 64
  bits it shows its usage.\<close>

theorem factorize_numstr_decimal:
  assumes "0 < n" "p = '''' \<or> p = ''+''"
  shows "if n < 2 ^ 64
    then \<exists>fs. factorize_numstr (p @ dec_nat n) = Some (Line (dec_nat n @ '':'' @ factorize_text fs))
       \<and> prod_list (map unat fs) = n \<and> (\<forall>f \<in> set fs. prime_nat (unat f)) \<and> sorted (map unat fs)
    else factorize_numstr (p @ dec_nat n) = Some Usage"
proof -
  have skip: "(if peek (p @ dec_nat n) = CHR ''+'' then tl (p @ dec_nat n) else p @ dec_nat n) = dec_nat n"
    using assms(2) peek_dec_nat(3) [of n "[]"] by auto
  have s: "bb_strtoull (dec_nat n) 10 = (if n < 2 ^ 64 then (of_nat n, [], EOK) else (- 1, [], ERANGE))"
    using peek_dec_nat(1) [of n "[]"] strtoull_dec [of "[]" n]
    by (simp add: bb_strtoull_def handle_errors_def)
  show ?thesis
  proof (cases "n < 2 ^ 64")
    case True
    then have u: "unat (of_nat n :: u64) = n" by (simp add: unsigned_of_nat take_bit_eq_mod)
    obtain fs where "factorize (of_nat n) = Some fs" "prod_list (map unat fs) = n"
      "\<forall>f \<in> set fs. prime_nat (unat f)" "sorted (map unat fs)"
      using factorize_prime_factors [of "of_nat n"] u assms(1) by auto
    then show ?thesis
      using True s u by (auto simp: factorize_numstr_def skip)
  next
    case False
    then show ?thesis using s by (simp add: factorize_numstr_def skip)
  qed
qed

theorem factorize_numstr_decimal_witness:
  "\<exists>fs. factorize_numstr ''+84'' = Some (Line (''84:'' @ factorize_text fs)) \<and> prod_list (map unat fs) = 84"
proof -
  have "dec_nat 84 = ''84''" by (simp add: dec_nat.simps char_of_def bit_0)
  with factorize_numstr_decimal [of 84 "''+''"] show ?thesis by auto
qed

end
