(* ===== verification/Sh_Math.thy ===== *)
theory Sh_Math
  imports Strtonum "HOL-Library.Signed_Division"
begin

text \<open>
  The shell arithmetic evaluator, \<^verbatim>\<open>shell/math.c\<close> (64-bit, \<^verbatim>\<open>FEATURE_SH_MATH_BASE\<close>): the
  token codes, \<open>arith_lookup_val\<close>, \<open>arith_apply\<close>, the operator table, \<open>strto_arith_t\<close>,
  \<open>evaluate_string\<close> and \<open>arith\<close>.

  A value of type \<^verbatim>\<open>arith_t\<close> is a 64-bit word; sums, products and shifts are those of the x86-64
  code (two's complement, shift counts modulo 64).  The shell's \<^verbatim>\<open>lookupvar\<close> and \<^verbatim>\<open>setvar\<close>
  are fields of the state, as in \<^verbatim>\<open>arith_state_t\<close>, over a shell state of any type.  The number
  stack is a list with its top first; a push beyond the \<^verbatim>\<open>alloca\<close>ted array is the outcome
  \<open>Overrun\<close>.  Evaluating a variable calls the evaluator again: \<open>evaluate_string\<close> takes the depth of
  such calls it may still make, and \<open>Too_deep\<close> is running out of it.
\<close>

section \<open>Tokens\<close>

definition tok_decl :: "nat \<Rightarrow> nat \<Rightarrow> nat" where
  "tok_decl prec ident = push_bit 5 ident OR prec"

definition PREC :: "nat \<Rightarrow> nat" where
  "PREC op = op AND 0x1F"

definition TOK_LPAREN :: nat where "TOK_LPAREN = tok_decl 0 0"
definition TOK_COMMA :: nat where "TOK_COMMA = tok_decl 1 0"
definition TOK_ASSIGN :: nat where "TOK_ASSIGN = tok_decl 2 0"
definition TOK_AND_ASSIGN :: nat where "TOK_AND_ASSIGN = tok_decl 2 1"
definition TOK_OR_ASSIGN :: nat where "TOK_OR_ASSIGN = tok_decl 2 2"
definition TOK_XOR_ASSIGN :: nat where "TOK_XOR_ASSIGN = tok_decl 2 3"
definition TOK_PLUS_ASSIGN :: nat where "TOK_PLUS_ASSIGN = tok_decl 2 4"
definition TOK_MINUS_ASSIGN :: nat where "TOK_MINUS_ASSIGN = tok_decl 2 5"
definition TOK_LSHIFT_ASSIGN :: nat where "TOK_LSHIFT_ASSIGN = tok_decl 2 6"
definition TOK_RSHIFT_ASSIGN :: nat where "TOK_RSHIFT_ASSIGN = tok_decl 2 7"
definition TOK_MUL_ASSIGN :: nat where "TOK_MUL_ASSIGN = tok_decl 3 0"
definition TOK_DIV_ASSIGN :: nat where "TOK_DIV_ASSIGN = tok_decl 3 1"
definition TOK_REM_ASSIGN :: nat where "TOK_REM_ASSIGN = tok_decl 3 2"
definition TOK_CONDITIONAL :: nat where "TOK_CONDITIONAL = tok_decl 4 0"
definition TOK_CONDITIONAL_SEP :: nat where "TOK_CONDITIONAL_SEP = tok_decl 4 1"
definition TOK_OR :: nat where "TOK_OR = tok_decl 5 0"
definition TOK_AND :: nat where "TOK_AND = tok_decl 6 0"
definition TOK_BOR :: nat where "TOK_BOR = tok_decl 7 0"
definition TOK_BXOR :: nat where "TOK_BXOR = tok_decl 8 0"
definition TOK_BAND :: nat where "TOK_BAND = tok_decl 9 0"
definition TOK_EQ :: nat where "TOK_EQ = tok_decl 10 0"
definition TOK_NE :: nat where "TOK_NE = tok_decl 10 1"
definition TOK_LT :: nat where "TOK_LT = tok_decl 11 0"
definition TOK_GT :: nat where "TOK_GT = tok_decl 11 1"
definition TOK_GE :: nat where "TOK_GE = tok_decl 11 2"
definition TOK_LE :: nat where "TOK_LE = tok_decl 11 3"
definition TOK_LSHIFT :: nat where "TOK_LSHIFT = tok_decl 12 0"
definition TOK_RSHIFT :: nat where "TOK_RSHIFT = tok_decl 12 1"
definition TOK_ADD :: nat where "TOK_ADD = tok_decl 13 0"
definition TOK_SUB :: nat where "TOK_SUB = tok_decl 13 1"
definition TOK_MUL :: nat where "TOK_MUL = tok_decl 14 0"
definition TOK_DIV :: nat where "TOK_DIV = tok_decl 14 1"
definition TOK_REM :: nat where "TOK_REM = tok_decl 14 2"
definition TOK_EXPONENT :: nat where "TOK_EXPONENT = tok_decl 15 1"
definition UNARYPREC :: nat where "UNARYPREC = 16"
definition TOK_BNOT :: nat where "TOK_BNOT = tok_decl UNARYPREC 0"
definition TOK_NOT :: nat where "TOK_NOT = tok_decl UNARYPREC 1"
definition TOK_UMINUS :: nat where "TOK_UMINUS = tok_decl (UNARYPREC + 1) 0"
definition TOK_UPLUS :: nat where "TOK_UPLUS = tok_decl (UNARYPREC + 1) 1"
definition PREC_PRE :: nat where "PREC_PRE = UNARYPREC + 2"
definition TOK_PRE_INC :: nat where "TOK_PRE_INC = tok_decl PREC_PRE 0"
definition TOK_PRE_DEC :: nat where "TOK_PRE_DEC = tok_decl PREC_PRE 1"
definition PREC_POST :: nat where "PREC_POST = UNARYPREC + 3"
definition TOK_POST_INC :: nat where "TOK_POST_INC = tok_decl PREC_POST 0"
definition TOK_POST_DEC :: nat where "TOK_POST_DEC = tok_decl PREC_POST 1"
definition SPEC_PREC :: nat where "SPEC_PREC = UNARYPREC + 4"
definition TOK_NUM :: nat where "TOK_NUM = tok_decl SPEC_PREC 0"
definition TOK_RPAREN :: nat where "TOK_RPAREN = tok_decl SPEC_PREC 1"

lemmas tok_defs = TOK_LPAREN_def TOK_COMMA_def TOK_ASSIGN_def TOK_AND_ASSIGN_def TOK_OR_ASSIGN_def
  TOK_XOR_ASSIGN_def TOK_PLUS_ASSIGN_def TOK_MINUS_ASSIGN_def TOK_LSHIFT_ASSIGN_def
  TOK_RSHIFT_ASSIGN_def TOK_MUL_ASSIGN_def TOK_DIV_ASSIGN_def TOK_REM_ASSIGN_def TOK_CONDITIONAL_def
  TOK_CONDITIONAL_SEP_def TOK_OR_def TOK_AND_def TOK_BOR_def TOK_BXOR_def TOK_BAND_def TOK_EQ_def
  TOK_NE_def TOK_LT_def TOK_GT_def TOK_GE_def TOK_LE_def TOK_LSHIFT_def TOK_RSHIFT_def TOK_ADD_def
  TOK_SUB_def TOK_MUL_def TOK_DIV_def TOK_REM_def TOK_EXPONENT_def UNARYPREC_def TOK_BNOT_def
  TOK_NOT_def TOK_UMINUS_def TOK_UPLUS_def PREC_PRE_def TOK_PRE_INC_def TOK_PRE_DEC_def PREC_POST_def
  TOK_POST_INC_def TOK_POST_DEC_def SPEC_PREC_def TOK_NUM_def TOK_RPAREN_def tok_decl_def

definition fix_assignment_prec :: "nat \<Rightarrow> nat" where
  "fix_assignment_prec prec = (if prec = 3 then 2 else prec)"

definition is_assign_op :: "nat \<Rightarrow> bool" where
  "is_assign_op op \<longleftrightarrow>
     (let prec = fix_assignment_prec (PREC op)
      in prec = PREC TOK_ASSIGN \<or> prec = PREC_PRE \<or> prec = PREC_POST)"

definition is_right_associative :: "nat \<Rightarrow> bool" where
  "is_right_associative prec \<longleftrightarrow>
     prec = PREC TOK_ASSIGN \<or> prec = PREC TOK_EXPONENT \<or> prec = PREC TOK_CONDITIONAL"

section \<open>State\<close>

record var_or_num =
  val :: u64
  second_val :: u64
  second_val_present :: nat
  var :: "string option"

record 's arith_state =
  errmsg :: "string option"
  lookupvar :: "'s \<Rightarrow> string \<Rightarrow> string option"
  setvar :: "'s \<Rightarrow> string \<Rightarrow> string \<Rightarrow> 's"
  shell :: 's
  list_of_recursed_names :: "string list"

datatype 'a outcome = Ret 'a | Overrun | Too_deep

fun and_then :: "'a outcome \<Rightarrow> ('a \<Rightarrow> 'b outcome) \<Rightarrow> 'b outcome" where
  "and_then (Ret x) f = f x"
| "and_then Overrun f = Overrun"
| "and_then Too_deep f = Too_deep"

type_synonym 's evaluator = "'s arith_state \<Rightarrow> string \<Rightarrow> ('s arith_state \<times> u64) outcome"

section \<open>Applying operators\<close>

definition syntax_error :: string where
  "syntax_error = ''arithmetic syntax error''"

text \<open>The state, the entry with its value filled in, and the error message.\<close>

definition arith_lookup_val ::
    "'s evaluator \<Rightarrow> 's arith_state \<Rightarrow> var_or_num \<Rightarrow> ('s arith_state \<times> var_or_num \<times> string option) outcome" where
  "arith_lookup_val ev ms t =
     (case var t of
        None \<Rightarrow> Ret (ms, t, None)
      | Some name \<Rightarrow>
          (case lookupvar ms (shell ms) name of
             None \<Rightarrow> Ret (ms, t\<lparr>val := 0\<rparr>, None)
           | Some p \<Rightarrow>
               if name \<in> set (list_of_recursed_names ms)
               then Ret (ms, t, Some ''expression recursion loop detected'')
               else
                 (let cur = list_of_recursed_names ms
                  in and_then (ev (ms\<lparr>list_of_recursed_names := name # cur\<rparr>) p)
                       (\<lambda>(ms, v). let ms = ms\<lparr>list_of_recursed_names := cur\<rparr>
                                  in Ret (ms, t\<lparr>val := v\<rparr>, errmsg ms)))))"

definition bool_val :: "bool \<Rightarrow> u64" where
  "bool_val b = (if b then 1 else 0)"

fun pow_loop :: "nat \<Rightarrow> u64 \<Rightarrow> u64 \<Rightarrow> u64" where
  "pow_loop 0 c rez = c"
| "pow_loop (Suc n) c rez = pow_loop n (c * rez) rez"

definition arith_unary :: "nat \<Rightarrow> u64 \<Rightarrow> u64 option" where
  "arith_unary op rez =
     (if op = TOK_UMINUS then Some (- rez)
      else if op = TOK_NOT then Some (bool_val (rez = 0))
      else if op = TOK_BNOT then Some (NOT rez)
      else if op = TOK_POST_INC \<or> op = TOK_PRE_INC then Some (rez + 1)
      else if op = TOK_POST_DEC \<or> op = TOK_PRE_DEC then Some (rez - 1)
      else if op = TOK_UPLUS then Some rez
      else None)"

definition arith_divide :: "nat \<Rightarrow> u64 \<Rightarrow> u64 \<Rightarrow> u64" where
  "arith_divide op rez right =
     (let right = (if right = - 1 \<and> shl rez 1 = 0 then 1 else right)
      in if op = TOK_DIV \<or> op = TOK_DIV_ASSIGN then word_of_int (sint rez sdiv sint right)
         else word_of_int (sint rez smod sint right))"

text \<open>The cascade on the binary operators: \<open>rez\<close> is the left value, \<open>second\<close> the \<^verbatim>\<open>second_val\<close> of
  the right operand.\<close>

definition arith_binary :: "nat \<Rightarrow> u64 \<Rightarrow> u64 \<Rightarrow> u64 \<Rightarrow> string + u64" where
  "arith_binary op rez right second =
     (if op = TOK_CONDITIONAL then Inr (if rez \<noteq> 0 then right else second)
      else if op = TOK_CONDITIONAL_SEP then Inr rez
      else if op = TOK_BOR \<or> op = TOK_OR_ASSIGN then Inr (rez OR right)
      else if op = TOK_OR then Inr (bool_val (right \<noteq> 0 \<or> rez \<noteq> 0))
      else if op = TOK_BAND \<or> op = TOK_AND_ASSIGN then Inr (rez AND right)
      else if op = TOK_BXOR \<or> op = TOK_XOR_ASSIGN then Inr (rez XOR right)
      else if op = TOK_AND then Inr (bool_val (rez \<noteq> 0 \<and> right \<noteq> 0))
      else if op = TOK_EQ then Inr (bool_val (rez = right))
      else if op = TOK_NE then Inr (bool_val (rez \<noteq> right))
      else if op = TOK_GE then Inr (bool_val (sint rez \<ge> sint right))
      else if op = TOK_RSHIFT \<or> op = TOK_RSHIFT_ASSIGN then Inr (signed_drop_bit (unat right mod 64) rez)
      else if op = TOK_LSHIFT \<or> op = TOK_LSHIFT_ASSIGN then Inr (shl rez (unat right mod 64))
      else if op = TOK_GT then Inr (bool_val (sint rez > sint right))
      else if op = TOK_LT then Inr (bool_val (sint rez < sint right))
      else if op = TOK_LE then Inr (bool_val (sint rez \<le> sint right))
      else if op = TOK_MUL \<or> op = TOK_MUL_ASSIGN then Inr (rez * right)
      else if op = TOK_ADD \<or> op = TOK_PLUS_ASSIGN then Inr (rez + right)
      else if op = TOK_SUB \<or> op = TOK_MINUS_ASSIGN then Inr (rez - right)
      else if op = TOK_ASSIGN \<or> op = TOK_COMMA then Inr right
      else if op = TOK_EXPONENT then
        (if sint right < 0 then Inl ''exponent less than 0'' else Inr (pow_loop (unat right) 1 rez))
      else if right = 0 then Inl ''divide by zero''
      else if op = TOK_DIV \<or> op = TOK_DIV_ASSIGN \<or> op = TOK_REM \<or> op = TOK_REM_ASSIGN
      then Inr (arith_divide op rez right)
      else Inr rez)"

text \<open>The end of \<open>arith_apply\<close>: assignments store, then the entry becomes a plain number.\<close>

definition arith_store ::
    "'s arith_state \<Rightarrow> nat \<Rightarrow> var_or_num \<Rightarrow> u64 \<Rightarrow> 's arith_state \<times> (string + var_or_num)" where
  "arith_store ms op tos rez =
     (if is_assign_op op then
        (case var tos of
           None \<Rightarrow> (ms, Inl syntax_error)
         | Some name \<Rightarrow>
             (let ms = ms\<lparr>shell := setvar ms (shell ms) name (dec_int (sint rez))\<rparr>;
                  rez = (if op = TOK_POST_INC then rez - 1 else if op = TOK_POST_DEC then rez + 1 else rez)
              in (ms, Inr (tos\<lparr>val := rez, var := None\<rparr>))))
      else (ms, Inr (tos\<lparr>val := rez, var := None\<rparr>)))"

definition finish_apply ::
    "'s arith_state \<Rightarrow> nat \<Rightarrow> var_or_num \<Rightarrow> u64 \<Rightarrow> var_or_num list
     \<Rightarrow> ('s arith_state \<times> (string + var_or_num list)) outcome" where
  "finish_apply ms op tos rez rest =
     (case arith_store ms op tos rez of
        (ms, Inl err) \<Rightarrow> Ret (ms, Inl err)
      | (ms, Inr tos) \<Rightarrow> Ret (ms, Inr (tos # rest)))"

definition arith_apply ::
    "'s evaluator \<Rightarrow> 's arith_state \<Rightarrow> nat \<Rightarrow> var_or_num list
     \<Rightarrow> ('s arith_state \<times> (string + var_or_num list)) outcome" where
  "arith_apply ev ms op nums =
     (case nums of
        [] \<Rightarrow> Ret (ms, Inl syntax_error)
      | tos # rest \<Rightarrow>
          and_then (arith_lookup_val ev ms tos) (\<lambda>(ms, tos, err).
            case err of
              Some e \<Rightarrow> Ret (ms, Inl e)
            | None \<Rightarrow>
                (case arith_unary op (val tos) of
                   Some rez \<Rightarrow> finish_apply ms op tos rez rest
                 | None \<Rightarrow>
                     (case rest of
                        [] \<Rightarrow> Ret (ms, Inl syntax_error)
                      | left # rest \<Rightarrow>
                          if (if op = TOK_CONDITIONAL then second_val_present tos = 0 else second_val_present tos \<noteq> 0)
                          then Ret (ms, Inl ''malformed ?: operator'')
                          else
                            and_then (if op \<noteq> TOK_ASSIGN then arith_lookup_val ev ms left else Ret (ms, left, None))
                              (\<lambda>(ms, left, err).
                                 case err of
                                   Some e \<Rightarrow> Ret (ms, Inl e)
                                 | None \<Rightarrow>
                                     if op = TOK_CONDITIONAL_SEP \<and> rest = []
                                     then Ret (ms, Inl ''malformed ?: operator'')
                                     else
                                       (let left' = (if op = TOK_CONDITIONAL_SEP
                                                     then left\<lparr>second_val_present := op, second_val := val tos\<rparr>
                                                     else left)
                                        in case arith_binary op (val left) (val tos) (second_val tos) of
                                             Inl e \<Rightarrow> Ret (ms, Inl e)
                                           | Inr rez \<Rightarrow> finish_apply ms op left' rez rest))))))"

section \<open>Reading tokens\<close>

definition op_tokens :: "(string \<times> nat) list" where
  "op_tokens =
     [(''<<='', TOK_LSHIFT_ASSIGN), (''>>='', TOK_RSHIFT_ASSIGN), (''<<'', TOK_LSHIFT),
      (''>>'', TOK_RSHIFT), (''||'', TOK_OR), (''&&'', TOK_AND), (''!='', TOK_NE), (''<='', TOK_LE),
      (''>='', TOK_GE), (''=='', TOK_EQ), (''|='', TOK_OR_ASSIGN), (''&='', TOK_AND_ASSIGN),
      (''*='', TOK_MUL_ASSIGN), (''/='', TOK_DIV_ASSIGN), (''%='', TOK_REM_ASSIGN),
      (''+='', TOK_PLUS_ASSIGN), (''-='', TOK_MINUS_ASSIGN), (''--'', TOK_POST_DEC),
      (''^='', TOK_XOR_ASSIGN), (''++'', TOK_POST_INC), (''**'', TOK_EXPONENT), (''!'', TOK_NOT),
      (''<'', TOK_LT), (''>'', TOK_GT), (''='', TOK_ASSIGN), (''|'', TOK_BOR), (''&'', TOK_BAND),
      (''*'', TOK_MUL), (''/'', TOK_DIV), (''%'', TOK_REM), (''+'', TOK_ADD), (''-'', TOK_SUB),
      (''^'', TOK_BXOR), (''~'', TOK_BNOT), ('','', TOK_COMMA), (''?'', TOK_CONDITIONAL),
      ('':'', TOK_CONDITIONAL_SEP), ('')'', TOK_RPAREN), (''('', TOK_LPAREN)]"

text \<open>Comparing the text with one table entry: the rest after it.\<close>

fun match_op :: "string \<Rightarrow> string \<Rightarrow> string option" where
  "match_op [] e = Some e"
| "match_op (p # ps) [] = None"
| "match_op (p # ps) (c # e) = (if p = c then match_op ps e else None)"

fun find_op :: "(string \<times> nat) list \<Rightarrow> string \<Rightarrow> (nat \<times> string) option" where
  "find_op [] expr = None"
| "find_op ((p, tok) # ops) expr =
     (case match_op p expr of Some e \<Rightarrow> Some (tok, e) | None \<Rightarrow> find_op ops expr)"

text \<open>A \<^verbatim>\<open>char\<close> converted to \<^verbatim>\<open>unsigned\<close>, sign extended.\<close>

definition char_unsigned :: "char \<Rightarrow> u32" where
  "char_unsigned c = scast (of_nat (code c) :: u8)"

definition base_digit :: "u32 \<Rightarrow> char \<Rightarrow> u32 option" where
  "base_digit base c =
     (let digit = char_unsigned c - 48
      in if digit \<ge> 10 \<and> digit \<le> 122 - 48 then
           (let digit = (char_unsigned c OR 0x20) - (97 - 10)
            in if base > 36 \<and> code c \<le> (95::nat) then
                 (if c = CHR ''_'' then Some 63
                  else if c = CHR ''@'' then Some 62
                  else if digit < 36 then Some (digit + (36 - 10))
                  else None)
               else Some digit)
         else Some digit)"

fun base_loop :: "u32 \<Rightarrow> string \<Rightarrow> u64 \<Rightarrow> u64 \<times> string" where
  "base_loop base [] n = (n, [])"
| "base_loop base (c # nptr) n =
     (case base_digit base c of
        None \<Rightarrow> (n, c # nptr)
      | Some digit \<Rightarrow> if digit \<ge> base then (n, c # nptr) else base_loop base nptr (n * ucast base + ucast digit))"

text \<open>Value, end pointer and whether \<^verbatim>\<open>errno\<close> was set.\<close>

definition strto_arith_t :: "string \<Rightarrow> u64 \<times> string \<times> bool" where
  "strto_arith_t nptr =
     (case strtoull nptr 0 of
        (n, endptr, err) \<Rightarrow>
          if peek endptr \<noteq> CHR ''#'' \<or> (code (peek nptr) < (49::nat) \<or> code (peek nptr) > (57::nat))
             \<or> (sint n < 2 \<or> sint n > 64)
          then (n, endptr, err)
          else (case base_loop (ucast n) (tl endptr) 0 of (n, endptr) \<Rightarrow> (n, endptr, err)))"

text \<open>\<^verbatim>\<open>libbb/endofname.c\<close>: the name at the start of the text, if any, and the rest.\<close>

definition is_name :: "char \<Rightarrow> bool" where
  "is_name c \<longleftrightarrow> c = CHR ''_'' \<or> isalpha c"

definition is_in_name :: "char \<Rightarrow> bool" where
  "is_in_name c \<longleftrightarrow> c = CHR ''_'' \<or> isalnum c"

definition endofname :: "string \<Rightarrow> string \<times> string" where
  "endofname name =
     (case name of
        [] \<Rightarrow> ([], [])
      | c # s \<Rightarrow> if \<not> is_name c then ([], name) else (c # takeWhile is_in_name s, dropWhile is_in_name s))"

datatype token = Name string | Number u64 | Operator nat | Bad_token

text \<open>The token at a text that is not empty and does not start with white space, and the rest.
  \<open>after_number\<close> is the condition of the special case for \<^verbatim>\<open>++\<close> and \<^verbatim>\<open>--\<close>: the last
  token was a number or right parenthesis and the top of the number stack has no variable.\<close>

definition next_token :: "bool \<Rightarrow> string \<Rightarrow> token \<times> string" where
  "next_token after_number expr =
     (case endofname expr of
        (name, rest) \<Rightarrow>
          if name \<noteq> [] then (Name name, rest)
          else if isdigit (peek expr) then
            (case strto_arith_t expr of (v, rest, err) \<Rightarrow> (Number (if err then 0 else v), rest))
          else if after_number \<and> (peek expr = CHR ''+'' \<or> peek expr = CHR ''-'') \<and> peek_at expr 1 = peek expr
          then (Operator (if peek expr = CHR ''+'' then TOK_ADD else TOK_SUB), tl expr)
          else (case find_op op_tokens expr of
                  Some (op, rest) \<Rightarrow> (Operator op, rest)
                | None \<Rightarrow> (Bad_token, expr)))"

section \<open>The evaluator\<close>

definition unary_form :: "nat \<Rightarrow> nat" where
  "unary_form op =
     (if op = TOK_ADD then TOK_UPLUS
      else if op = TOK_SUB then TOK_UMINUS
      else if op = TOK_POST_INC then TOK_PRE_INC
      else if op = TOK_POST_DEC then TOK_PRE_DEC
      else op)"

datatype popped = Closed "var_or_num list" "nat list" | Stopped "var_or_num list" "nat list" | Failed string

text \<open>The loop that pops and applies operators: it stops at an operator that binds less tightly, for a
  right parenthesis at the left one, or when the stack is empty.\<close>

fun pop_ops ::
    "'s evaluator \<Rightarrow> nat \<Rightarrow> 's arith_state \<Rightarrow> var_or_num list \<Rightarrow> nat list \<Rightarrow> ('s arith_state \<times> popped) outcome" where
  "pop_ops ev op ms nums [] = Ret (ms, if op = TOK_RPAREN then Failed syntax_error else Stopped nums [])"
| "pop_ops ev op ms nums (prev_op # stack) =
     (let prec = fix_assignment_prec (PREC op);
          prev_prec = fix_assignment_prec (PREC prev_op)
      in if op = TOK_RPAREN \<and> prev_op = TOK_LPAREN then Ret (ms, Closed nums stack)
         else if op \<noteq> TOK_RPAREN \<and> (prev_prec < prec \<or> prev_prec = prec \<and> is_right_associative prec)
         then Ret (ms, Stopped nums (prev_op # stack))
         else and_then (arith_apply ev ms prev_op nums) (\<lambda>(ms, r).
                case r of
                  Inl err \<Rightarrow> Ret (ms, Failed err)
                | Inr nums \<Rightarrow> pop_ops ev op ms nums stack))"

text \<open>What happens to an operator token: the new stacks and last token, or an error.\<close>

definition do_operator ::
    "'s evaluator \<Rightarrow> 's arith_state \<Rightarrow> nat \<Rightarrow> nat \<Rightarrow> var_or_num list \<Rightarrow> nat list
     \<Rightarrow> ('s arith_state \<times> (string + var_or_num list \<times> nat list \<times> nat)) outcome" where
  "do_operator ev ms op lasttok nums stack =
     (let lasttok = (if lasttok = TOK_POST_INC \<or> lasttok = TOK_POST_DEC then TOK_NUM else lasttok);
          op = (if lasttok \<noteq> TOK_NUM then unary_form op else op);
          prec = PREC op
      in if prec > 0 \<and> prec < UNARYPREC \<or> prec = SPEC_PREC then
           (if lasttok \<noteq> TOK_NUM then Ret (ms, Inl syntax_error)
            else and_then (pop_ops ev op ms nums stack) (\<lambda>(ms, r).
              case r of
                Failed err \<Rightarrow> Ret (ms, Inl err)
              | Closed nums stack \<Rightarrow> Ret (ms, Inr (nums, stack, TOK_NUM))
              | Stopped nums stack \<Rightarrow> Ret (ms, Inr (nums, op # stack, op))))
         else Ret (ms, Inr (nums, op # stack, op)))"

text \<open>Where the scanner is: in the expression, before or after the closing parenthesis it adds.\<close>

datatype position = In_expr string | At_rparen | Past_rparen

fun text_at :: "position \<Rightarrow> string" where
  "text_at (In_expr s) = s"
| "text_at At_rparen = '')''"
| "text_at Past_rparen = []"

fun move_to :: "position \<Rightarrow> string \<Rightarrow> position" where
  "move_to (In_expr s) rest = In_expr rest"
| "move_to At_rparen rest = (if rest = [] then Past_rparen else At_rparen)"
| "move_to Past_rparen rest = Past_rparen"

fun togo :: "position \<Rightarrow> nat" where
  "togo (In_expr s) = length s + 2"
| "togo At_rparen = 1"
| "togo Past_rparen = 0"

definition give_up :: "'s arith_state \<Rightarrow> string \<Rightarrow> ('s arith_state \<times> u64) outcome" where
  "give_up ms err = Ret (ms\<lparr>errmsg := Some err\<rparr>, - 1)"

definition new_number :: "u64 \<Rightarrow> var_or_num" where
  "new_number v = \<lparr>val = v, second_val = 0, second_val_present = 0, var = None\<rparr>"

definition new_name :: "string \<Rightarrow> var_or_num" where
  "new_name name = \<lparr>val = 0, second_val = 0, second_val_present = 0, var = Some name\<rparr>"

subsection \<open>Every token is shorter than the text it starts\<close>

lemma skip_whitespace_length: "length (skip_whitespace s) \<le> length s"
  by (induction s) (auto intro: le_SucI)

lemma scan_digits_length: "length (snd (scan_digits b s acc)) \<le> length s"
  by (induction b s acc rule: scan_digits.induct) (auto split: option.split intro: le_SucI)

lemma scan_digits_progress:
  assumes "is_digit_of b (peek s)"
  shows "length (snd (scan_digits b s acc)) < length s"
proof (cases s)
  case Nil
  then show ?thesis using assms by (simp add: is_digit_of_def digit_val_def ctype_defs)
next
  case (Cons c t)
  then obtain d where "digit_val c = Some d" "d < b"
    using assms by (auto simp: is_digit_of_def split: option.splits)
  then show ?thesis using Cons scan_digits_length [of b t "acc * b + d"] by simp
qed

lemma strto_scan_progress: "strto_scan s base = Some (neg, v, rest) \<Longrightarrow> length rest < length s"
proof -
  assume h: "strto_scan s base = Some (neg, v, rest)"
  define s1 where "s1 = dropWhile isspace s"
  define s2 where "s2 = (if peek s1 = CHR ''-'' \<or> peek s1 = CHR ''+'' then tl s1 else s1)"
  define hx where "hx = ((base = 0 \<or> base = 16) \<and> peek s2 = CHR ''0''
                 \<and> (peek_at s2 1 = CHR ''x'' \<or> peek_at s2 1 = CHR ''X'') \<and> is_digit_of 16 (peek_at s2 2))"
  define b where "b = (if hx then 16 else if base = 0 then (if peek s2 = CHR ''0'' then 8 else 10) else base)"
  define s3 where "s3 = (if hx then drop 2 s2 else s2)"
  have "is_digit_of b (peek s3)" "scan_digits b s3 0 = (v, rest)"
    using h unfolding strto_scan_def Let_def s1_def [symmetric] s2_def [symmetric] hx_def [symmetric]
      b_def [symmetric] s3_def [symmetric] by (auto split: if_splits prod.splits)
  then have "length rest < length s3" using scan_digits_progress [of b s3 0] by simp
  moreover have "length s3 \<le> length s2" "length s2 \<le> length s1" "length s1 \<le> length s"
    by (simp_all only: s3_def s2_def s1_def length_dropWhile_le length_drop length_tl split: if_split) auto
  ultimately show ?thesis by simp
qed

lemma strto_scan_base0:
  assumes "isdigit (peek s)"
  shows "strto_scan s 0 \<noteq> None"
proof -
  obtain c t where s: "s = c # t" "isdigit c" using assms by (cases s) auto
  have "\<not> isspace c" "c \<noteq> CHR ''-''" "c \<noteq> CHR ''+''" using s(2) by (auto simp: ctype_defs)
  then have d: "dropWhile isspace s = s" "peek s \<noteq> CHR ''-''" "peek s \<noteq> CHR ''+''" using s by simp_all
  have ten: "is_digit_of 10 c" using s(2) by (auto simp: is_digit_of_def digit_val_def isdigit_def)
  have eight: "is_digit_of 8 (CHR ''0'')" by (simp add: is_digit_of_def digit_val_def isdigit_def)
  have hex: "is_digit_of 16 (peek (drop 2 s))" if "is_digit_of 16 (peek_at s 2)"
    using that by (cases "drop 2 s") (auto simp: peek_at_def nth_via_drop split: if_splits)
  show ?thesis
    using ten eight hex s(1) d by (auto simp: strto_scan_def Let_def split: prod.split)
qed

lemma base_loop_length: "length (snd (base_loop b s n)) \<le> length s"
  by (induction b s n rule: base_loop.induct) (auto split: option.split intro: le_SucI)

lemma strto_arith_t_progress:
  assumes "isdigit (peek s)"
  shows "length (fst (snd (strto_arith_t s))) < length s"
proof -
  obtain neg v rest where x: "strto_scan s 0 = Some (neg, v, rest)" using strto_scan_base0 [OF assms] by auto
  then obtain n err where y: "strtoull s 0 = (n, rest, err)"
    by (cases "v < 2 ^ 64") (auto simp: strtoull_def)
  show ?thesis
    using strto_scan_progress [OF x] base_loop_length [of "ucast n" "tl rest" 0] y
    by (auto simp: strto_arith_t_def split: prod.splits)
qed

lemma match_op_progress: "match_op p s = Some rest \<Longrightarrow> p \<noteq> [] \<Longrightarrow> length rest < length s"
proof (induction p s rule: match_op.induct)
  case (3 p ps c e)
  then show ?case by (cases ps) (auto split: if_splits)
qed simp_all

lemma find_op_progress:
  "find_op tbl s = Some (op, rest) \<Longrightarrow> list_all (\<lambda>(p, tok). p \<noteq> []) tbl \<Longrightarrow> length rest < length s"
  by (induction tbl s rule: find_op.induct) (auto dest: match_op_progress split: option.splits)

lemma next_token_progress:
  assumes "next_token a s = (tok, rest)" "tok \<noteq> Bad_token" "s \<noteq> []"
  shows "length rest < length s"
proof -
  obtain c t where s: "s = c # t" using assms(3) by (cases s) auto
  have tbl: "list_all (\<lambda>(p, tok). p \<noteq> []) op_tokens" by (simp add: op_tokens_def)
  consider (name) "is_name c" | (num) "\<not> is_name c" "isdigit c" | (op) "\<not> is_name c" "\<not> isdigit c" by blast
  then show ?thesis
  proof cases
    case name
    then show ?thesis
      using assms s by (auto simp: next_token_def endofname_def length_dropWhile_le le_imp_less_Suc)
  next
    case num
    then show ?thesis
      using assms s strto_arith_t_progress [of s] by (auto simp: next_token_def endofname_def split: prod.splits)
  next
    case op
    then show ?thesis
      using assms s find_op_progress [OF _ tbl, of s]
      by (auto simp: next_token_def endofname_def split: if_splits option.splits)
  qed
qed

lemma move_progress:
  assumes "next_token a (skip_whitespace (text_at pos)) = (tok, rest)" "tok \<noteq> Bad_token"
    "skip_whitespace (text_at pos) \<noteq> []"
  shows "togo (move_to pos rest) < togo pos"
  using next_token_progress [OF assms] skip_whitespace_length [of "text_at pos"] by (cases pos) auto

subsection \<open>The main loop\<close>

function (sequential) eval_loop ::
    "'s evaluator \<Rightarrow> nat \<Rightarrow> bool \<Rightarrow> 's arith_state \<Rightarrow> position \<Rightarrow> var_or_num list \<Rightarrow> nat list \<Rightarrow> nat
     \<Rightarrow> ('s arith_state \<times> u64) outcome" where
  "eval_loop ev expr_len at_start ms pos nums stack lasttok =
     (let expr = skip_whitespace (text_at pos)
      in if expr = [] then
           (case pos of
              Past_rparen \<Rightarrow>
                (case nums of
                   [t] \<Rightarrow> and_then (arith_lookup_val ev ms t) (\<lambda>(ms, t, err). Ret (ms\<lparr>errmsg := err\<rparr>, val t))
                 | _ \<Rightarrow> give_up ms syntax_error)
            | In_expr s \<Rightarrow>
                if at_start then Ret (ms\<lparr>errmsg := None\<rparr>, 0)
                else eval_loop ev expr_len at_start ms At_rparen nums stack lasttok
            | At_rparen \<Rightarrow> give_up ms syntax_error)
         else
           (case next_token (lasttok = TOK_NUM \<and> (nums = [] \<or> var (hd nums) = None)) expr of
              (Name name, rest) \<Rightarrow>
                if length nums \<ge> expr_len div 2 then Overrun
                else eval_loop ev expr_len at_start ms (move_to pos rest) (new_name name # nums) stack TOK_NUM
            | (Number v, rest) \<Rightarrow>
                if length nums \<ge> expr_len div 2 then Overrun
                else eval_loop ev expr_len at_start ms (move_to pos rest) (new_number v # nums) stack TOK_NUM
            | (Operator op, rest) \<Rightarrow>
                and_then (do_operator ev ms op lasttok nums stack) (\<lambda>(ms, r).
                  case r of
                    Inl err \<Rightarrow> give_up ms err
                  | Inr (nums, stack, lasttok) \<Rightarrow>
                      if length stack > expr_len then Overrun
                      else eval_loop ev expr_len at_start ms (move_to pos rest) nums stack lasttok)
            | (Bad_token, rest) \<Rightarrow> give_up ms syntax_error))"
  by pat_completeness auto

termination
  by (relation "measure (\<lambda>(ev, l, b, ms, pos, nums, stack, lasttok). togo pos)")
    (auto intro: move_progress [OF sym])

declare eval_loop.simps [simp del]

fun evaluate_string :: "nat \<Rightarrow> 's evaluator" where
  "evaluate_string 0 ms expr = Too_deep"
| "evaluate_string (Suc depth) ms expr =
     (let expr = skip_whitespace expr;
          expr_len = length expr + 2
      in eval_loop (evaluate_string depth) expr_len (expr = []) ms (In_expr expr) [] [TOK_LPAREN] TOK_LPAREN)"

definition arith :: "nat \<Rightarrow> 's evaluator" where
  "arith depth ms expr = evaluate_string depth (ms\<lparr>errmsg := None, list_of_recursed_names := []\<rparr>) expr"

end
