(* ===== verification/Sh_Math_Correct.thy ===== *)
theory Sh_Math_Correct
  imports Sh_Math
begin

text \<open>
  Correctness of the shell arithmetic evaluator.  Expressions of its grammar are trees; printed with
  the fewest parentheses that the precedences allow, \<open>arith\<close> does on their text exactly what a walk of
  the tree in post-order does, for every operator, with all side effects and errors.  On expressions
  without side effects that walk computes the value the operators have on 64-bit integers.
\<close>

section \<open>Expressions\<close>

datatype expr =
    Num nat
  | Name_ref string
  | Uop nat expr
  | Post nat string
  | Bop nat expr expr
  | Cond expr expr expr

definition unary_ops :: "nat list" where
  "unary_ops = [TOK_UMINUS, TOK_UPLUS, TOK_NOT, TOK_BNOT, TOK_PRE_INC, TOK_PRE_DEC]"

definition postfix_ops :: "nat list" where
  "postfix_ops = [TOK_POST_INC, TOK_POST_DEC]"

definition binary_ops :: "nat list" where
  "binary_ops = filter (\<lambda>op. 0 < PREC op \<and> PREC op < 16 \<and> PREC op \<noteq> 4) (map snd op_tokens)"

definition is_ident :: "string \<Rightarrow> bool" where
  "is_ident x \<longleftrightarrow> x \<noteq> [] \<and> is_name (hd x) \<and> list_all is_in_name (tl x)"

fun wf :: "expr \<Rightarrow> bool" where
  "wf (Num n) \<longleftrightarrow> n < 2 ^ 64"
| "wf (Name_ref x) \<longleftrightarrow> is_ident x"
| "wf (Uop op a) \<longleftrightarrow> op \<in> set unary_ops \<and> wf a"
| "wf (Post op x) \<longleftrightarrow> op \<in> set postfix_ops \<and> is_ident x"
| "wf (Bop op a b) \<longleftrightarrow> op \<in> set binary_ops \<and> wf a \<and> wf b"
| "wf (Cond a b c) \<longleftrightarrow> wf a \<and> wf b \<and> wf c"

text \<open>The text of an operator, and the binary form under which the scanner finds a unary one.\<close>

definition spelling :: "nat \<Rightarrow> string" where
  "spelling op = (case filter (\<lambda>(s, t). unary_form t = op \<or> t = op) op_tokens of [] \<Rightarrow> [] | (s, t) # _ \<Rightarrow> s)"

definition level :: "nat \<Rightarrow> nat" where
  "level op = fix_assignment_prec (PREC op)"

definition left_level :: "nat \<Rightarrow> nat" where
  "left_level op = (if is_right_associative (level op) then level op + 1 else level op)"

definition right_level :: "nat \<Rightarrow> nat" where
  "right_level op = (if is_right_associative (level op) then level op else level op + 1)"

fun prec_of :: "expr \<Rightarrow> nat" where
  "prec_of (Bop op a b) = level op"
| "prec_of (Cond a b c) = 4"
| "prec_of e = 16"

text \<open>The tokens, each followed by a space; an operand that binds less tightly than its place demands is
  put in parentheses.\<close>

definition tok :: "string \<Rightarrow> string" where
  "tok s = s @ '' ''"

definition parens :: "bool \<Rightarrow> string \<Rightarrow> string" where
  "parens b s = (if b then tok ''('' @ s @ tok '')'' else s)"

fun body :: "expr \<Rightarrow> string" where
  "body (Num n) = tok (dec_nat n)"
| "body (Name_ref x) = tok x"
| "body (Uop op a) = tok (spelling op) @ parens (prec_of a < 16) (body a)"
| "body (Post op x) = tok x @ tok (spelling op)"
| "body (Bop op a b) = parens (prec_of a < left_level op) (body a) @ tok (spelling op)
     @ parens (prec_of b < right_level op) (body b)"
| "body (Cond a b c) = parens (prec_of a < 5) (body a) @ tok ''?'' @ parens (prec_of b < 5) (body b)
     @ tok '':'' @ parens (prec_of c < 4) (body c)"

abbreviation print_at :: "nat \<Rightarrow> expr \<Rightarrow> string" where
  "print_at p e \<equiv> parens (prec_of e < p) (body e)"

section \<open>The walk in post-order\<close>

datatype rpn = Push var_or_num | App nat

fun postorder :: "expr \<Rightarrow> rpn list" where
  "postorder (Num n) = [Push (new_number (of_nat n))]"
| "postorder (Name_ref x) = [Push (new_name x)]"
| "postorder (Uop op a) = postorder a @ [App op]"
| "postorder (Post op x) = [Push (new_name x), App op]"
| "postorder (Bop op a b) = postorder a @ postorder b @ [App op]"
| "postorder (Cond a b c) = postorder a @ postorder b @ postorder c @ [App TOK_CONDITIONAL_SEP, App TOK_CONDITIONAL]"

definition next_do ::
    "('s arith_state \<times> (string + var_or_num list)) outcome
     \<Rightarrow> ('s arith_state \<Rightarrow> string \<Rightarrow> 'r outcome) \<Rightarrow> ('s arith_state \<Rightarrow> var_or_num list \<Rightarrow> 'r outcome) \<Rightarrow> 'r outcome" where
  "next_do r fail k = and_then r (\<lambda>(ms, r). case r of Inl err \<Rightarrow> fail ms err | Inr nums \<Rightarrow> k ms nums)"

abbreviation failed :: "'s arith_state \<Rightarrow> string \<Rightarrow> ('s arith_state \<times> (string + var_or_num list)) outcome" where
  "failed ms err \<equiv> Ret (ms, Inl err)"

fun walk :: "'s evaluator \<Rightarrow> rpn list \<Rightarrow> 's arith_state \<Rightarrow> var_or_num list
     \<Rightarrow> ('s arith_state \<times> (string + var_or_num list)) outcome" where
  "walk ev [] ms nums = Ret (ms, Inr nums)"
| "walk ev (Push t # rpns) ms nums = walk ev rpns ms (t # nums)"
| "walk ev (App op # rpns) ms nums = next_do (arith_apply ev ms op nums) failed (walk ev rpns)"

lemma next_do_Ret [simp]:
  "next_do (Ret (ms, Inl err)) fail k = fail ms err"
  "next_do (Ret (ms, Inr nums)) fail k = k ms nums"
  "next_do Overrun fail k = Overrun"
  "next_do Too_deep fail k = Too_deep"
  by (simp_all add: next_do_def)

lemma next_do_cases [case_names err ok over deep]:
  obtains (err) ms err where "r = Ret (ms, Inl err)" | (ok) ms nums where "r = Ret (ms, Inr nums)"
    | (over) "r = Overrun" | (deep) "r = Too_deep"
  by (metis outcome.exhaust prod.exhaust sum.exhaust)

lemma next_do_assoc: "next_do (next_do r failed f) fail k = next_do r fail (\<lambda>ms nums. next_do (f ms nums) fail k)"
  by (cases r rule: next_do_cases) simp_all

lemma next_do_cong:
  assumes "r = r'" "\<And>ms nums. r' = Ret (ms, Inr nums) \<Longrightarrow> k ms nums = k' ms nums"
  shows "next_do r fail k = next_do r' fail k'"
  using assms by (cases r' rule: next_do_cases) auto

lemma walk_append: "walk ev (a @ b) ms nums = next_do (walk ev a ms nums) failed (walk ev b)"
  by (induction ev a ms nums rule: walk.induct) (simp_all add: next_do_assoc cong: next_do_cong)

section \<open>The scanner on spaced tokens\<close>

lemma skip_whitespace_id: "\<not> isspace (peek s) \<Longrightarrow> skip_whitespace s = s"
proof (cases s)
  case (Cons c t)
  assume "\<not> isspace (peek s)"
  then have "code c \<noteq> (32::nat)" "\<not> (9 \<le> code c \<and> code c \<le> (13::nat))" using Cons by (auto simp: isspace_def)
  moreover have "code c < (256::nat)" by simp
  ultimately have "\<not> ((of_nat (code c) - 9 :: u8) \<le> 13 - 9)" "c \<noteq> CHR '' ''"
    by (auto simp: word_le_nat_alt unat_sub_if' unat_of_nat)
  then show ?thesis using Cons by simp
qed simp

lemma spellings:
  "list_all (\<lambda>(s, op). find_op op_tokens (s @ '' '' @ rest) = Some (op, '' '' @ rest) \<and> s \<noteq> []
      \<and> \<not> isspace (hd s) \<and> \<not> isdigit (hd s) \<and> \<not> is_name (hd s)) op_tokens"
  by (simp add: op_tokens_def is_name_def ctype_defs)

lemma loop_space: "eval_loop ev l b ms (In_expr (CHR '' '' # s)) nums stack lasttok = eval_loop ev l b ms (In_expr s) nums stack lasttok"
  by (rule trans [OF eval_loop.simps trans [OF _ eval_loop.simps [symmetric]]])
    (unfold move_to.simps text_at.simps position.case, simp)

lemma scan_rest: "list_all P x \<Longrightarrow> \<not> P c \<Longrightarrow> takeWhile P (x @ c # rest) = x \<and> dropWhile P (x @ c # rest) = c # rest"
  by (induction x) simp_all

lemma endofname_ident: "is_ident x \<Longrightarrow> endofname (x @ '' '' @ rest) = (x, '' '' @ rest)"
  using scan_rest [of is_in_name "tl x" "CHR '' ''" rest]
  by (cases x) (auto simp: is_ident_def endofname_def is_in_name_def ctype_defs)

lemma is_name_not_space: "is_name c \<Longrightarrow> \<not> isspace c"
  by (auto simp: is_name_def ctype_defs)

lemma loop_name:
  assumes "is_ident x" "2 * length nums + 2 \<le> l"
  shows "eval_loop ev l b ms (In_expr (tok x @ rest)) nums stack lasttok
     = eval_loop ev l b ms (In_expr rest) (new_name x # nums) stack TOK_NUM"
proof -
  have x: "x \<noteq> []" "is_name (hd x)" using assms(1) by (auto simp: is_ident_def)
  then have "skip_whitespace (tok x @ rest) = tok x @ rest"
    by (intro skip_whitespace_id) (cases x, auto simp: tok_def is_name_not_space)
  moreover have "next_token f (tok x @ rest) = (Name x, '' '' @ rest)" for f
    using endofname_ident [OF assms(1), of rest] x by (simp add: next_token_def tok_def)
  moreover have "\<not> length nums \<ge> l div 2" using assms(2) by simp
  ultimately show ?thesis
    by (subst eval_loop.simps) (simp add: loop_space tok_def)
qed

lemma dec_nat_first: "0 < n \<Longrightarrow> peek (dec_nat n @ rest) \<noteq> CHR ''0''"
proof (induction n arbitrary: rest rule: dec_nat.induct)
  case (1 n)
  show ?case
  proof (cases "n < 10")
    case True
    then have "code (char_of (48 + n)) = 48 + n" by simp
    then have "char_of (48 + n) \<noteq> CHR ''0''" using 1(2) by (auto dest: arg_cong [of _ _ code])
    then show ?thesis using True by (subst dec_nat.simps) simp
  next
    case False
    then show ?thesis using 1(1) [of "char_of (48 + n mod 10) # rest"] by (subst dec_nat.simps) simp
  qed
qed

lemma strto_arith_t_dec:
  assumes "n < 2 ^ 64"
  shows "strto_arith_t (dec_nat n @ '' '' @ rest) = (of_nat n, '' '' @ rest, False)"
proof -
  let ?r = "'' '' @ rest"
  have "strto_scan (dec_nat n @ ?r) 0 = Some (False, n, ?r)"
  proof (cases "n = 0")
    case True
    have "dec_nat 0 = ''0''" by (simp add: dec_nat.simps char_of_def bit_0)
    then show ?thesis using True by (simp add: strto_scan_def Let_def is_digit_of_def digit_val_def ctype_defs)
  next
    case False
    then have "peek (dec_nat n @ ?r) \<noteq> CHR ''0''" by (intro dec_nat_first) simp
    moreover have "scan_digits 10 (dec_nat n @ ?r) 0 = (n, ?r)"
      by (rule scan_dec_nat_rest) (simp add: isdigit_def)
    moreover have "is_digit_of 10 (peek (dec_nat n @ ?r))"
      by (rule dec_nat_head [of n]) (auto simp: is_digit_of_def digit_val_def isdigit_def)
    moreover have "dropWhile isspace (dec_nat n @ ?r) = dec_nat n @ ?r"
      using peek_dec_nat(4) [of n ?r] by (cases "dec_nat n") auto
    ultimately show ?thesis
      using peek_dec_nat [of n ?r] by (simp add: strto_scan_def Let_def)
  qed
  then have "strtoull (dec_nat n @ ?r) 0 = (of_nat n, ?r, False)" using assms by (simp add: strtoull_def)
  then show ?thesis by (simp add: strto_arith_t_def)
qed

lemma loop_number:
  assumes "n < 2 ^ 64" "2 * length nums + 2 \<le> l"
  shows "eval_loop ev l b ms (In_expr (tok (dec_nat n) @ rest)) nums stack lasttok
     = eval_loop ev l b ms (In_expr rest) (new_number (of_nat n) # nums) stack TOK_NUM"
proof -
  obtain c s where c: "dec_nat n = c # s" "isdigit c" by (rule dec_nat_head)
  then have n: "\<not> is_name c" "\<not> isspace c" by (auto simp: is_name_def ctype_defs)
  have "skip_whitespace (tok (dec_nat n) @ rest) = tok (dec_nat n) @ rest"
    using n c by (intro skip_whitespace_id) (simp add: tok_def)
  moreover have "next_token f (tok (dec_nat n) @ rest) = (Number (of_nat n), '' '' @ rest)" for f
    using strto_arith_t_dec [OF assms(1), of rest] c n by (simp add: next_token_def tok_def endofname_def)
  moreover have "\<not> length nums \<ge> l div 2" using assms(2) by simp
  ultimately show ?thesis
    by (subst eval_loop.simps) (simp add: loop_space tok_def)
qed

definition after_operator ::
    "'s evaluator \<Rightarrow> nat \<Rightarrow> bool \<Rightarrow> string \<Rightarrow> 's arith_state \<times> (string + var_or_num list \<times> nat list \<times> nat)
      \<Rightarrow> ('s arith_state \<times> u64) outcome" where
  "after_operator ev l b rest = (\<lambda>(ms, r).
     case r of
       Inl err \<Rightarrow> give_up ms err
     | Inr (nums, stack, lasttok) \<Rightarrow>
         if length stack > l then Overrun else eval_loop ev l b ms (In_expr rest) nums stack lasttok)"

lemma after_operator_space: "after_operator ev l b (CHR '' '' # rest) = after_operator ev l b rest"
  unfolding after_operator_def loop_space ..

lemma loop_operator:
  assumes "(s, op) \<in> set op_tokens"
    and "lasttok = TOK_NUM \<and> (nums = [] \<or> var (hd nums) = None) \<Longrightarrow> s \<noteq> ''++'' \<and> s \<noteq> ''--''"
  shows "eval_loop ev l b ms (In_expr (tok s @ rest)) nums stack lasttok
     = and_then (do_operator ev ms op lasttok nums stack) (after_operator ev l b rest)"
proof -
  let ?f = "lasttok = TOK_NUM \<and> (nums = [] \<or> var (hd nums) = None)"
  have s: "find_op op_tokens (s @ '' '' @ rest) = Some (op, '' '' @ rest)" "s \<noteq> []"
    "\<not> isspace (hd s)" "\<not> isdigit (hd s)" "\<not> is_name (hd s)"
    using spellings [of rest] assms(1) by (auto simp: list_all_iff)
  then have "skip_whitespace (tok s @ rest) = tok s @ rest"
    by (intro skip_whitespace_id) (cases s, auto simp: tok_def)
  moreover have "\<not> (?f \<and> (peek (tok s @ rest) = CHR ''+'' \<or> peek (tok s @ rest) = CHR ''-'') \<and> peek_at (tok s @ rest) 1 = peek (tok s @ rest))"
    using assms by (auto simp: op_tokens_def tok_def peek_at_def)
  then have "next_token ?f (tok s @ rest) = (Operator op, '' '' @ rest)"
    using s by (cases s) (auto simp: next_token_def tok_def endofname_def)
  moreover have "tok s \<noteq> []" by (simp add: tok_def)
  ultimately show ?thesis
    by (subst after_operator_space [symmetric], unfold after_operator_def, subst eval_loop.simps)
      (unfold move_to.simps, simp add: Let_def)
qed

section \<open>Applied and pending operators\<close>

text \<open>After the text of an expression has been scanned, some of its operators have been applied
  (\<open>ready\<close>) and the others wait on the operator stack (\<open>pend\<close>, the top first).\<close>

fun pend :: "expr \<Rightarrow> nat list" where
  "pend (Num n) = []"
| "pend (Name_ref x) = []"
| "pend (Uop op a) = (if prec_of a < 16 then [] else pend a) @ [op]"
| "pend (Post op x) = [op]"
| "pend (Bop op a b) = (if prec_of b < right_level op then [] else pend b) @ [op]"
| "pend (Cond a b c) = (if prec_of c < 4 then [] else pend c) @ [TOK_CONDITIONAL_SEP, TOK_CONDITIONAL]"

fun ready :: "expr \<Rightarrow> rpn list" where
  "ready (Num n) = [Push (new_number (of_nat n))]"
| "ready (Name_ref x) = [Push (new_name x)]"
| "ready (Uop op a) = (if prec_of a < 16 then postorder a else ready a)"
| "ready (Post op x) = [Push (new_name x)]"
| "ready (Bop op a b) = postorder a @ (if prec_of b < right_level op then postorder b else ready b)"
| "ready (Cond a b c) = postorder a @ postorder b @ (if prec_of c < 4 then postorder c else ready c)"

fun last_tok :: "expr \<Rightarrow> nat" where
  "last_tok (Num n) = TOK_NUM"
| "last_tok (Name_ref x) = TOK_NUM"
| "last_tok (Uop op a) = (if prec_of a < 16 then TOK_NUM else last_tok a)"
| "last_tok (Post op x) = op"
| "last_tok (Bop op a b) = (if prec_of b < right_level op then TOK_NUM else last_tok b)"
| "last_tok (Cond a b c) = (if prec_of c < 4 then TOK_NUM else last_tok c)"

abbreviation pend_at :: "nat \<Rightarrow> expr \<Rightarrow> nat list" where
  "pend_at p e \<equiv> if prec_of e < p then [] else pend e"

abbreviation ready_at :: "nat \<Rightarrow> expr \<Rightarrow> rpn list" where
  "ready_at p e \<equiv> if prec_of e < p then postorder e else ready e"

abbreviation last_at :: "nat \<Rightarrow> expr \<Rightarrow> nat" where
  "last_at p e \<equiv> if prec_of e < p then TOK_NUM else last_tok e"

lemma postorder_ready: "postorder e = ready e @ map App (pend e)"
  by (induction e) auto

lemma postorder_ready_at: "postorder e = ready_at p e @ map App (pend_at p e)"
  by (simp add: postorder_ready)

lemma tok_vals:
  "TOK_LPAREN = 0"
  "TOK_COMMA = 1"
  "TOK_ASSIGN = 2"
  "TOK_AND_ASSIGN = 34"
  "TOK_OR_ASSIGN = 66"
  "TOK_XOR_ASSIGN = 98"
  "TOK_PLUS_ASSIGN = 130"
  "TOK_MINUS_ASSIGN = 162"
  "TOK_LSHIFT_ASSIGN = 194"
  "TOK_RSHIFT_ASSIGN = 226"
  "TOK_MUL_ASSIGN = 3"
  "TOK_DIV_ASSIGN = 35"
  "TOK_REM_ASSIGN = 67"
  "TOK_CONDITIONAL = 4"
  "TOK_CONDITIONAL_SEP = 36"
  "TOK_OR = 5"
  "TOK_AND = 6"
  "TOK_BOR = 7"
  "TOK_BXOR = 8"
  "TOK_BAND = 9"
  "TOK_EQ = 10"
  "TOK_NE = 42"
  "TOK_LT = 11"
  "TOK_GT = 43"
  "TOK_GE = 75"
  "TOK_LE = 107"
  "TOK_LSHIFT = 12"
  "TOK_RSHIFT = 44"
  "TOK_ADD = 13"
  "TOK_SUB = 45"
  "TOK_MUL = 14"
  "TOK_DIV = 46"
  "TOK_REM = 78"
  "TOK_EXPONENT = 47"
  "TOK_BNOT = 16"
  "TOK_NOT = 48"
  "TOK_UMINUS = 17"
  "TOK_UPLUS = 49"
  "TOK_PRE_INC = 18"
  "TOK_PRE_DEC = 50"
  "TOK_POST_INC = 19"
  "TOK_POST_DEC = 51"
  "TOK_NUM = 20"
  "TOK_RPAREN = 52"
  by (simp_all add: tok_defs)

lemma PREC_mod: "PREC op = op mod 32"
proof -
  have "op AND mask 5 = take_bit 5 op" by (simp add: take_bit_eq_mask)
  then show ?thesis by (simp add: PREC_def mask_eq_exp_minus_1 take_bit_eq_mod)
qed

lemmas tok_eval = tok_vals PREC_mod level_def fix_assignment_prec_def is_right_associative_def UNARYPREC_def
  SPEC_PREC_def PREC_PRE_def PREC_POST_def

lemma binary_ops_vals:
  "binary_ops = [194, 226, 12, 44, 5, 6, 42, 107, 75, 10, 66, 34, 3, 35, 67, 130, 162, 98, 47, 11, 43, 2, 7, 9, 14, 46, 78, 13, 45, 8, 1]"
  by (simp add: binary_ops_def op_tokens_def tok_eval)

lemma spelling_vals:
  "spelling 194 = ''<<=''"
  "spelling 226 = ''>>=''"
  "spelling 12 = ''<<''"
  "spelling 44 = ''>>''"
  "spelling 5 = ''||''"
  "spelling 6 = ''&&''"
  "spelling 42 = ''!=''"
  "spelling 107 = ''<=''"
  "spelling 75 = ''>=''"
  "spelling 10 = ''==''"
  "spelling 66 = ''|=''"
  "spelling 34 = ''&=''"
  "spelling 3 = ''*=''"
  "spelling 35 = ''/=''"
  "spelling 67 = ''%=''"
  "spelling 130 = ''+=''"
  "spelling 162 = ''-=''"
  "spelling 51 = ''--''"
  "spelling 98 = ''^=''"
  "spelling 19 = ''++''"
  "spelling 47 = ''**''"
  "spelling 48 = ''!''"
  "spelling 11 = ''<''"
  "spelling 43 = ''>''"
  "spelling 2 = ''=''"
  "spelling 7 = ''|''"
  "spelling 9 = ''&''"
  "spelling 14 = ''*''"
  "spelling 46 = ''/''"
  "spelling 78 = ''%''"
  "spelling 13 = ''+''"
  "spelling 45 = ''-''"
  "spelling 8 = ''^''"
  "spelling 16 = ''~''"
  "spelling 1 = '',''"
  "spelling 4 = ''?''"
  "spelling 36 = '':''"
  "spelling 52 = '')''"
  "spelling 0 = ''(''"
  "spelling 50 = ''--''"
  "spelling 18 = ''++''"
  "spelling 49 = ''+''"
  "spelling 17 = ''-''"
  by (simp_all add: spelling_def op_tokens_def unary_form_def tok_vals)

lemmas op_text = tok_eval spelling_vals op_tokens_def

lemma binary_ops_props:
  "list_all (\<lambda>op. 1 \<le> level op \<and> level op < 16 \<and> op \<noteq> TOK_RPAREN \<and> 0 < PREC op \<and> PREC op < UNARYPREC
      \<and> (spelling op, op) \<in> set op_tokens \<and> spelling op \<noteq> ''++'' \<and> spelling op \<noteq> ''--'') binary_ops"
  unfolding binary_ops_vals by (simp add: op_text spelling_vals [unfolded One_nat_def])

lemma unary_ops_props:
  "list_all (\<lambda>op. 16 \<le> level op \<and> op \<notin> {TOK_NUM, TOK_POST_INC, TOK_POST_DEC}
     \<and> list_ex (\<lambda>(s, t). s = spelling op \<and> unary_form t = op) op_tokens
     \<and> UNARYPREC \<le> PREC op \<and> PREC op \<noteq> SPEC_PREC) unary_ops"
  by (simp add: unary_ops_def op_text unary_form_def)

lemma postfix_ops_props:
  "list_all (\<lambda>op. 16 \<le> level op \<and> (spelling op, op) \<in> set op_tokens
     \<and> UNARYPREC \<le> PREC op \<and> PREC op \<noteq> SPEC_PREC) postfix_ops"
  by (simp add: postfix_ops_def op_text)

lemma binaryD:
  assumes "op \<in> set binary_ops"
  shows "1 \<le> level op" "level op < 16" "op \<noteq> TOK_RPAREN" "0 < PREC op" "PREC op < UNARYPREC"
    "(spelling op, op) \<in> set op_tokens" "spelling op \<noteq> ''++''" "spelling op \<noteq> ''--''"
  using assms binary_ops_props by (auto simp: list_all_iff)

lemma unaryD:
  assumes "op \<in> set unary_ops"
  shows "16 \<le> level op" "op \<notin> {TOK_NUM, TOK_POST_INC, TOK_POST_DEC}"
    "\<exists>t. (spelling op, t) \<in> set op_tokens \<and> unary_form t = op" "UNARYPREC \<le> PREC op" "PREC op \<noteq> SPEC_PREC"
  using assms unary_ops_props by (auto simp: list_all_iff list_ex_iff)

lemma postfixD:
  assumes "op \<in> set postfix_ops"
  shows "16 \<le> level op" "(spelling op, op) \<in> set op_tokens" "UNARYPREC \<le> PREC op" "PREC op \<noteq> SPEC_PREC"
    "op = TOK_POST_INC \<or> op = TOK_POST_DEC"
  using assms postfix_ops_props by (auto simp: list_all_iff postfix_ops_def)

lemma pend_levels: "wf e \<Longrightarrow> q \<in> set (pend e) \<Longrightarrow> prec_of e \<le> level q"
proof (induction e)
  case (Uop op a)
  then show ?case using unaryD(1) [of op] by (auto split: if_splits)
next
  case (Post op x)
  then show ?case using postfixD(1) [of op] by auto
next
  case (Bop op a b)
  then show ?case by (auto simp: right_level_def split: if_splits)
next
  case (Cond a b c)
  then show ?case by (auto simp: op_text split: if_splits)
qed auto

lemma pend_at_levels: "wf e \<Longrightarrow> q \<in> set (pend_at p e) \<Longrightarrow> p \<le> level q"
  using pend_levels [of e q] by (auto split: if_splits)

lemma prec_of_pos: "wf e \<Longrightarrow> 1 \<le> prec_of e"
  using binaryD(1) by (cases e) auto

section \<open>Popping\<close>

definition pops :: "nat \<Rightarrow> nat \<Rightarrow> bool" where
  "pops op q \<longleftrightarrow> q \<noteq> TOK_LPAREN
     \<and> (op = TOK_RPAREN \<or> level q > level op \<or> level q = level op \<and> \<not> is_right_associative (level op))"

lemma pop_pending:
  "list_all (pops op) qs \<Longrightarrow> pop_ops ev op ms nums (qs @ stack)
     = next_do (walk ev (map App qs) ms nums) (\<lambda>ms err. Ret (ms, Failed err)) (\<lambda>ms nums. pop_ops ev op ms nums stack)"
proof (induction qs arbitrary: ms nums)
  case (Cons q qs)
  then have "pop_ops ev op ms nums ((q # qs) @ stack) = next_do (arith_apply ev ms q nums)
      (\<lambda>ms err. Ret (ms, Failed err)) (\<lambda>ms nums. pop_ops ev op ms nums (qs @ stack))"
    by (auto simp: pops_def level_def next_do_def Let_def cong: prod.case_cong)
  also have "\<dots> = next_do (walk ev (map App (q # qs)) ms nums) (\<lambda>ms err. Ret (ms, Failed err))
      (\<lambda>ms nums. pop_ops ev op ms nums stack)"
    using Cons by (simp add: next_do_assoc)
  finally show ?case .
qed simp

definition ctx :: "nat \<Rightarrow> nat list \<Rightarrow> bool" where
  "ctx p stack \<longleftrightarrow> 16 \<le> p \<or> stack \<noteq> [] \<and> (level (hd stack) < p \<or> level (hd stack) = p \<and> is_right_associative p)"

lemma ctx_mono: "ctx p stack \<Longrightarrow> p \<le> p' \<Longrightarrow> ctx p' stack"
  by (auto simp: ctx_def)

lemma pop_stop:
  "ctx (level op) stack \<Longrightarrow> level op < 16 \<Longrightarrow> op \<noteq> TOK_RPAREN \<Longrightarrow> pop_ops ev op ms nums stack = Ret (ms, Stopped nums stack)"
  by (cases stack) (auto simp: ctx_def level_def)

lemma level_LPAREN [simp]: "level TOK_LPAREN = 0"
  by (simp add: op_text)

lemma pops_left: "op \<in> set binary_ops \<Longrightarrow> left_level op \<le> level q \<Longrightarrow> pops op q"
  using binaryD(1) [of op] by (auto simp: pops_def left_level_def split: if_splits)

section \<open>Operator tokens\<close>

definition operand_next :: "nat \<Rightarrow> bool" where
  "operand_next lasttok \<longleftrightarrow> lasttok \<notin> {TOK_NUM, TOK_POST_INC, TOK_POST_DEC}"

lemma operand_next_op:
  "op \<in> set binary_ops \<Longrightarrow> operand_next op" "op \<in> set unary_ops \<Longrightarrow> operand_next op"
  "operand_next TOK_LPAREN" "operand_next TOK_CONDITIONAL" "operand_next TOK_CONDITIONAL_SEP"
  using unaryD(2) by (auto simp: operand_next_def binary_ops_vals op_text)

lemma do_prefix:
  assumes "operand_next lasttok" "unary_form t = op" "PREC op = 0 \<or> UNARYPREC \<le> PREC op \<and> PREC op \<noteq> SPEC_PREC"
  shows "do_operator ev ms t lasttok nums stack = Ret (ms, Inr (nums, op # stack, op))"
  using assms by (auto simp: do_operator_def operand_next_def Let_def SPEC_PREC_def)

lemma do_postfix:
  assumes "op \<in> set postfix_ops"
  shows "do_operator ev ms op TOK_NUM nums stack = Ret (ms, Inr (nums, op # stack, op))"
  using postfixD(3-4) [OF assms] by (auto simp: do_operator_def Let_def)

lemma do_infix:
  assumes "\<not> operand_next lasttok" "0 < PREC op \<and> PREC op < UNARYPREC \<or> PREC op = SPEC_PREC"
  shows "do_operator ev ms op lasttok nums stack = and_then (pop_ops ev op ms nums stack) (\<lambda>(ms, r).
              case r of
                Failed err \<Rightarrow> Ret (ms, Inl err)
              | Closed nums stack \<Rightarrow> Ret (ms, Inr (nums, stack, TOK_NUM))
              | Stopped nums stack \<Rightarrow> Ret (ms, Inr (nums, op # stack, op)))"
proof -
  have "(if lasttok = TOK_POST_INC \<or> lasttok = TOK_POST_DEC then TOK_NUM else lasttok) = TOK_NUM"
    using assms(1) by (auto simp: operand_next_def)
  then show ?thesis using assms(2) unfolding do_operator_def by (simp only: Let_def) simp
qed

lemma last_tok_operand: "wf e \<Longrightarrow> \<not> operand_next (last_tok e)"
  using postfixD(5) by (induction e) (auto simp: operand_next_def)

lemma scan_infix:
  assumes "(s, op) \<in> set op_tokens" "s \<noteq> ''++''" "s \<noteq> ''--''" "0 < PREC op" "PREC op < UNARYPREC" "op \<noteq> TOK_RPAREN"
    and "level op < 16" "ctx (level op) stack" "list_all (pops op) qs" "\<not> operand_next lasttok" "length stack < l"
  shows "eval_loop ev l b ms (In_expr (tok s @ rest)) nums (qs @ stack) lasttok
     = next_do (walk ev (map App qs) ms nums) give_up (\<lambda>ms nums. eval_loop ev l b ms (In_expr rest) nums (op # stack) op)"
proof -
  have "eval_loop ev l b ms (In_expr (tok s @ rest)) nums (qs @ stack) lasttok
     = and_then (do_operator ev ms op lasttok nums (qs @ stack)) (after_operator ev l b rest)"
    using assms by (intro loop_operator) auto
  then show ?thesis
    using assms pop_pending [OF assms(9), of ev ms nums stack]
    by (cases "walk ev (map App qs) ms nums" rule: next_do_cases)
      (simp_all add: do_infix after_operator_def pop_stop [OF assms(8,7,6)])
qed

lemma scan_close:
  assumes "list_all (pops TOK_RPAREN) qs" "\<not> operand_next lasttok" "length stack \<le> l"
  shows "eval_loop ev l b ms (In_expr (tok '')'' @ rest)) nums (qs @ TOK_LPAREN # stack) lasttok
     = next_do (walk ev (map App qs) ms nums) give_up (\<lambda>ms nums. eval_loop ev l b ms (In_expr rest) nums stack TOK_NUM)"
proof -
  have "eval_loop ev l b ms (In_expr (tok '')'' @ rest)) nums (qs @ TOK_LPAREN # stack) lasttok
     = and_then (do_operator ev ms TOK_RPAREN lasttok nums (qs @ TOK_LPAREN # stack)) (after_operator ev l b rest)"
    by (intro loop_operator) (simp_all add: op_tokens_def)
  moreover have "PREC TOK_RPAREN = SPEC_PREC" by (simp add: tok_eval)
  ultimately show ?thesis
    using assms pop_pending [OF assms(1), of ev ms nums "TOK_LPAREN # stack"]
    by (cases "walk ev (map App qs) ms nums" rule: next_do_cases) (simp_all add: do_infix after_operator_def)
qed

lemma scan_prefix:
  assumes "(s, t) \<in> set op_tokens" "operand_next lasttok" "unary_form t = op"
    "PREC op = 0 \<or> UNARYPREC \<le> PREC op \<and> PREC op \<noteq> SPEC_PREC" "length stack < l"
  shows "eval_loop ev l b ms (In_expr (tok s @ rest)) nums stack lasttok = eval_loop ev l b ms (In_expr rest) nums (op # stack) op"
proof -
  have "eval_loop ev l b ms (In_expr (tok s @ rest)) nums stack lasttok
     = and_then (do_operator ev ms t lasttok nums stack) (after_operator ev l b rest)"
    using assms(2) by (intro loop_operator assms(1)) (simp add: operand_next_def)
  then show ?thesis using assms(5) by (simp add: after_operator_def do_prefix [OF assms(2-4)])
qed

lemma scan_postfix:
  assumes "op \<in> set postfix_ops" "nums \<noteq> []" "var (hd nums) \<noteq> None" "length stack < l"
  shows "eval_loop ev l b ms (In_expr (tok (spelling op) @ rest)) nums stack TOK_NUM = eval_loop ev l b ms (In_expr rest) nums (op # stack) op"
proof -
  have "eval_loop ev l b ms (In_expr (tok (spelling op) @ rest)) nums stack TOK_NUM
     = and_then (do_operator ev ms op TOK_NUM nums stack) (after_operator ev l b rest)"
    using assms(2,3) by (intro loop_operator postfixD [OF assms(1)]) auto
  then show ?thesis using assms(4) by (simp add: after_operator_def do_postfix [OF assms(1)])
qed

section \<open>Room on the stacks\<close>

fun pushes :: "rpn list \<Rightarrow> nat" where
  "pushes [] = 0"
| "pushes (Push t # c) = Suc (pushes c)"
| "pushes (App op # c) = pushes c"

lemma pushes_append [simp]: "pushes (a @ b) = pushes a + pushes b"
  by (induction a rule: pushes.induct) auto

lemma pushes_App [simp]: "pushes (map App qs) = 0"
  by (induction qs) auto

lemma finish_apply_length: "finish_apply ms op t r rest = Ret (ms', Inr nums) \<Longrightarrow> length nums = Suc (length rest)"
  by (auto simp: finish_apply_def split: prod.splits sum.splits)

lemma and_then_Ret: "and_then r f = Ret y \<Longrightarrow> (\<And>x. r = Ret x \<Longrightarrow> f x = Ret y \<Longrightarrow> P) \<Longrightarrow> P"
  by (cases r) auto

lemma arith_apply_length: "arith_apply ev ms op nums = Ret (ms', Inr nums') \<Longrightarrow> length nums' \<le> length nums"
  by (auto simp: arith_apply_def Let_def dest!: finish_apply_length elim!: and_then_Ret
      split: list.splits prod.splits option.splits if_splits sum.splits)

lemma walk_length: "walk ev xs ms nums = Ret (ms', Inr nums') \<Longrightarrow> length nums' \<le> length nums + pushes xs"
proof (induction ev xs ms nums rule: walk.induct)
  case (3 ev op rpns ms nums)
  then show ?case
    by (cases "arith_apply ev ms op nums" rule: next_do_cases) (force dest: arith_apply_length)+
qed auto

lemma tok_length [simp]: "length (tok s) = Suc (length s)"
  by (simp add: tok_def)

lemma text_room: "wf e \<Longrightarrow> 2 * pushes (postorder e) \<le> length (body e) \<and> length (pend e) \<le> length (body e)"
proof (induction e)
  case (Num n)
  show ?case by (cases "dec_nat n") auto
next
  case (Name_ref x)
  then show ?case by (cases x) (auto simp: is_ident_def)
next
  case (Post op x)
  then show ?case by (cases x) (auto simp: is_ident_def)
qed (auto simp: parens_def)

section \<open>Scanning an expression\<close>

definition fits :: "nat \<Rightarrow> var_or_num list \<Rightarrow> nat list \<Rightarrow> string \<Rightarrow> bool" where
  "fits l nums stack text \<longleftrightarrow> 2 * length nums + length text \<le> l \<and> length stack + length text \<le> l"

definition scans :: "'s evaluator \<Rightarrow> expr \<Rightarrow> bool" where
  "scans ev e \<longleftrightarrow> (\<forall>l b ms nums stack lasttok rest.
     operand_next lasttok \<longrightarrow> ctx (prec_of e) stack \<longrightarrow> fits l nums stack (body e @ rest) \<longrightarrow>
     eval_loop ev l b ms (In_expr (body e @ rest)) nums stack lasttok
     = next_do (walk ev (ready e) ms nums) give_up
         (\<lambda>ms nums. eval_loop ev l b ms (In_expr rest) nums (pend e @ stack) (last_tok e)))"

lemma scansD:
  assumes "scans ev e" "operand_next lasttok" "ctx (prec_of e) stack" "fits l nums stack (body e @ rest)"
  shows "eval_loop ev l b ms (In_expr (body e @ rest)) nums stack lasttok
     = next_do (walk ev (ready e) ms nums) give_up
         (\<lambda>ms nums. eval_loop ev l b ms (In_expr rest) nums (pend e @ stack) (last_tok e))"
  using assms unfolding scans_def by blast

lemma give_up_assoc: "next_do (next_do r failed f) give_up k = next_do r give_up (\<lambda>ms nums. next_do (f ms nums) give_up k)"
  by (rule next_do_assoc)

lemma walk_postorder:
  "next_do (walk ev (postorder e) ms nums) give_up k
   = next_do (walk ev (ready e) ms nums) give_up (\<lambda>ms nums. next_do (walk ev (map App (pend e)) ms nums) give_up k)"
  by (simp add: postorder_ready walk_append next_do_assoc)

lemma scans_at:
  assumes e: "scans ev e" "wf e" and lt: "operand_next lasttok" and c: "ctx p stack"
    and f: "fits l nums stack (print_at p e @ rest)"
  shows "eval_loop ev l b ms (In_expr (print_at p e @ rest)) nums stack lasttok
     = next_do (walk ev (ready_at p e) ms nums) give_up
         (\<lambda>ms nums. eval_loop ev l b ms (In_expr rest) nums (pend_at p e @ stack) (last_at p e))"
proof (cases "prec_of e < p")
  case False
  then show ?thesis using scansD [OF e(1) lt ctx_mono [OF c]] f by (simp add: parens_def)
next
  case True
  have "eval_loop ev l b ms (In_expr (print_at p e @ rest)) nums stack lasttok
      = eval_loop ev l b ms (In_expr (body e @ tok '')'' @ rest)) nums (TOK_LPAREN # stack) TOK_LPAREN"
    using True f scan_prefix [OF _ lt, of "''(''" TOK_LPAREN TOK_LPAREN stack l ev b ms "body e @ tok '')'' @ rest" nums]
    by (simp add: parens_def fits_def op_text unary_form_def)
  also have "\<dots> = next_do (walk ev (ready e) ms nums) give_up
      (\<lambda>ms nums. eval_loop ev l b ms (In_expr (tok '')'' @ rest)) nums (pend e @ TOK_LPAREN # stack) (last_tok e))"
  proof (rule scansD [OF e(1)])
    show "ctx (prec_of e) (TOK_LPAREN # stack)" using prec_of_pos [OF e(2)] by (simp add: ctx_def op_text)
    show "fits l nums (TOK_LPAREN # stack) (body e @ tok '')'' @ rest)" using f True by (simp add: fits_def parens_def)
  qed (simp add: operand_next_op)
  also have "\<dots> = next_do (walk ev (postorder e) ms nums) give_up (\<lambda>ms nums. eval_loop ev l b ms (In_expr rest) nums stack TOK_NUM)"
    unfolding walk_postorder
  proof (intro next_do_cong refl scan_close)
    show "list_all (pops TOK_RPAREN) (pend e)"
      using pend_levels [OF e(2)] prec_of_pos [OF e(2)] level_LPAREN by (fastforce simp: list_all_iff pops_def)
    show "\<not> operand_next (last_tok e)" by (rule last_tok_operand [OF e(2)])
    show "length stack \<le> l" using f by (simp add: fits_def)
  qed
  finally show ?thesis using True by simp
qed

lemma walk_postorder_at:
  "next_do (walk ev (postorder e) ms nums) give_up k
   = next_do (walk ev (ready_at p e) ms nums) give_up (\<lambda>ms nums. next_do (walk ev (map App (pend_at p e)) ms nums) give_up k)"
  by (simp add: postorder_ready [of e] walk_append next_do_assoc)

lemma scan_operand:
  assumes a: "scans ev a" "wf a" and lt: "operand_next lasttok" and c: "ctx p stack" "ctx (level op) stack"
    and f: "fits l nums stack (print_at p a @ tok s @ rest)"
    and s: "(s, op) \<in> set op_tokens" "s \<noteq> ''++''" "s \<noteq> ''--''" "0 < PREC op" "PREC op < UNARYPREC" "op \<noteq> TOK_RPAREN"
    and pops: "level op < 16" "list_all (pops op) (pend_at p a)"
  shows "eval_loop ev l b ms (In_expr (print_at p a @ tok s @ rest)) nums stack lasttok
    = next_do (walk ev (postorder a) ms nums) give_up (\<lambda>ms nums. eval_loop ev l b ms (In_expr rest) nums (op # stack) op)"
  unfolding scans_at [OF a lt c(1) f] walk_postorder_at [where p = p]
proof (intro next_do_cong refl scan_infix s pops c)
  show "\<not> operand_next (last_at p a)" using last_tok_operand [OF a(2)] by (simp add: operand_next_def)
  show "length stack < l" using f by (simp add: fits_def)
qed

lemma fits_after:
  assumes "fits l nums stack (print_at p a @ tok s @ rest)" "walk ev (postorder a) ms nums = Ret (ms', Inr nums')" "wf a"
  shows "fits l nums' (op # stack) rest"
  using assms(1) walk_length [OF assms(2)] text_room [OF assms(3)] by (auto simp: fits_def parens_def split: if_splits)

lemma scans_infix:
  assumes b: "scans ev b" "wf b" and op: "operand_next op" and c: "ctx p (op # stack)"
    and f: "\<And>ms' nums'. r = Ret (ms', Inr nums') \<Longrightarrow> fits l nums' (op # stack) (print_at p b @ rest)"
  shows "next_do r give_up (\<lambda>ms nums. eval_loop ev l bb ms (In_expr (print_at p b @ rest)) nums (op # stack) op)
    = next_do (next_do r failed (walk ev (ready_at p b))) give_up
        (\<lambda>ms nums. eval_loop ev l bb ms (In_expr rest) nums (pend_at p b @ op # stack) (last_at p b))"
  unfolding next_do_assoc by (intro next_do_cong refl scans_at b op c f)

lemma scans_Uop:
  assumes a: "scans ev a" "wf a" and op: "op \<in> set unary_ops"
  shows "scans ev (Uop op a)"
  unfolding scans_def
proof (intro allI impI)
  fix l b ms nums stack lasttok rest
  assume lt: "operand_next lasttok" and f: "fits l nums stack (body (Uop op a) @ rest)"
  obtain t where t: "(spelling op, t) \<in> set op_tokens" "unary_form t = op" using unaryD(3) [OF op] by blast
  have "eval_loop ev l b ms (In_expr (body (Uop op a) @ rest)) nums stack lasttok
      = eval_loop ev l b ms (In_expr (print_at 16 a @ rest)) nums (op # stack) op"
    using f scan_prefix [OF t(1) lt t(2), of stack l ev b ms "print_at 16 a @ rest" nums] unaryD(4,5) [OF op]
    by (simp add: fits_def)
  also have "\<dots> = next_do (walk ev (ready_at 16 a) ms nums) give_up
      (\<lambda>ms nums. eval_loop ev l b ms (In_expr rest) nums (pend_at 16 a @ op # stack) (last_at 16 a))"
    using f by (intro scans_at a operand_next_op(2) op) (simp_all add: ctx_def fits_def)
  finally show "eval_loop ev l b ms (In_expr (body (Uop op a) @ rest)) nums stack lasttok
      = next_do (walk ev (ready (Uop op a)) ms nums) give_up
      (\<lambda>ms nums. eval_loop ev l b ms (In_expr rest) nums (pend (Uop op a) @ stack) (last_tok (Uop op a)))"
    by simp
qed

lemma scans_Bop:
  assumes a: "scans ev a" "wf a" and b: "scans ev b" "wf b" and op: "op \<in> set binary_ops"
  shows "scans ev (Bop op a b)"
  unfolding scans_def
proof (intro allI impI)
  fix l bb ms nums stack lasttok rest
  assume lt: "operand_next lasttok" and c: "ctx (prec_of (Bop op a b)) stack"
    and f: "fits l nums stack (body (Bop op a b) @ rest)"
  let ?p = "left_level op" and ?q = "right_level op"
  have c': "ctx ?p stack" "ctx (level op) stack" "ctx ?q (op # stack)"
    using ctx_mono [OF c, of ?p] c by (auto simp: ctx_def left_level_def right_level_def)
  have f': "fits l nums stack (print_at ?p a @ tok (spelling op) @ print_at ?q b @ rest)" using f by simp
  have "eval_loop ev l bb ms (In_expr (body (Bop op a b) @ rest)) nums stack lasttok
    = next_do (walk ev (postorder a) ms nums) give_up
        (\<lambda>ms nums. eval_loop ev l bb ms (In_expr (print_at ?q b @ rest)) nums (op # stack) op)"
    using scan_operand [OF a lt c'(1,2) f' binaryD(6,7,8,4,5,3,2) [OF op], of bb ms]
      pend_at_levels [OF a(2), of _ ?p] pops_left [OF op] by (simp add: list_all_iff)
  also have "\<dots> = next_do (next_do (walk ev (postorder a) ms nums) failed (walk ev (ready_at ?q b))) give_up
      (\<lambda>ms nums. eval_loop ev l bb ms (In_expr rest) nums (pend_at ?q b @ op # stack) (last_at ?q b))"
    by (intro scans_infix b operand_next_op(1) op c'(3)) (rule fits_after [OF f' _ a(2)])
  finally show "eval_loop ev l bb ms (In_expr (body (Bop op a b) @ rest)) nums stack lasttok
      = next_do (walk ev (ready (Bop op a b)) ms nums) give_up
      (\<lambda>ms nums. eval_loop ev l bb ms (In_expr rest) nums (pend (Bop op a b) @ stack) (last_tok (Bop op a b)))"
    by (simp add: walk_append)
qed

lemma cond_ops:
  "level TOK_CONDITIONAL = 4" "level TOK_CONDITIONAL_SEP = 4" "is_right_associative 4"
  "(''?'', TOK_CONDITIONAL) \<in> set op_tokens" "('':'', TOK_CONDITIONAL_SEP) \<in> set op_tokens"
  "PREC TOK_CONDITIONAL = 4" "PREC TOK_CONDITIONAL_SEP = 4" "TOK_CONDITIONAL \<noteq> TOK_RPAREN"
  "TOK_CONDITIONAL_SEP \<noteq> TOK_RPAREN"
  by (simp_all add: op_text)

lemma pops_cond:
  assumes "wf a" "level op = 4"
  shows "list_all (pops op) (pend_at 5 a)"
  using pend_at_levels [OF assms(1), of _ 5] assms(2) unfolding list_all_iff by (force simp: pops_def)

lemma scans_Cond:
  assumes a: "scans ev a" "wf a" and b: "scans ev b" "wf b" and e: "scans ev e" "wf e"
  shows "scans ev (Cond a b e)"
  unfolding scans_def
proof (intro allI impI)
  fix l bb ms nums stack lasttok rest
  assume lt: "operand_next lasttok" and c: "ctx (prec_of (Cond a b e)) stack"
    and f: "fits l nums stack (body (Cond a b e) @ rest)"
  let ?Q = TOK_CONDITIONAL and ?S = TOK_CONDITIONAL_SEP
  have c': "ctx 5 stack" "ctx (level ?Q) stack" using c ctx_mono [OF c, of 5] by (simp_all add: cond_ops)
  have c2: "ctx 5 (?Q # stack)" "ctx (level ?S) (?Q # stack)" "ctx 4 (?S # ?Q # stack)"
    by (simp_all add: ctx_def cond_ops)
  have f': "fits l nums stack (print_at 5 a @ tok ''?'' @ print_at 5 b @ tok '':'' @ print_at 4 e @ rest)" using f by simp
  have f2: "fits l nums' (?Q # stack) (print_at 5 b @ tok '':'' @ print_at 4 e @ rest)"
    if "walk ev (postorder a) ms nums = Ret (ms', Inr nums')" for ms' nums'
    by (rule fits_after [OF f' that a(2)])
  have "eval_loop ev l bb ms (In_expr (body (Cond a b e) @ rest)) nums stack lasttok
    = next_do (walk ev (postorder a) ms nums) give_up
        (\<lambda>ms nums. eval_loop ev l bb ms (In_expr (print_at 5 b @ tok '':'' @ print_at 4 e @ rest)) nums (?Q # stack) ?Q)"
    using scan_operand [OF a lt c' f' cond_ops(4), of bb ms] pops_cond [OF a(2), of ?Q]
    by (simp add: cond_ops UNARYPREC_def)
  also have "\<dots> = next_do (walk ev (postorder a) ms nums) give_up (\<lambda>ms nums. next_do (walk ev (postorder b) ms nums) give_up
        (\<lambda>ms nums. eval_loop ev l bb ms (In_expr (print_at 4 e @ rest)) nums (?S # ?Q # stack) ?S))"
    using pops_cond [OF b(2), of ?S]
    by (intro next_do_cong refl scan_operand b c2 f2 operand_next_op(4) cond_ops) (simp_all add: cond_ops UNARYPREC_def)
  also have "\<dots> = next_do (next_do (walk ev (postorder a) ms nums) failed (walk ev (postorder b))) give_up
        (\<lambda>ms nums. eval_loop ev l bb ms (In_expr (print_at 4 e @ rest)) nums (?S # ?Q # stack) ?S)"
    by (simp add: next_do_assoc)
  also have "\<dots> = next_do (next_do (next_do (walk ev (postorder a) ms nums) failed (walk ev (postorder b))) failed (walk ev (ready_at 4 e))) give_up
      (\<lambda>ms nums. eval_loop ev l bb ms (In_expr rest) nums (pend_at 4 e @ ?S # ?Q # stack) (last_at 4 e))"
  proof (intro scans_infix e operand_next_op(5) c2(3))
    fix ms' nums'
    assume "next_do (walk ev (postorder a) ms nums) failed (walk ev (postorder b)) = Ret (ms', Inr nums')"
    then show "fits l nums' (?S # ?Q # stack) (print_at 4 e @ rest)"
      by (cases "walk ev (postorder a) ms nums" rule: next_do_cases) (auto intro: fits_after [OF f2 _ b(2)])
  qed
  finally show "eval_loop ev l bb ms (In_expr (body (Cond a b e) @ rest)) nums stack lasttok
      = next_do (walk ev (ready (Cond a b e)) ms nums) give_up
      (\<lambda>ms nums. eval_loop ev l bb ms (In_expr rest) nums (pend (Cond a b e) @ stack) (last_tok (Cond a b e)))"
    by (simp add: walk_append next_do_assoc)
qed

lemma scans_wf: "wf e \<Longrightarrow> scans ev e"
proof (induction e)
  case (Num n)
  moreover have "1 \<le> length (dec_nat n)" by (cases "dec_nat n") auto
  ultimately show ?case by (auto simp: scans_def fits_def loop_number)
next
  case (Name_ref x)
  then have "1 \<le> length x" by (cases x) (auto simp: is_ident_def)
  with Name_ref show ?case by (auto simp: scans_def fits_def loop_name)
next
  case (Post op x)
  then have "1 \<le> length x" by (cases x) (auto simp: is_ident_def)
  with Post show ?case
    by (auto simp: scans_def fits_def loop_name scan_postfix new_name_def)
qed (simp_all add: scans_Uop scans_Bop scans_Cond)

section \<open>The whole text\<close>

lemma spelling_start:
  assumes "(s, op) \<in> set op_tokens"
  shows "s \<noteq> []" "\<not> isspace (peek (tok s @ rest))"
  using spellings [of "[]"] assms by (cases s; auto simp: list_all_iff tok_def)+

lemma ident_start: "is_ident x \<Longrightarrow> \<not> isspace (peek (x @ r))"
  by (cases x) (auto simp: is_ident_def is_name_not_space)

lemma body_start: "wf e \<Longrightarrow> body e \<noteq> [] \<and> \<not> isspace (peek (body e @ rest))"
proof (induction e arbitrary: rest)
  case (Num n)
  show ?case using peek_dec_nat(4) [of n "'' '' @ rest"] by (simp add: tok_def)
next
  case (Uop op a)
  then obtain t where "(spelling op, t) \<in> set op_tokens" using unaryD(3) [of op] by auto
  from spelling_start [OF this] show ?case by (simp add: tok_def)
next
  case (Bop op a b)
  then show ?case by (auto simp: parens_def tok_def isspace_def)
next
  case (Cond a b c)
  then show ?case by (auto simp: parens_def tok_def isspace_def)
qed (auto simp: tok_def ident_start)

definition final_value :: "'s evaluator \<Rightarrow> 's arith_state \<Rightarrow> var_or_num list \<Rightarrow> ('s arith_state \<times> u64) outcome" where
  "final_value ev ms nums =
     and_then (arith_lookup_val ev ms (hd nums)) (\<lambda>(ms, t, err). Ret (ms\<lparr>errmsg := err\<rparr>, val t))"

lemma loop_end:
  assumes "list_all (pops TOK_RPAREN) qs" "\<not> operand_next lasttok"
    "\<And>ms' nums'. walk ev (map App qs) ms nums = Ret (ms', Inr nums') \<Longrightarrow> length nums' = 1"
  shows "eval_loop ev l False ms (In_expr []) nums (qs @ [TOK_LPAREN]) lasttok
     = next_do (walk ev (map App qs) ms nums) give_up (final_value ev)"
proof -
  have t: "next_token f '')'' = (Operator TOK_RPAREN, [])" for f
    by (simp add: next_token_def endofname_def is_name_def ctype_defs op_tokens_def)
  have past: "move_to At_rparen [] = Past_rparen" by simp
  have e: "eval_loop ev l False ms Past_rparen [x] stk lt
      = and_then (arith_lookup_val ev ms x) (\<lambda>(ms, t, err). Ret (ms\<lparr>errmsg := err\<rparr>, val t))" for ms x stk lt
    by (subst eval_loop.simps) simp
  have p: "PREC TOK_RPAREN = SPEC_PREC" by (simp add: tok_eval)
  have "eval_loop ev l False ms (In_expr []) nums (qs @ [TOK_LPAREN]) lasttok
      = eval_loop ev l False ms At_rparen nums (qs @ [TOK_LPAREN]) lasttok"
    by (subst eval_loop.simps) simp
  also have "\<dots> = and_then (do_operator ev ms TOK_RPAREN lasttok nums (qs @ [TOK_LPAREN])) (\<lambda>(ms, r).
                  case r of
                    Inl err \<Rightarrow> give_up ms err
                  | Inr (nums, stack, lasttok) \<Rightarrow>
                      if length stack > l then Overrun
                      else eval_loop ev l False ms Past_rparen nums stack lasttok)"
    unfolding past [symmetric] by (subst eval_loop.simps) (simp add: t)
  also have "\<dots> = next_do (walk ev (map App qs) ms nums) give_up (final_value ev)"
  proof (cases "walk ev (map App qs) ms nums" rule: next_do_cases)
    case (ok ms' nums')
    with assms(3) obtain x where "nums' = [x]" by (cases nums') auto
    then show ?thesis
      using ok assms(1,2) p e by (simp add: do_infix pop_pending final_value_def)
  qed (use assms(1,2) p in \<open>simp_all add: do_infix pop_pending\<close>)
  finally show ?thesis .
qed

fun drops :: "rpn list \<Rightarrow> nat" where
  "drops [] = 0"
| "drops (Push t # c) = drops c"
| "drops (App op # c) = (if arith_unary op 0 = None then Suc (drops c) else drops c)"

lemma drops_append [simp]: "drops (a @ b) = drops a + drops b"
  by (induction a rule: drops.induct) auto

lemma arith_unary_arity: "arith_unary op v = None \<longleftrightarrow> arith_unary op 0 = None"
  by (simp add: arith_unary_def)

lemma arith_apply_drops:
  assumes "arith_apply ev ms op nums = Ret (ms', Inr nums')"
  shows "length nums' + (if arith_unary op 0 = None then 1 else 0) = length nums"
proof (cases "arith_unary op 0")
  case None
  then have "arith_unary op v = None" for v using arith_unary_arity by blast
  then show ?thesis using assms None
    by (auto simp: arith_apply_def Let_def dest!: finish_apply_length elim!: and_then_Ret
      split: list.splits prod.splits option.splits if_splits sum.splits)
next
  case (Some x)
  then have "\<forall>v. \<exists>w. arith_unary op v = Some w" using arith_unary_arity [of op] by auto
  then obtain f where "arith_unary op v = Some (f v)" for v by metis
  then show ?thesis using assms
    by (auto simp: arith_apply_def dest!: finish_apply_length elim!: and_then_Ret
      split: list.splits prod.splits option.splits)
qed

lemma walk_drops: "walk ev xs ms nums = Ret (ms', Inr nums') \<Longrightarrow> length nums' + drops xs = length nums + pushes xs"
proof (induction ev xs ms nums rule: walk.induct)
  case (3 ev op rpns ms nums)
  then show ?case
    by (cases "arith_apply ev ms op nums" rule: next_do_cases) (force dest: arith_apply_drops split: if_splits)+
qed auto

lemma arities:
  "list_all (\<lambda>op. arith_unary op 0 \<noteq> None) (unary_ops @ postfix_ops)"
  "list_all (\<lambda>op. arith_unary op 0 = None) (TOK_CONDITIONAL # TOK_CONDITIONAL_SEP # binary_ops)"
  by (simp_all add: unary_ops_def postfix_ops_def binary_ops_vals arith_unary_def tok_vals)

lemma postorder_one: "wf e \<Longrightarrow> pushes (postorder e) = Suc (drops (postorder e))"
  using arities by (induction e) (auto simp: list_all_iff)

lemma walk_one: "wf e \<Longrightarrow> walk ev (postorder e) ms nums = Ret (ms', Inr nums') \<Longrightarrow> length nums' = Suc (length nums)"
  using walk_drops [of ev "postorder e"] postorder_one [of e] by fastforce

lemma evaluate_string_body:
  assumes "wf e"
  shows "evaluate_string (Suc depth) ms (body e)
     = next_do (walk (evaluate_string depth) (postorder e) ms []) give_up (final_value (evaluate_string depth))"
proof -
  let ?ev = "evaluate_string depth" and ?l = "length (body e) + 2"
  have "evaluate_string (Suc depth) ms (body e) = eval_loop ?ev ?l False ms (In_expr (body e @ [])) [] [TOK_LPAREN] TOK_LPAREN"
    using body_start [OF assms, of "[]"] by (simp add: skip_whitespace_id Let_def)
  also have "\<dots> = next_do (walk ?ev (ready e) ms []) give_up
      (\<lambda>ms nums. eval_loop ?ev ?l False ms (In_expr []) nums (pend e @ [TOK_LPAREN]) (last_tok e))"
    using prec_of_pos [OF assms]
    by (intro scansD scans_wf assms operand_next_op(3)) (simp_all add: ctx_def fits_def)
  also have "\<dots> = next_do (walk ?ev (postorder e) ms []) give_up (final_value ?ev)"
    unfolding walk_postorder
  proof (intro next_do_cong refl loop_end)
    show "list_all (pops TOK_RPAREN) (pend e)"
      using pend_levels [OF assms] prec_of_pos [OF assms] level_LPAREN by (fastforce simp: list_all_iff pops_def)
    show "\<not> operand_next (last_tok e)" by (rule last_tok_operand [OF assms])
  next
    fix ms1 nums1 ms2 nums2
    assume "walk ?ev (ready e) ms [] = Ret (ms1, Inr nums1)" "walk ?ev (map App (pend e)) ms1 nums1 = Ret (ms2, Inr nums2)"
    then have "walk ?ev (postorder e) ms [] = Ret (ms2, Inr nums2)" by (simp add: postorder_ready walk_append)
    then show "length nums2 = 1" using walk_one [OF assms] by fastforce
  qed
  finally show ?thesis .
qed

section \<open>Values\<close>

text \<open>The value of an expression without side effects: names have the values of an environment, both
  branches of a conditional are evaluated, and the first error met in post-order is the result.\<close>

fun bind_val :: "string + u64 \<Rightarrow> (u64 \<Rightarrow> string + u64) \<Rightarrow> string + u64" where
  "bind_val (Inl err) f = Inl err"
| "bind_val (Inr v) f = f v"

text \<open>What the operators mean, on integers; a result is cut to 64 bits.\<close>

definition unary_value :: "string \<Rightarrow> int \<Rightarrow> int" where
  "unary_value s a =
     (if s = ''-'' then - a else if s = ''+'' then a else if s = ''!'' then of_bool (a = 0)
      else if s = ''~'' then - a - 1 else if s = ''++'' then a + 1 else a - 1)"

definition binary_value :: "string \<Rightarrow> int \<Rightarrow> int \<Rightarrow> string + int" where
  "binary_value s a b =
     (if s = ''+'' then Inr (a + b) else if s = ''-'' then Inr (a - b) else if s = ''*'' then Inr (a * b)
      else if s = ''**'' then if b < 0 then Inl ''exponent less than 0'' else Inr (a ^ nat b)
      else if s = ''/'' then if b = 0 then Inl ''divide by zero'' else Inr (sgn a * sgn b * (\<bar>a\<bar> div \<bar>b\<bar>))
      else if s = ''%'' then if b = 0 then Inl ''divide by zero'' else Inr (sgn a * (\<bar>a\<bar> mod \<bar>b\<bar>))
      else if s = ''<<'' then Inr (a * 2 ^ nat (b mod 64)) else if s = ''>>'' then Inr (a div 2 ^ nat (b mod 64))
      else if s = ''&'' then Inr (a AND b) else if s = ''|'' then Inr (a OR b) else if s = ''^'' then Inr (a XOR b)
      else if s = ''<'' then Inr (of_bool (a < b)) else if s = ''<='' then Inr (of_bool (a \<le> b))
      else if s = ''>'' then Inr (of_bool (a > b)) else if s = ''>='' then Inr (of_bool (a \<ge> b))
      else if s = ''=='' then Inr (of_bool (a = b)) else if s = ''!='' then Inr (of_bool (a \<noteq> b))
      else if s = ''&&'' then Inr (of_bool (a \<noteq> 0 \<and> b \<noteq> 0)) else if s = ''||'' then Inr (of_bool (a \<noteq> 0 \<or> b \<noteq> 0))
      else Inr b)"

fun wrap_value :: "string + int \<Rightarrow> string + u64" where
  "wrap_value (Inl err) = Inl err"
| "wrap_value (Inr k) = Inr (word_of_int k)"

fun eval_expr :: "(string \<Rightarrow> u64) \<Rightarrow> expr \<Rightarrow> string + u64" where
  "eval_expr env (Num n) = Inr (of_nat n)"
| "eval_expr env (Name_ref x) = Inr (env x)"
| "eval_expr env (Uop op a) = bind_val (eval_expr env a) (\<lambda>v. wrap_value (Inr (unary_value (spelling op) (sint v))))"
| "eval_expr env (Post op x) = Inr (env x)"
| "eval_expr env (Bop op a b) = bind_val (eval_expr env a) (\<lambda>v. bind_val (eval_expr env b) (\<lambda>w.
     wrap_value (binary_value (spelling op) (sint v) (sint w))))"
| "eval_expr env (Cond a b c) = bind_val (eval_expr env a) (\<lambda>v. bind_val (eval_expr env b) (\<lambda>w.
     bind_val (eval_expr env c) (\<lambda>x. Inr (if v \<noteq> 0 then w else x))))"

fun pure :: "expr \<Rightarrow> bool" where
  "pure (Num n) \<longleftrightarrow> True"
| "pure (Name_ref x) \<longleftrightarrow> True"
| "pure (Uop op a) \<longleftrightarrow> \<not> is_assign_op op \<and> pure a"
| "pure (Post op x) \<longleftrightarrow> False"
| "pure (Bop op a b) \<longleftrightarrow> \<not> is_assign_op op \<and> pure a \<and> pure b"
| "pure (Cond a b c) \<longleftrightarrow> pure a \<and> pure b \<and> pure c"

definition holds_value :: "(string \<Rightarrow> u64) \<Rightarrow> var_or_num \<Rightarrow> u64 \<Rightarrow> bool" where
  "holds_value env t v \<longleftrightarrow> second_val_present t = 0 \<and> (case var t of None \<Rightarrow> val t = v | Some x \<Rightarrow> env x = v)"

text \<open>Looking up a name in the state gives the value of the environment and changes nothing.\<close>

definition reads :: "'s evaluator \<Rightarrow> 's arith_state \<Rightarrow> (string \<Rightarrow> u64) \<Rightarrow> bool" where
  "reads ev ms env \<longleftrightarrow> (\<forall>t x. var t = Some x \<longrightarrow> arith_lookup_val ev ms t = Ret (ms, t\<lparr>val := env x\<rparr>, None))"

lemma lookup_holds:
  assumes "reads ev ms env" "holds_value env t v"
  obtains t' where "arith_lookup_val ev ms t = Ret (ms, t', None)" "val t' = v" "second_val_present t' = 0"
    "var t' = var t" "second_val t' = second_val t"
proof (cases "var t")
  case None
  then show ?thesis using assms(2) by (intro that [of t]) (auto simp: arith_lookup_val_def holds_value_def)
next
  case (Some x)
  then have "arith_lookup_val ev ms t = Ret (ms, t\<lparr>val := env x\<rparr>, None)" using assms(1) by (simp add: reads_def)
  then show ?thesis using Some assms(2) by (intro that [of "t\<lparr>val := env x\<rparr>"]) (auto simp: holds_value_def)
qed

lemma apply_unary_value:
  assumes "reads ev ms env" "holds_value env t v" "arith_unary op v = Some w" "\<not> is_assign_op op"
  shows "\<exists>t'. arith_apply ev ms op (t # nums) = Ret (ms, Inr (t' # nums)) \<and> holds_value env t' w"
proof -
  obtain t' where "arith_lookup_val ev ms t = Ret (ms, t', None)" "val t' = v" "second_val_present t' = 0"
    using lookup_holds [OF assms(1,2)] by metis
  then show ?thesis using assms(3,4) by (auto simp: arith_apply_def finish_apply_def arith_store_def holds_value_def)
qed

lemma apply_binary_value:
  assumes r: "reads ev ms env" and t: "holds_value env t v" "holds_value env u w"
    and op: "\<And>v. arith_unary op v = None" "\<not> is_assign_op op" "op \<noteq> TOK_CONDITIONAL" "op \<noteq> TOK_CONDITIONAL_SEP"
  shows "case arith_binary op v w 0 of
       Inl err \<Rightarrow> arith_apply ev ms op (u # t # nums) = Ret (ms, Inl err)
     | Inr x \<Rightarrow> \<exists>t'. arith_apply ev ms op (u # t # nums) = Ret (ms, Inr (t' # nums)) \<and> holds_value env t' x"
proof -
  obtain t' where t': "arith_lookup_val ev ms t = Ret (ms, t', None)" "val t' = v" "second_val_present t' = 0"
    using lookup_holds [OF r t(1)] by metis
  obtain u' where u': "arith_lookup_val ev ms u = Ret (ms, u', None)" "val u' = w" "second_val_present u' = 0"
    using lookup_holds [OF r t(2)] by metis
  have ne: "op \<noteq> TOK_ASSIGN" using op(2) by (auto simp: is_assign_op_def tok_eval)
  have ind: "arith_binary op v w s = arith_binary op v w 0" for s using op(3) by (simp add: arith_binary_def)
  show ?thesis
    using t' u' op ne ind by (auto simp: arith_apply_def finish_apply_def arith_store_def holds_value_def split: sum.split)
qed

lemma apply_cond_value:
  assumes r: "reads ev ms env" and t: "holds_value env t v" "holds_value env u w" "holds_value env s x"
  shows "\<exists>t'. walk ev [App TOK_CONDITIONAL_SEP, App TOK_CONDITIONAL] ms (s # u # t # nums) = Ret (ms, Inr (t' # nums))
     \<and> holds_value env t' (if v \<noteq> 0 then w else x)"
proof -
  obtain t' where t': "arith_lookup_val ev ms t = Ret (ms, t', None)" "val t' = v" "second_val_present t' = 0"
    using lookup_holds [OF r t(1)] by metis
  obtain u' where u': "arith_lookup_val ev ms u = Ret (ms, u', None)" "val u' = w" "second_val_present u' = 0"
    using lookup_holds [OF r t(2)] by metis
  obtain s' where s': "arith_lookup_val ev ms s = Ret (ms, s', None)" "val s' = x" "second_val_present s' = 0"
    using lookup_holds [OF r t(3)] by metis
  define m where "m = u'\<lparr>second_val_present := TOK_CONDITIONAL_SEP, second_val := x, val := w, var := None\<rparr>"
  have op: "arith_unary TOK_CONDITIONAL_SEP k = None" "arith_unary TOK_CONDITIONAL k = None"
    "\<not> is_assign_op TOK_CONDITIONAL_SEP" "\<not> is_assign_op TOK_CONDITIONAL" "TOK_CONDITIONAL_SEP \<noteq> TOK_CONDITIONAL"
    "TOK_CONDITIONAL_SEP \<noteq> TOK_ASSIGN" "TOK_CONDITIONAL \<noteq> TOK_ASSIGN" "TOK_CONDITIONAL_SEP \<noteq> 0" for k
    by (simp_all add: arith_unary_def is_assign_op_def tok_eval)
  have "arith_apply ev ms TOK_CONDITIONAL_SEP (s # u # t # nums) = Ret (ms, Inr (m # t # nums))"
    using s' u' op by (simp add: arith_apply_def arith_binary_def finish_apply_def arith_store_def m_def)
  moreover have "arith_lookup_val ev ms m = Ret (ms, m, None)" by (simp add: arith_lookup_val_def m_def)
  then have "arith_apply ev ms TOK_CONDITIONAL (m # t # nums)
      = Ret (ms, Inr (t'\<lparr>val := if v \<noteq> 0 then w else x, var := None\<rparr> # nums))"
    using t' op by (simp add: arith_apply_def arith_binary_def finish_apply_def arith_store_def m_def)
  ultimately show ?thesis using t' by (simp add: holds_value_def)
qed

definition steps :: "'s evaluator \<Rightarrow> 's arith_state \<Rightarrow> (string \<Rightarrow> u64) \<Rightarrow> var_or_num list \<Rightarrow> rpn list \<Rightarrow> string + u64 \<Rightarrow> bool" where
  "steps ev ms env ts xs r \<longleftrightarrow> (\<forall>nums. case r of
       Inl err \<Rightarrow> walk ev xs ms (ts @ nums) = Ret (ms, Inl err)
     | Inr v \<Rightarrow> \<exists>t. walk ev xs ms (ts @ nums) = Ret (ms, Inr (t # nums)) \<and> holds_value env t v)"

lemma steps_bind:
  assumes "steps ev ms env [] xs r" "\<And>v t. r = Inr v \<Longrightarrow> holds_value env t v \<Longrightarrow> steps ev ms env (t # ts) ys (f v)"
  shows "steps ev ms env ts (xs @ ys) (bind_val r f)"
proof (cases r)
  case (Inl err)
  then show ?thesis using assms(1) by (simp add: steps_def walk_append)
next
  case (Inr v)
  have "case f v of Inl err \<Rightarrow> walk ev (xs @ ys) ms (ts @ nums) = Ret (ms, Inl err)
      | Inr w \<Rightarrow> \<exists>t. walk ev (xs @ ys) ms (ts @ nums) = Ret (ms, Inr (t # nums)) \<and> holds_value env t w" for nums
  proof -
    obtain t where t: "walk ev xs ms (ts @ nums) = Ret (ms, Inr (t # ts @ nums))" "holds_value env t v"
      using assms(1) Inr by (auto simp: steps_def)
    then have "walk ev (xs @ ys) ms (ts @ nums) = walk ev ys ms ((t # ts) @ nums)" by (simp add: walk_append)
    then show ?thesis using assms(2) [OF Inr t(2)] unfolding steps_def by presburger
  qed
  then show ?thesis using Inr by (simp add: steps_def)
qed

lemma steps_apply:
  assumes "\<And>nums. case r of
       Inl err \<Rightarrow> arith_apply ev ms op (ts @ nums) = Ret (ms, Inl err)
     | Inr v \<Rightarrow> \<exists>t. arith_apply ev ms op (ts @ nums) = Ret (ms, Inr (t # nums)) \<and> holds_value env t v"
  shows "steps ev ms env ts [App op] r"
  unfolding steps_def
proof
  fix nums
  show "case r of
       Inl err \<Rightarrow> walk ev [App op] ms (ts @ nums) = Ret (ms, Inl err)
     | Inr v \<Rightarrow> \<exists>t. walk ev [App op] ms (ts @ nums) = Ret (ms, Inr (t # nums)) \<and> holds_value env t v"
    using assms [of nums] by (cases r) auto
qed

lemma sint_eq_iff: "sint v = sint w \<longleftrightarrow> v = (w :: u64)"
  by (metis of_int_sint scast_id)

lemma unary_value_word:
  assumes "op \<in> set unary_ops"
  shows "arith_unary op v = Some (word_of_int (unary_value (spelling op) (sint v)))"
proof -
  have "word_of_int (- sint v - 1) = NOT v" by (simp add: not_eq_complement)
  then show ?thesis
    using assms by (auto simp: unary_ops_def arith_unary_def unary_value_def tok_vals spelling_vals bool_val_def signed_eq_0_iff)
qed

lemma pow_loop_power: "pow_loop n c r = c * r ^ n"
  by (induction n arbitrary: c) (simp_all add: ac_simps)

lemma uint_mod_sint: "uint (w :: u64) = sint w mod 2 ^ 64"
  using uint_sint [of w] by (simp add: take_bit_eq_mod)

lemma unat_nat_sint: "0 \<le> sint w \<Longrightarrow> unat w = nat (sint (w :: u64))"
  using sint_lt [of w] by (simp add: unat_eq_nat_uint uint_mod_sint)

lemma nat_sint_mod64: "nat (sint (w :: u64) mod 64) = unat w mod 64"
proof -
  have "uint w mod 64 = sint w mod 64" unfolding uint_mod_sint by (rule mod_mod_cancel) simp
  then show ?thesis by (metis nat_int of_nat_numeral uint_nat zmod_int)
qed

lemma signed_drop_bit_value: "signed_drop_bit n w = word_of_int (sint (w :: u64) div 2 ^ n)"
  by (metis drop_bit_eq_div of_int_sint scast_id sint_signed_drop_bit_eq)

lemma shl_value: "shl (w :: u64) n = word_of_int (sint w * 2 ^ n)"
  by (simp add: push_bit_eq_mult)

lemma divide_min: "shl rez 1 = (0 :: u64) \<Longrightarrow> - rez = rez"
  by (simp add: push_bit_eq_mult eq_neg_iff_add_eq_0 neg_eq_iff_add_eq_0 mult_2_right)

lemma arith_divide_value:
  "arith_divide TOK_DIV rez right = word_of_int (sgn (sint rez) * sgn (sint right) * (\<bar>sint rez\<bar> div \<bar>sint right\<bar>))"
  "arith_divide TOK_REM rez right = word_of_int (sgn (sint rez) * (\<bar>sint rez\<bar> mod \<bar>sint right\<bar>))"
proof -
  have "sint (- 1 :: u64) = - 1" by simp
  note d = arith_divide_def Let_def tok_vals signed_divide_int_def signed_modulo_int_def this
  have "word_of_int (sgn (sint rez) * \<bar>sint rez\<bar>) = rez" by (simp add: sgn_mult_abs del: of_int_mult)
  then show "arith_divide TOK_DIV rez right = word_of_int (sgn (sint rez) * sgn (sint right) * (\<bar>sint rez\<bar> div \<bar>sint right\<bar>))"
    using divide_min [of rez] by (cases "right = - 1 \<and> shl rez 1 = 0") (auto simp: d)
  show "arith_divide TOK_REM rez right = word_of_int (sgn (sint rez) * (\<bar>sint rez\<bar> mod \<bar>sint right\<bar>))"
    by (cases "right = - 1 \<and> shl rez 1 = 0") (auto simp: d)
qed

lemma binary_value_word:
  assumes "op \<in> set binary_ops" "\<not> is_assign_op op"
  shows "arith_binary op v w 0 = wrap_value (binary_value (spelling op) (sint v) (sint w))"
proof -
  have "op \<in> {12, 44, 5, 6, 42, 107, 75, 10, 47, 11, 43, 7, 9, 14, 46, 78, 13, 45, 8, 1}"
    using assms by (auto simp: binary_ops_vals is_assign_op_def tok_eval)
  moreover have "word_of_int (sint v AND sint w) = v AND w" "word_of_int (sint v OR sint w) = v OR w"
    "word_of_int (sint v XOR sint w) = v XOR w"
    by (simp_all add: of_int_and_eq of_int_or_eq of_int_xor_eq)
  ultimately show ?thesis
    unfolding insert_iff empty_iff
    by (elim disjE)
      (simp_all add: arith_binary_def binary_value_def spelling_vals spelling_vals [unfolded One_nat_def] nat_sint_mod64 pow_loop_power
         unat_nat_sint signed_drop_bit_value shl_value arith_divide_value [unfolded tok_vals] tok_vals signed_eq_0_iff sint_eq_iff bool_val_def disj_commute)
qed
lemma walk_value:
  assumes r: "reads ev ms env"
  shows "wf e \<Longrightarrow> pure e \<Longrightarrow> steps ev ms env [] (postorder e) (eval_expr env e)"
proof (induction e)
  case (Num n)
  show ?case by (simp add: steps_def holds_value_def new_number_def)
next
  case (Name_ref x)
  show ?case by (simp add: steps_def holds_value_def new_name_def)
next
  case (Uop op a)
  have w: "arith_unary op v = Some (word_of_int (unary_value (spelling op) (sint v)))" for v
    using unary_value_word Uop.prems(1) by simp
  have "steps ev ms env [t] [App op] (wrap_value (Inr (unary_value (spelling op) (sint v))))" if t: "holds_value env t v" for t v
    using apply_unary_value [OF r t w] Uop.prems(2) by (intro steps_apply) simp
  then show ?case unfolding postorder.simps eval_expr.simps using Uop by (intro steps_bind) auto
next
  case (Post op x)
  then show ?case by simp
next
  case (Bop op a b)
  have op: "arith_unary op v = None" for v
    using arities(2) Bop.prems(1) arith_unary_arity [of op v] by (auto simp: list_all_iff)
  have "op \<noteq> TOK_CONDITIONAL" "op \<noteq> TOK_CONDITIONAL_SEP"
    using Bop.prems(1) by (auto simp: binary_ops_vals tok_vals)
  moreover have "arith_binary op v w 0 = wrap_value (binary_value (spelling op) (sint v) (sint w))" for v w
    using binary_value_word Bop.prems by simp
  ultimately have "steps ev ms env [u, t] [App op] (wrap_value (binary_value (spelling op) (sint v) (sint w)))"
    if "holds_value env t v" "holds_value env u w" for t u v w
    using apply_binary_value [OF r that op] Bop.prems(2) by (intro steps_apply) (unfold append.simps, simp)
  then show ?case unfolding postorder.simps eval_expr.simps using Bop by (intro steps_bind) auto
next
  case (Cond a b c)
  have "steps ev ms env [s, u, t] [App TOK_CONDITIONAL_SEP, App TOK_CONDITIONAL] (Inr (if v \<noteq> 0 then w else x))"
    if "holds_value env t v" "holds_value env u w" "holds_value env s x" for t u s v w x
    using apply_cond_value [OF r that] by (simp add: steps_def del: walk.simps)
  then show ?case unfolding postorder.simps eval_expr.simps using Cond by (intro steps_bind) auto
qed

section \<open>Variables that hold numbers\<close>

lemma strto_scan_dec0: "strto_scan (dec_nat n) 0 = Some (False, n, [])"
proof (cases "n = 0")
  case True
  have "dec_nat 0 = ''0''" by (simp add: dec_nat.simps char_of_def bit_0)
  then show ?thesis using True by (simp add: strto_scan_def Let_def is_digit_of_def digit_val_def ctype_defs)
next
  case False
  then have "peek (dec_nat n) \<noteq> CHR ''0''" using dec_nat_first [of n "[]"] by simp
  moreover have "is_digit_of 10 (peek (dec_nat n))"
    by (rule dec_nat_head [of n]) (auto simp: is_digit_of_def digit_val_def isdigit_def)
  moreover have "dropWhile isspace (dec_nat n) = dec_nat n"
    using peek_dec_nat(4) [of n "[]"] by (cases "dec_nat n") auto
  ultimately show ?thesis
    using peek_dec_nat [of n "[]"] by (simp add: strto_scan_def Let_def scan_dec_nat)
qed

lemma next_token_dec: "n < 2 ^ 64 \<Longrightarrow> next_token f (dec_nat n) = (Number (of_nat n), [])"
  by (rule dec_nat_head [of n])
    (use strto_scan_dec0 [of n] in \<open>auto simp: next_token_def endofname_def is_name_def ctype_defs strto_arith_t_def strtoull_def\<close>)

lemma skip_dec [simp]: "skip_whitespace (dec_nat n) = dec_nat n"
  using peek_dec_nat(4) [of n "[]"] by (simp add: skip_whitespace_id)

lemma loop_last_number:
  assumes "n < 2 ^ 64" "2 \<le> l"
  shows "eval_loop ev l b ms (In_expr (dec_nat n)) [] stack lasttok
     = eval_loop ev l b ms (In_expr []) [new_number (of_nat n)] stack TOK_NUM"
  using assms div_greater_zero_iff [of l 2] by (subst eval_loop.simps) (auto simp: next_token_dec Let_def)

lemma next_token_minus: "next_token False (CHR ''-'' # dec_nat n) = (Operator TOK_SUB, dec_nat n)"
  by (rule dec_nat_head [of n])
    (auto simp: next_token_def endofname_def is_name_def ctype_defs op_tokens_def)

lemma lookup_number [simp]: "arith_lookup_val ev ms (new_number v) = Ret (ms, new_number v, None)"
  by (simp add: arith_lookup_val_def new_number_def)

lemma num_not_operand: "\<not> operand_next TOK_NUM"
  by (simp add: operand_next_def)

lemma evaluate_dec_nat:
  assumes "n < 2 ^ 64"
  shows "evaluate_string (Suc d) ms (dec_nat n) = Ret (ms\<lparr>errmsg := None\<rparr>, of_nat n)"
  using assms loop_end [of "[]" TOK_NUM "evaluate_string d" ms "[new_number (of_nat n)]"] num_not_operand
  by (simp add: Let_def loop_last_number final_value_def) (simp add: new_number_def)

lemma evaluate_dec_minus:
  assumes "n < 2 ^ 64"
  shows "evaluate_string (Suc d) ms (CHR ''-'' # dec_nat n) = Ret (ms\<lparr>errmsg := None\<rparr>, - of_nat n)"
proof -
  let ?ev = "evaluate_string d" and ?l = "Suc (Suc (Suc (length (dec_nat n))))"
  have op: "operand_next TOK_LPAREN" "unary_form TOK_SUB = TOK_UMINUS" "UNARYPREC \<le> PREC TOK_UMINUS" "PREC TOK_UMINUS \<noteq> SPEC_PREC"
    by (rule operand_next_op) (simp_all add: unary_form_def tok_eval)
  have "evaluate_string (Suc d) ms (CHR ''-'' # dec_nat n)
      = eval_loop ?ev ?l False ms (In_expr (CHR ''-'' # dec_nat n)) [] [TOK_LPAREN] TOK_LPAREN"
    by (simp add: skip_whitespace_id isspace_def Let_def)
  also have "\<dots> = eval_loop ?ev ?l False ms (In_expr (dec_nat n)) [] [TOK_UMINUS, TOK_LPAREN] TOK_UMINUS"
    using op(1) by (subst eval_loop.simps)
      (simp add: skip_whitespace_id isspace_def Let_def next_token_minus do_prefix [OF op(1,2)] op operand_next_def)
  also have "\<dots> = eval_loop ?ev ?l False ms (In_expr []) [new_number (of_nat n)] ([TOK_UMINUS] @ [TOK_LPAREN]) TOK_NUM"
    using assms by (simp add: loop_last_number)
  also have "\<dots> = Ret (ms\<lparr>errmsg := None\<rparr>, - of_nat n)"
  proof -
    have "arith_apply ?ev ms TOK_UMINUS [new_number (of_nat n)] = Ret (ms, Inr [new_number (- of_nat n)])"
      by (simp add: arith_apply_def arith_unary_def finish_apply_def arith_store_def is_assign_op_def tok_eval)
        (simp add: new_number_def)
    moreover have "list_all (pops TOK_RPAREN) [TOK_UMINUS]" by (simp add: pops_def tok_vals)
    ultimately show ?thesis
      using loop_end [of "[TOK_UMINUS]" TOK_NUM ?ev ms "[new_number (of_nat n)]" ?l] num_not_operand
      by (simp add: final_value_def) (simp add: new_number_def)
  qed
  finally show ?thesis .
qed

lemma evaluate_dec_int: "evaluate_string (Suc d) ms (dec_int (sint v)) = Ret (ms\<lparr>errmsg := None\<rparr>, v)"
proof (cases "sint v < 0")
  case True
  have "nat (- sint v) < 2 ^ 64" using sint_ge [of v] by simp
  from evaluate_dec_minus [OF this, of d ms] True show ?thesis by (simp add: dec_int_def)
next
  case False
  have "nat (sint v) < 2 ^ 64" using sint_lt [of v] by simp
  from evaluate_dec_nat [OF this, of d ms] False show ?thesis by (simp add: dec_int_def)
qed

lemma reads_numbers:
  assumes "\<And>x. case lookupvar ms (shell ms) x of None \<Rightarrow> env x = 0 | Some s \<Rightarrow> s = dec_int (sint (env x))"
    "errmsg ms = None" "list_of_recursed_names ms = []"
  shows "reads (evaluate_string (Suc d)) ms env"
  unfolding reads_def
proof (intro allI impI)
  fix t :: var_or_num and x
  assume x: "var t = Some x"
  have ms: "ms\<lparr>list_of_recursed_names := [x], errmsg := None, list_of_recursed_names := []\<rparr> = ms"
    using assms(2,3) by simp
  show "arith_lookup_val (evaluate_string (Suc d)) ms t = Ret (ms, t\<lparr>val := env x\<rparr>, None)"
  proof (cases "lookupvar ms (shell ms) x")
    case None
    then show ?thesis using assms(1) [of x] x by (simp add: arith_lookup_val_def)
  next
    case (Some s)
    then have "s = dec_int (sint (env x))" using assms(1) [of x] by simp
    then show ?thesis
      using Some x ms assms(2,3) by (simp add: arith_lookup_val_def evaluate_dec_int Let_def del: evaluate_string.simps)
  qed
qed

end
