(* ===== verification/Sh_Math_Props.thy ===== *)
theory Sh_Math_Props
  imports Sh_Math_Correct
begin

text \<open>
  Properties of the shell arithmetic evaluator: parsing, values, assignment, termination of recursive
  variables, and what goes wrong at its edges.
\<close>

section \<open>Recursion through variables ends\<close>

definition safe :: "('a \<Rightarrow> bool) \<Rightarrow> 'a outcome \<Rightarrow> bool" where
  "safe P r \<longleftrightarrow> (case r of Ret x \<Rightarrow> P x | Overrun \<Rightarrow> True | Too_deep \<Rightarrow> False)"

lemma safe_simps [simp]: "safe P (Ret x) = P x" "safe P Overrun" "\<not> safe P Too_deep"
  by (simp_all add: safe_def)

lemma safe_and_then: "safe P r \<Longrightarrow> (\<And>x. P x \<Longrightarrow> safe Q (f x)) \<Longrightarrow> safe Q (and_then r f)"
  by (cases r) auto

definition keeps :: "('s arith_state \<Rightarrow> bool) \<Rightarrow> ('s arith_state \<times> 'r) outcome \<Rightarrow> bool" where
  "keeps ok r \<longleftrightarrow> safe (\<lambda>(ms, x). ok ms) r"

lemma keeps_simps [simp]: "keeps ok (Ret (ms, x)) = ok ms" "keeps ok Overrun" "\<not> keeps ok Too_deep"
  by (simp_all add: keeps_def)

lemma keeps_and_then:
  "keeps ok r \<Longrightarrow> (\<And>ms x. ok ms \<Longrightarrow> keeps ok (f (ms, x))) \<Longrightarrow> keeps ok (and_then r f)"
  unfolding keeps_def by (erule safe_and_then) auto

text \<open>What the evaluator needs of an invariant of the state: lookups keep it, and so do assignments and
  setting the error message.\<close>

definition arith_invariant :: "'s evaluator \<Rightarrow> ('s arith_state \<Rightarrow> bool) \<Rightarrow> bool" where
  "arith_invariant ev ok \<longleftrightarrow>
     (\<forall>ms t. ok ms \<longrightarrow> keeps ok (arith_lookup_val ev ms t))
   \<and> (\<forall>ms x (v::u64). ok ms \<longrightarrow> ok (ms\<lparr>shell := setvar ms (shell ms) x (dec_int (sint v))\<rparr>))
   \<and> (\<forall>ms m. ok ms \<longrightarrow> ok (ms\<lparr>errmsg := m\<rparr>))"

lemma arith_invariantD:
  assumes "arith_invariant ev ok" "ok ms"
  shows "keeps ok (arith_lookup_val ev ms t)"
    and "ok (ms\<lparr>shell := setvar ms (shell ms) x (dec_int (sint (v::u64)))\<rparr>)"
    and "ok (ms\<lparr>errmsg := m\<rparr>)"
  using assms unfolding arith_invariant_def by blast+

lemma keeps_finish: "arith_invariant ev ok \<Longrightarrow> ok ms \<Longrightarrow> keeps ok (finish_apply ms op t v rest)"
  using arith_invariantD(2) [of ev ok ms] by (auto simp: finish_apply_def arith_store_def Let_def split: option.splits)

lemma keeps_apply: "arith_invariant ev ok \<Longrightarrow> ok ms \<Longrightarrow> keeps ok (arith_apply ev ms op nums)"
  by (auto simp: arith_apply_def Let_def split: list.split option.split sum.split
      intro!: keeps_and_then arith_invariantD(1) keeps_finish)

lemma keeps_pop: "arith_invariant ev ok \<Longrightarrow> ok ms \<Longrightarrow> keeps ok (pop_ops ev op ms nums stack)"
  by (induction stack arbitrary: ms nums)
    (auto simp: Let_def split: sum.split intro!: keeps_and_then keeps_apply)

lemma keeps_operator: "arith_invariant ev ok \<Longrightarrow> ok ms \<Longrightarrow> keeps ok (do_operator ev ms op lasttok nums stack)"
  by (auto simp: do_operator_def Let_def split: popped.split intro!: keeps_and_then keeps_pop)

lemma keeps_give_up: "arith_invariant ev ok \<Longrightarrow> ok ms \<Longrightarrow> keeps ok (give_up ms err)"
  by (simp add: give_up_def arith_invariantD)

lemma keeps_loop: "arith_invariant ev ok \<Longrightarrow> ok ms \<Longrightarrow> keeps ok (eval_loop ev l b ms pos nums stack lasttok)"
proof (induction "togo pos" arbitrary: ms pos nums stack lasttok rule: less_induct)
  case less
  let ?expr = "skip_whitespace (text_at pos)"
  show ?case
  proof (cases "?expr = []")
    case True
    then show ?thesis
      using less
      by (subst eval_loop.simps)
        (auto simp: Let_def arith_invariantD(3) split: position.split list.split intro!: keeps_and_then arith_invariantD(1) keeps_give_up)
  next
    case False
    obtain tok rest where t: "next_token (lasttok = TOK_NUM \<and> (nums = [] \<or> var (hd nums) = None)) ?expr = (tok, rest)"
      by fastforce
    have m: "tok \<noteq> Bad_token \<Longrightarrow> togo (move_to pos rest) < togo pos" using move_progress [OF t _ False] .
    show ?thesis
      using less(2,3) less(1) [OF m] False t
      by (subst eval_loop.simps)
        (auto simp: Let_def split: token.split sum.split intro!: keeps_and_then keeps_operator keeps_give_up)
  qed
qed

text \<open>The shell's variables obey the laws of a store.\<close>

definition store_laws :: "('s \<Rightarrow> string \<Rightarrow> string option) \<Rightarrow> ('s \<Rightarrow> string \<Rightarrow> string \<Rightarrow> 's) \<Rightarrow> bool" where
  "store_laws lk st \<longleftrightarrow> (\<forall>s x v y. lk (st s x v) y = (if y = x then Some v else lk s y))"

text \<open>Every variable is as it was in \<open>s0\<close>, when the evaluation started, or holds a number.\<close>

definition tracked :: "('s \<Rightarrow> string \<Rightarrow> string option) \<Rightarrow> ('s \<Rightarrow> string \<Rightarrow> string \<Rightarrow> 's) \<Rightarrow> 's \<Rightarrow> string list
    \<Rightarrow> 's arith_state \<Rightarrow> bool" where
  "tracked lk st s0 names ms \<longleftrightarrow> lookupvar ms = lk \<and> setvar ms = st \<and> list_of_recursed_names ms = names
     \<and> (\<forall>x v. lk (shell ms) x = Some v \<longrightarrow> lk s0 x = Some v \<or> (\<exists>k::u64. v = dec_int (sint k)))"

lemma tracked_pop: "tracked lk st s0 (x # names) ms \<Longrightarrow> tracked lk st s0 names (ms\<lparr>list_of_recursed_names := names\<rparr>)"
  by (simp add: tracked_def)

lemma tracked_lookup:
  assumes ms: "tracked lk st s0 names ms"
    and ev: "\<And>x p ms. lk s0 x = Some p \<Longrightarrow> x \<notin> set names \<Longrightarrow> tracked lk st s0 (x # names) ms \<Longrightarrow> keeps (tracked lk st s0 (x # names)) (ev ms p)"
    and dec: "\<And>ms k. ev ms (dec_int (sint (k::u64))) = Ret (ms\<lparr>errmsg := None\<rparr>, k)"
  shows "keeps (tracked lk st s0 names) (arith_lookup_val ev ms t)"
proof (cases "\<exists>x p. var t = Some x \<and> lk (shell ms) x = Some p \<and> x \<notin> set names")
  case False
  then show ?thesis using ms by (auto simp: arith_lookup_val_def tracked_def split: option.split)
next
  case True
  then obtain x p where x: "var t = Some x" "lk (shell ms) x = Some p" "x \<notin> set names" by blast
  let ?ms = "ms\<lparr>list_of_recursed_names := x # names\<rparr>"
  have t: "tracked lk st s0 (x # names) ?ms" using ms by (simp add: tracked_def)
  have e: "lookupvar ms = lk" "list_of_recursed_names ms = names" using ms by (simp_all add: tracked_def)
  have "keeps (tracked lk st s0 (x # names)) (ev ?ms p)"
  proof (cases "lk s0 x = Some p")
    case True
    then show ?thesis using ev x(3) t by blast
  next
    case False
    then obtain k :: u64 where "p = dec_int (sint k)" using x(2) ms by (auto simp: tracked_def)
    then show ?thesis using dec [of ?ms k] t by (simp add: tracked_def)
  qed
  then show ?thesis
    using x e by (cases "ev ?ms p") (auto simp: arith_lookup_val_def Let_def tracked_pop)
qed

lemma tracked_evaluate:
  assumes laws: "store_laws lk st" and fin: "finite (dom (lk s0))"
  shows "card (dom (lk s0) - set names) + 1 < d \<Longrightarrow> tracked lk st s0 names ms
    \<Longrightarrow> keeps (tracked lk st s0 names) (evaluate_string d ms input)"
proof (induction d arbitrary: names ms input)
  case (Suc d)
  then obtain d' where d': "d = Suc d'" by (cases d) auto
  have "keeps (tracked lk st s0 names) (arith_lookup_val (evaluate_string d) ms t)" if "tracked lk st s0 names ms" for ms t
  proof (rule tracked_lookup [OF that])
    fix x p and ms :: "'a arith_state"
    assume x: "lk s0 x = Some p" "x \<notin> set names" "tracked lk st s0 (x # names) ms"
    then have "card (dom (lk s0) - set (x # names)) < card (dom (lk s0) - set names)"
      using fin by (intro psubset_card_mono) (auto simp: dom_def)
    then show "keeps (tracked lk st s0 (x # names)) (evaluate_string d ms p)" using Suc.IH Suc.prems(1) x(3) by simp
  qed (simp add: d' evaluate_dec_int del: evaluate_string.simps)
  then have "arith_invariant (evaluate_string d) (tracked lk st s0 names)"
    using laws unfolding arith_invariant_def by (auto simp: tracked_def store_laws_def split: if_splits)
  from keeps_loop [OF this Suc.prems(2)] show ?case by (simp add: Let_def)
qed simp


section \<open>Assignment\<close>

lemma reads_arith:
  assumes "\<And>x. case lookupvar ms (shell ms) x of None \<Rightarrow> env x = 0 | Some s \<Rightarrow> s = dec_int (sint (env x))"
  shows "reads (evaluate_string (Suc d)) (ms\<lparr>errmsg := None, list_of_recursed_names := []\<rparr>) env"
  by (rule reads_numbers) (use assms in simp_all)

lemma walk_assign:
  assumes r: "reads ev ms env" and e: "wf e" "pure e"
  shows "case eval_expr env e of
      Inl err \<Rightarrow> walk ev (postorder (Bop TOK_ASSIGN (Name_ref x) e)) ms nums = Ret (ms, Inl err)
    | Inr v \<Rightarrow> walk ev (postorder (Bop TOK_ASSIGN (Name_ref x) e)) ms nums
        = Ret (ms\<lparr>shell := setvar ms (shell ms) x (dec_int (sint v))\<rparr>, Inr (new_number v # nums))"
proof (cases "eval_expr env e")
  case (Inl err)
  then show ?thesis using walk_value [OF r e] by (simp add: steps_def walk_append)
next
  case (Inr v)
  then obtain t where t: "walk ev (postorder e) ms (new_name x # nums) = Ret (ms, Inr (t # new_name x # nums))"
    "holds_value env t v" using walk_value [OF r e] by (auto simp: steps_def)
  obtain t' where t': "arith_lookup_val ev ms t = Ret (ms, t', None)" "val t' = v" "second_val_present t' = 0"
    by (rule lookup_holds [OF r t(2)])
  have op: "arith_unary TOK_ASSIGN k = None" "is_assign_op TOK_ASSIGN" "TOK_ASSIGN \<noteq> TOK_CONDITIONAL"
     "TOK_ASSIGN \<noteq> TOK_CONDITIONAL_SEP" "TOK_ASSIGN \<noteq> TOK_POST_INC" "TOK_ASSIGN \<noteq> TOK_POST_DEC"
     "arith_binary TOK_ASSIGN a b c = Inr b" for k a b c
    by (simp_all add: arith_unary_def is_assign_op_def arith_binary_def tok_eval)
  have "arith_apply ev ms TOK_ASSIGN (t # new_name x # nums)
      = Ret (ms\<lparr>shell := setvar ms (shell ms) x (dec_int (sint v))\<rparr>, Inr (new_number v # nums))"
    using t' op by (simp add: arith_apply_def finish_apply_def arith_store_def Let_def) (simp add: new_name_def new_number_def)
  then show ?thesis using Inr t(1) by (simp add: walk_append)
qed

section \<open>Properties\<close>

text \<open>C2. Parsing is right: on the text of any expression of the grammar, printed with only the
  parentheses that the precedences and associativities demand, \<open>arith\<close> applies the operators exactly in
  the post-order of the expression tree, with their assignments, variable lookups and errors, without
  running past either stack; the value is that of the one entry left, and the first error stops it.\<close>

theorem arith_walks_tree:
  assumes "wf e"
  shows "arith (Suc depth) ms (body e)
     = next_do (walk (evaluate_string depth) (postorder e) (ms\<lparr>errmsg := None, list_of_recursed_names := []\<rparr>) [])
         give_up (final_value (evaluate_string depth))"
  by (simp only: arith_def evaluate_string_body [OF assms])

abbreviation plain_shell :: "(string \<Rightarrow> string option) \<Rightarrow> (string \<Rightarrow> string option) arith_state" where
  "plain_shell s \<equiv> \<lparr>errmsg = None, lookupvar = (\<lambda>s x. s x), setvar = (\<lambda>s x v. s(x \<mapsto> v)), shell = s,
     list_of_recursed_names = []\<rparr>"

lemma small_dec_nat: "n < 10 \<Longrightarrow> dec_nat n = [char_of (48 + n)]"
  by (simp add: dec_nat.simps)

lemmas arith_eval = tok_eval op_text parens_def tok_def left_level_def right_level_def
  small_dec_nat char_of_def bit_0

theorem arith_walks_tree_witness:
  "arith 1 (plain_shell Map.empty) ''a = 1 + 2 * ( 3 - 4 ) '' = Ret (plain_shell [''a'' \<mapsto> ''-1''], - 1)"
proof -
  let ?e = "Bop TOK_ASSIGN (Name_ref ''a'') (Bop TOK_ADD (Num 1) (Bop TOK_MUL (Num 2) (Bop TOK_SUB (Num 3) (Num 4))))"
  have w: "wf ?e" by (simp add: binary_ops_vals tok_vals is_ident_def is_name_def ctype_defs)
  have b: "body ?e = ''a = 1 + 2 * ( 3 - 4 ) ''" by (simp add: arith_eval)
  show ?thesis
    using arith_walks_tree [OF w, of 0 "plain_shell Map.empty"] unfolding b
    by (simp add: arith_apply_def arith_unary_def arith_binary_def arith_lookup_val_def finish_apply_def arith_store_def is_assign_op_def
       new_number_def new_name_def tok_eval final_value_def Let_def dec_int_def small_dec_nat char_of_def bit_0)
qed


text \<open>C5. Without assignments and increments, and with every variable unset or holding the decimal text of
  a 64-bit number, \<open>arith\<close> returns the value of the expression on 64-bit two's complement integers, or
  its first error and -1; the shell is not changed.\<close>

theorem arith_computes_value:
  assumes "wf e" "pure e"
    "\<And>x. case lookupvar ms (shell ms) x of None \<Rightarrow> env x = 0 | Some s \<Rightarrow> s = dec_int (sint (env x))"
  shows "arith (Suc (Suc depth)) ms (body e) =
    (case eval_expr env e of
       Inl err \<Rightarrow> Ret (ms\<lparr>errmsg := Some err, list_of_recursed_names := []\<rparr>, - 1)
     | Inr v \<Rightarrow> Ret (ms\<lparr>errmsg := None, list_of_recursed_names := []\<rparr>, v))"
proof -
  let ?ms = "ms\<lparr>errmsg := None, list_of_recursed_names := []\<rparr>" and ?ev = "evaluate_string (Suc depth)"
  have r: "reads ?ev ?ms env" by (rule reads_arith [OF assms(3)])
  have w: "steps ?ev ?ms env [] (postorder e) (eval_expr env e)" by (rule walk_value [OF r assms(1,2)])
  have a: "arith (Suc (Suc depth)) ms (body e) = next_do (walk ?ev (postorder e) ?ms []) give_up (final_value ?ev)"
    by (simp only: arith_def evaluate_string_body [OF assms(1)])
  show ?thesis
  proof (cases "eval_expr env e")
    case (Inl err)
    then show ?thesis using w by (simp add: a steps_def give_up_def del: evaluate_string.simps)
  next
    case (Inr v)
    then obtain t where t: "walk ?ev (postorder e) ?ms [] = Ret (?ms, Inr [t])" "holds_value env t v"
      using w by (auto simp: steps_def)
    obtain t' where "arith_lookup_val ?ev ?ms t = Ret (?ms, t', None)" "val t' = v"
      by (rule lookup_holds [OF r t(2)])
    then show ?thesis using Inr t(1) by (simp add: a final_value_def del: evaluate_string.simps)
  qed
qed

theorem arith_computes_value_witness:
  "arith 2 (plain_shell [''a'' \<mapsto> ''-7'']) ''( a + 1 ) / 4 ? ~ a : 9 '' = Ret (plain_shell [''a'' \<mapsto> ''-7''], 6)
   \<and> arith 2 (plain_shell [''a'' \<mapsto> ''-7'']) ''7 % ( a + 7 ) '' = Ret ((plain_shell [''a'' \<mapsto> ''-7''])\<lparr>errmsg := Some ''divide by zero''\<rparr>, - 1)"
proof -
  let ?e = "Cond (Bop TOK_DIV (Bop TOK_ADD (Name_ref ''a'') (Num 1)) (Num 4)) (Uop TOK_BNOT (Name_ref ''a'')) (Num 9)"
  let ?f = "Bop TOK_REM (Num 7) (Bop TOK_ADD (Name_ref ''a'') (Num 7))"
  let ?s = "plain_shell [''a'' \<mapsto> ''-7'']" and ?env = "\<lambda>x. if x = ''a'' then - 7 else 0 :: u64"
  have w: "wf ?e" "wf ?f" by (simp_all add: binary_ops_vals unary_ops_def tok_vals is_ident_def is_name_def ctype_defs)
  have p: "pure ?e" "pure ?f" by (simp_all add: is_assign_op_def tok_eval)
  have b: "body ?e = ''( a + 1 ) / 4 ? ~ a : 9 ''" "body ?f = ''7 % ( a + 7 ) ''" by (simp_all add: arith_eval)
  have l: "case lookupvar ?s (shell ?s) x of None \<Rightarrow> ?env x = 0 | Some s \<Rightarrow> s = dec_int (sint (?env x))" for x
    by (simp add: dec_int_def small_dec_nat char_of_def bit_0)
  have "eval_expr ?env ?e = Inr 6" "eval_expr ?env ?f = Inl ''divide by zero''"
    by (simp_all add: unary_value_def binary_value_def tok_vals spelling_vals)
  then show ?thesis
    using arith_computes_value [OF w(1) p(1) l, of 0] arith_computes_value [OF w(2) p(2) l, of 0] unfolding b
    by (simp add: numeral_2_eq_2 del: fun_upd_apply)
qed

text \<open>C18. Assigning stores the decimal text of the value and returns the value; evaluating the name
  afterwards gives it back.  When the right side fails nothing is stored.\<close>

theorem arith_assign_read:
  assumes "wf e" "pure e" "is_ident x" "store_laws (lookupvar ms) (setvar ms)"
    "\<And>x. case lookupvar ms (shell ms) x of None \<Rightarrow> env x = 0 | Some s \<Rightarrow> s = dec_int (sint (env x))"
  shows "case eval_expr env e of
      Inl err \<Rightarrow> arith (Suc (Suc depth)) ms (body (Bop TOK_ASSIGN (Name_ref x) e))
        = Ret (ms\<lparr>errmsg := Some err, list_of_recursed_names := []\<rparr>, - 1)
    | Inr v \<Rightarrow> (\<exists>ms'. arith (Suc (Suc depth)) ms (body (Bop TOK_ASSIGN (Name_ref x) e)) = Ret (ms', v)
        \<and> ms' = ms\<lparr>errmsg := None, list_of_recursed_names := [], shell := setvar ms (shell ms) x (dec_int (sint v))\<rparr>
        \<and> arith (Suc (Suc depth)) ms' (body (Name_ref x)) = Ret (ms', v))"
proof -
  let ?ms = "ms\<lparr>errmsg := None, list_of_recursed_names := []\<rparr>" and ?ev = "evaluate_string (Suc depth)"
  let ?a = "Bop TOK_ASSIGN (Name_ref x) e"
  have wa: "wf ?a" using assms by (simp add: binary_ops_vals tok_vals)
  have r: "reads ?ev ?ms env" by (rule reads_arith [OF assms(5)])
  note w = walk_assign [OF r assms(1,2), of x "[]"]
  have a: "arith (Suc (Suc depth)) m (body f) = next_do (walk ?ev (postorder f) (m\<lparr>errmsg := None, list_of_recursed_names := []\<rparr>) [])
      give_up (final_value ?ev)" if "wf f" for m :: "'a arith_state" and f
    by (simp only: arith_def evaluate_string_body [OF that])
  show ?thesis
  proof (cases "eval_expr env e")
    case (Inl err)
    then show ?thesis using w a [OF wa] by (simp add: give_up_def del: evaluate_string.simps postorder.simps body.simps)
  next
    case (Inr v)
    let ?ms' = "?ms\<lparr>shell := setvar ms (shell ms) x (dec_int (sint v))\<rparr>"
    have 1: "arith (Suc (Suc depth)) ms (body ?a) = Ret (?ms', v)"
      using Inr w a [OF wa] by (simp add: final_value_def del: evaluate_string.simps postorder.simps body.simps)
        (simp add: new_number_def)
    have "lookupvar ms (shell ?ms') x = Some (dec_int (sint v))" using assms(4) by (simp add: store_laws_def)
    then have "arith_lookup_val ?ev ?ms' (new_name x) = Ret (?ms', (new_name x)\<lparr>val := v\<rparr>, None)"
      by (simp add: arith_lookup_val_def new_name_def evaluate_dec_int Let_def del: evaluate_string.simps)
    moreover have s: "?ms'\<lparr>errmsg := None, list_of_recursed_names := []\<rparr> = ?ms'" by simp
    ultimately have 2: "arith (Suc (Suc depth)) ?ms' (body (Name_ref x)) = Ret (?ms', v)"
      using a [of "Name_ref x" ?ms', unfolded s] assms(3) by (simp add: final_value_def del: evaluate_string.simps body.simps)
    show ?thesis using Inr 1 2 by (simp del: evaluate_string.simps body.simps)
  qed
qed

theorem arith_assign_read_witness:
  "arith 2 (plain_shell Map.empty) ''q = 2 ** 3 '' = Ret (plain_shell [''q'' \<mapsto> ''8''], 8)
   \<and> arith 2 (plain_shell [''q'' \<mapsto> ''8'']) ''q '' = Ret (plain_shell [''q'' \<mapsto> ''8''], 8)"
proof -
  let ?e = "Bop TOK_EXPONENT (Num 2) (Num 3)" and ?s = "plain_shell Map.empty" and ?env = "\<lambda>x. 0 :: u64"
  have h: "wf ?e" "pure ?e" "is_ident ''q''" "store_laws (lookupvar ?s) (setvar ?s)"
    by (simp_all add: binary_ops_vals tok_vals is_assign_op_def is_ident_def is_name_def ctype_defs tok_eval store_laws_def)
  have l: "case lookupvar ?s (shell ?s) x of None \<Rightarrow> ?env x = 0 | Some s \<Rightarrow> s = dec_int (sint (?env x))" for x by simp
  have b: "body (Bop TOK_ASSIGN (Name_ref ''q'') ?e) = ''q = 2 ** 3 ''" "body (Name_ref ''q'') = ''q ''"
    by (simp_all add: arith_eval)
  have "pow_loop 3 1 2 = (8::u64)" by (simp add: numeral_3_eq_3)
  then have "eval_expr ?env ?e = Inr 8" by (simp add: binary_value_def tok_vals spelling_vals)
  moreover have "dec_int (sint (8::u64)) = ''8''" by (simp add: dec_int_def small_dec_nat char_of_def bit_0)
  ultimately show ?thesis
    using arith_assign_read [OF h l, of 0] unfolding b by (simp add: numeral_2_eq_2 del: fun_upd_apply)
qed




text \<open>C19. The comment at the number stack claims that no expression has more than half its length plus
  one numbers.  A digit that is not of the base ends a number and the next one starts without anything
  between: the three characters \<^verbatim>\<open>08a\<close> are three numbers, and the third is written past the end of
  the stack.\<close>

theorem arith_overruns_stack: "arith (Suc depth) ms ''08a'' = Overrun"
proof -
  have t: "next_token f ''08a'' = (Number 0, ''8a'')" "next_token f ''8a'' = (Number 8, ''a'')"
    "next_token f ''a'' = (Name ''a'', [])" for f
    by (simp_all add: next_token_def endofname_def is_name_def is_in_name_def ctype_defs strto_arith_t_def strtoull_def strto_scan_def Let_def
        is_digit_of_def digit_val_def)
  have s: "skip_whitespace ''08a'' = ''08a''" "skip_whitespace ''8a'' = ''8a''" "skip_whitespace ''a'' = ''a''"
    by (simp_all add: skip_whitespace_id isspace_def)
  have "eval_loop ev (Suc (Suc (Suc (Suc (Suc 0))))) b ms (In_expr ''08a'') [] stack lasttok = Overrun" for ev b stack lasttok and ms :: "'a arith_state"
    by (subst eval_loop.simps, simp add: s t Let_def, subst eval_loop.simps, simp add: s t Let_def,
        subst eval_loop.simps, simp add: s t Let_def)
  then show ?thesis by (simp add: arith_def s Let_def del: skip_whitespace.simps)
qed

end
