(* ===== verification/Str_Array.thy ===== *)
theory Str_Array
  imports Prelude "HOL-Library.Sublist"
begin

text \<open>
  Searching string tables, \<^verbatim>\<open>libbb/compare_string_array.c\<close>.  A table packed as
  \<^verbatim>\<open>"one\0two\0"\<close> is the list of its strings; an empty string ends it, as the end of the list does.
  A pointer into a string is the rest of the string from there.
\<close>

section \<open>The C library\<close>

fun strcmp :: "string \<Rightarrow> string \<Rightarrow> int" where
  "strcmp [] [] = 0"
| "strcmp [] (d # t) = - 1"
| "strcmp (c # s) [] = 1"
| "strcmp (c # s) (d # t) =
     (if code c < (code d :: nat) then - 1 else if code c > (code d :: nat) then 1 else strcmp s t)"

section \<open>Operations\<close>

fun is_prefixed_with :: "string \<Rightarrow> string \<Rightarrow> string option" where
  "is_prefixed_with string [] = Some string"
| "is_prefixed_with string (k # key) =
     (if k \<noteq> peek string then None else is_prefixed_with (tl string) key)"

definition is_suffixed_with :: "string \<Rightarrow> string \<Rightarrow> string option" where
  "is_suffixed_with string key =
     (let len_diff = int (length string) - int (length key)
      in if len_diff \<ge> 0 then
           (let string = drop (nat len_diff) string in if string = key then Some string else None)
         else None)"

fun index_in_str_array :: "string list \<Rightarrow> string \<Rightarrow> int" where
  "index_in_str_array [] key = - 1"
| "index_in_str_array (s # string_array) key =
     (if s = key then 0 else case index_in_str_array string_array key of i \<Rightarrow> if i = - 1 then - 1 else i + 1)"

fun index_in_strings :: "string list \<Rightarrow> string \<Rightarrow> int" where
  "index_in_strings [] key = - 1"
| "index_in_strings (s # strings) key =
     (if s = [] then - 1 else if s = key then 0
      else case index_in_strings strings key of i \<Rightarrow> if i = - 1 then - 1 else i + 1)"

fun index_in_substrings_loop :: "string list \<Rightarrow> string \<Rightarrow> int \<Rightarrow> int \<Rightarrow> int" where
  "index_in_substrings_loop [] key idx matched_idx = matched_idx"
| "index_in_substrings_loop (s # strings) key idx matched_idx =
     (if s = [] then matched_idx
      else if take (length key) s = key then
        (if length s = length key then idx
         else if matched_idx \<ge> 0 then - 1
         else index_in_substrings_loop strings key (idx + 1) idx)
      else index_in_substrings_loop strings key (idx + 1) matched_idx)"

definition index_in_substrings :: "string list \<Rightarrow> string \<Rightarrow> int" where
  "index_in_substrings strings key = (if key \<noteq> [] then index_in_substrings_loop strings key 0 (- 1) else - 1)"

fun nth_string :: "string list \<Rightarrow> nat \<Rightarrow> string list" where
  "nth_string strings 0 = strings"
| "nth_string strings (Suc n) = nth_string (tl strings) n"

section \<open>Lemmas\<close>

lemma is_prefixed_with_append [simp]: "no_nul key \<Longrightarrow> is_prefixed_with (key @ s) key = Some s"
  by (induction key) auto

lemma is_prefixed_with_iff:
  "no_nul key \<Longrightarrow> is_prefixed_with s key = Some r \<longleftrightarrow> s = key @ r"
proof (induction key arbitrary: s)
  case (Cons k key)
  then show ?case by (cases s) auto
qed simp

lemma is_suffixed_with_iff: "is_suffixed_with s key = Some r \<longleftrightarrow> r = key \<and> suffix key s"
proof (cases "length key \<le> length s")
  case True
  then have "nat (int (length s) - int (length key)) = length s - length key" by simp
  then have "is_suffixed_with s key = (if drop (length s - length key) s = key then Some key else None)"
    using True by (simp add: is_suffixed_with_def Let_def)
  moreover have "drop (length s - length key) s = key \<longleftrightarrow> suffix key s"
    using suffix_drop [of "length s - length key" s] by (auto simp: suffix_def)
  ultimately show ?thesis by auto
next
  case False
  then show ?thesis using suffix_length_le [of key s] by (auto simp: is_suffixed_with_def)
qed

lemma index_in_strings_ge: "- 1 \<le> index_in_strings strings key"
  by (induction strings) auto

lemma index_none:
  "[] \<notin> set strings \<Longrightarrow> index_in_strings strings key = - 1 \<longleftrightarrow> key \<notin> set strings"
proof (induction strings)
  case (Cons s strings)
  then show ?case using index_in_strings_ge [of strings key] by auto
qed simp

lemma index_in_strings_nth:
  assumes "index_in_strings strings key = int i"
  shows "i < length strings \<and> strings ! i = key \<and> key \<notin> set (take i strings)"
  using assms
proof (induction strings arbitrary: i)
  case (Cons s strings)
  then show ?case
    by (cases i) (auto split: if_splits)
qed simp

lemma index_in_strings_distinct:
  "distinct strings \<Longrightarrow> [] \<notin> set strings \<Longrightarrow> i < length strings \<Longrightarrow> index_in_strings strings (strings ! i) = int i"
proof (induction strings arbitrary: i)
  case (Cons s strings)
  then show ?case by (cases i) auto
qed simp

lemma nth_string_drop: "nth_string strings n = drop n strings"
  by (induction strings n rule: nth_string.induct) (simp_all add: drop_Suc)

lemma strcmp_eq_0: "strcmp s t = 0 \<longleftrightarrow> s = t"
  by (induction s t rule: strcmp.induct) auto

text \<open>Abbreviated keys: the entry found is the key itself or the only one that starts with it.\<close>

definition only_match :: "string list \<Rightarrow> string \<Rightarrow> int \<Rightarrow> bool" where
  "only_match strings key m \<longleftrightarrow>
     (if m = - 1 then \<forall>s \<in> set strings. \<not> prefix key s
      else \<exists>i < length strings. m = int i \<and> (\<forall>j < length strings. prefix key (strings ! j) \<longleftrightarrow> j = i))"

lemma take_eq_prefix: "take (length k) s = k \<longleftrightarrow> prefix k s"
  by (metis append_eq_conv_conj prefixE prefixI append_take_drop_id)

lemma only_match_snoc:
  assumes "only_match done key m"
  shows "\<not> prefix key s \<Longrightarrow> only_match (done @ [s]) key m"
    and "prefix key s \<Longrightarrow> m = - 1 \<Longrightarrow> only_match (done @ [s]) key (int (length done))"
proof -
  show "only_match (done @ [s]) key m" if "\<not> prefix key s"
    using assms that by (auto simp: only_match_def nth_append less_Suc_eq split: if_splits)
  show "only_match (done @ [s]) key (int (length done))" if "prefix key s" "m = - 1"
    using assms that by (auto simp: only_match_def nth_append less_Suc_eq dest: nth_mem)
qed

lemma index_in_substrings_loop_sound:
  assumes "only_match done key m" "[] \<notin> set strings"
    and "index_in_substrings_loop strings key (int (length done)) m = int i"
  shows "i < length (done @ strings) \<and> ((done @ strings) ! i = key \<or> only_match (done @ strings) key (int i))"
  using assms
proof (induction strings arbitrary: "done" m)
  case Nil
  then show ?case by (auto simp: only_match_def)
next
  case (Cons s strings)
  have IH: "only_match (done @ [s]) key m' \<Longrightarrow> index_in_substrings_loop strings key (int (length (done @ [s]))) m' = int i \<Longrightarrow>
      i < length (done @ s # strings) \<and> ((done @ s # strings) ! i = key \<or> only_match (done @ s # strings) key (int i))" for m'
    using Cons.IH [of "done @ [s]" m'] Cons.prems(2) by simp
  have m: "m = - 1 \<or> 0 \<le> m" using Cons.prems(1) by (auto simp: only_match_def split: if_splits)
  show ?case
  proof (cases "prefix key s")
    case True
    show ?thesis
    proof (cases "length s = length key")
      case eq: True
      then have "s = key" using True by (metis take_eq_prefix take_all order_refl)
      then show ?thesis using Cons.prems(2,3) True by (auto simp: take_eq_prefix nth_append)
    next
      case False
      then have "m = - 1" "index_in_substrings_loop strings key (int (length done) + 1) (int (length done)) = int i"
        using Cons.prems(2,3) True m by (auto simp: take_eq_prefix split: if_splits)
      then show ?thesis using IH [OF only_match_snoc(2) [OF Cons.prems(1) True]] by (simp add: add.commute)
    qed
  next
    case False
    then have "index_in_substrings_loop strings key (int (length done) + 1) m = int i"
      using Cons.prems(2,3) by (auto simp: take_eq_prefix)
    then show ?thesis using IH [OF only_match_snoc(1) [OF Cons.prems(1) False]] by (simp add: add.commute)
  qed
qed

lemma index_in_substrings_sound:
  assumes "[] \<notin> set strings" "index_in_substrings strings key = int i"
  shows "i < length strings \<and> (strings ! i = key \<or> only_match strings key (int i))"
  using index_in_substrings_loop_sound [of "[]" key "- 1" strings i] assms
  by (auto simp: index_in_substrings_def only_match_def split: if_splits)

end
