(* ===== verification/Expr.thy ===== *)
theory Expr
  imports Strtonum Str_Array "HOL-Library.Signed_Division"
begin

text \<open>
  The expr applet, \<^verbatim>\<open>coreutils/expr.c\<close> with 64-bit arithmetic: values, conversions, comparison,
  arithmetic, pattern matching, the recursive descent \<open>eval\<close>, \<open>eval1\<close> .. \<open>eval7\<close> over the argument
  vector, and \<open>expr_main\<close>.

  The C code keeps its place in a global pointer into the arguments; here every function takes the
  arguments that are left and returns those it leaves.  The regular expression library is a parameter:
  compiling a pattern gives its number of groups and a matcher, or fails.  Memory management is not
  modelled.  The evaluators take a bound on the depth of recursion and on the rounds of a loop, and
  \<open>No_fuel\<close> is running out of it; the number of arguments is always enough.
\<close>

section \<open>Values\<close>

datatype VALUE = INTEGER u64 | STRING string

text \<open>Outcomes: a result, a message and exit status 2, or the division trap of the processor.\<close>

datatype 'a run = Done 'a | Die string | Trap | No_fuel

fun run_bind :: "'a run \<Rightarrow> ('a \<Rightarrow> 'b run) \<Rightarrow> 'b run" where
  "run_bind (Done x) f = f x"
| "run_bind (Die m) f = Die m"
| "run_bind Trap f = Trap"
| "run_bind No_fuel f = No_fuel"

definition null :: "VALUE \<Rightarrow> bool" where
  "null v = (case v of INTEGER i \<Rightarrow> i = 0 | STRING s \<Rightarrow> peek s = NUL \<or> s = ''0'')"

definition tostring :: "VALUE \<Rightarrow> string" where
  "tostring v = (case v of INTEGER i \<Rightarrow> dec_int (sint i) | STRING s \<Rightarrow> s)"

definition toarith :: "VALUE \<Rightarrow> u64 option" where
  "toarith v =
     (case v of
        INTEGER i \<Rightarrow> Some i
      | STRING s \<Rightarrow> (case strtoll s 10 of (i, e, erange) \<Rightarrow> if s = e \<or> peek e \<noteq> NUL then None else Some i))"

type_synonym args = "string list"

definition nextarg :: "args \<Rightarrow> string \<Rightarrow> nat" where
  "nextarg args str =
     (case args of
        [] \<Rightarrow> 0
      | arg # _ \<Rightarrow> if arg \<noteq> str then 0 else code (peek str) + code (peek_at str 1))"

section \<open>Operators\<close>

definition cmp_common :: "VALUE \<Rightarrow> VALUE \<Rightarrow> nat \<Rightarrow> bool" where
  "cmp_common l r op =
     (let (ll, rr) = (case (l, r) of
            (INTEGER i, INTEGER j) \<Rightarrow> (sint i, sint j)
          | _ \<Rightarrow> (strcmp (tostring l) (tostring r), 0))
      in if op = 60 then ll < rr
         else if op = 60 + 61 then ll \<le> rr
         else if op = 61 \<or> op = 61 + 61 then ll = rr
         else if op = 33 + 61 then ll \<noteq> rr
         else if op = 62 then ll > rr
         else ll \<ge> rr)"

definition arithmetic_common :: "VALUE \<Rightarrow> VALUE \<Rightarrow> nat \<Rightarrow> u64 run" where
  "arithmetic_common l r op =
     (case toarith l of
        None \<Rightarrow> Die ''non-numeric argument''
      | Some li \<Rightarrow>
          (case toarith r of
             None \<Rightarrow> Die ''non-numeric argument''
           | Some ri \<Rightarrow>
               if op = 43 then Done (li + ri)
               else if op = 45 then Done (li - ri)
               else if op = 42 then Done (li * ri)
               else if ri = 0 then Die ''division by zero''
               else if sint li = - (2 ^ 63) \<and> sint ri = - 1 then Trap
               else if op = 47 then Done (word_of_int (sint li sdiv sint ri))
               else Done (word_of_int (sint li smod sint ri))))"

text \<open>The regular expression library: the number of groups and the matcher, which gives the start and
  end of the whole match and of the first group (-1 when it did not take part).\<close>

type_synonym regmatch = "int \<times> int"
type_synonym regex = "nat \<times> (string \<Rightarrow> (regmatch \<times> regmatch) option)"
type_synonym regcomp = "string \<Rightarrow> regex option"

definition docolon :: "regcomp \<Rightarrow> VALUE \<Rightarrow> VALUE \<Rightarrow> VALUE run" where
  "docolon rx sv pv =
     (let s = tostring sv
      in case rx (tostring pv) of
           None \<Rightarrow> Die ''bad regex''
         | Some (re_nsub, regexec) \<Rightarrow>
             (case regexec s of
                Some ((so0, eo0), (so1, eo1)) \<Rightarrow>
                  if so0 = 0 then
                    (if re_nsub > 0 \<and> so1 \<ge> 0 then Done (STRING (drop (nat so1) (take (nat eo1) s)))
                     else Done (INTEGER (word_of_int eo0)))
                  else if re_nsub > 0 then Done (STRING []) else Done (INTEGER 0)
              | None \<Rightarrow> if re_nsub > 0 then Done (STRING []) else Done (INTEGER 0)))"

section \<open>Recursive descent\<close>

type_synonym parse = "args \<Rightarrow> (VALUE \<times> args) run"

definition eval7 :: "parse \<Rightarrow> parse" where
  "eval7 eval args =
     (case args of
        [] \<Rightarrow> Die ''syntax error''
      | arg # rest \<Rightarrow>
          if nextarg args ''('' \<noteq> 0 then
            run_bind (eval rest) (\<lambda>(v, args).
              if nextarg args '')'' = 0 then Die ''syntax error'' else Done (v, tl args))
          else if nextarg args '')'' \<noteq> 0 then Die ''syntax error''
          else Done (STRING arg, rest))"

definition keyword_list :: "string list" where
  "keyword_list = [''quote'', ''length'', ''match'', ''index'', ''substr'']"

definition strcspn :: "string \<Rightarrow> string \<Rightarrow> nat" where
  "strcspn s reject = length (takeWhile (\<lambda>c. c \<notin> set reject) s)"

definition do_index :: "VALUE \<Rightarrow> VALUE \<Rightarrow> VALUE" where
  "do_index l r =
     (let i = strcspn (tostring l) (tostring r) + 1
      in INTEGER (if i = length (tostring l) + 1 then 0 else of_nat i))"

text \<open>\<^verbatim>\<open>xstrndup\<close> takes its length as an \<^verbatim>\<open>int\<close>, which \<^verbatim>\<open>strndup\<close> widens to
  \<^verbatim>\<open>size_t\<close>.\<close>

definition xstrndup :: "string \<Rightarrow> u32 \<Rightarrow> string" where
  "xstrndup s n = (if sint n < 0 then s else take (nat (sint n)) s)"

definition do_substr :: "VALUE \<Rightarrow> VALUE \<Rightarrow> VALUE \<Rightarrow> VALUE" where
  "do_substr l i1 i2 =
     (case (toarith i1, toarith i2) of
        (Some i1, Some i2) \<Rightarrow>
          if sint i1 > int (length (tostring l)) \<or> sint i1 \<le> 0 \<or> sint i2 \<le> 0 then STRING []
          else STRING (xstrndup (drop (nat (sint i1 - 1)) (tostring l)) (ucast i2))
      | _ \<Rightarrow> STRING [])"

fun eval6 :: "regcomp \<Rightarrow> parse \<Rightarrow> nat \<Rightarrow> parse" where
  "eval6 rx eval 0 args = No_fuel"
| "eval6 rx eval (Suc n) args =
     (let key = (case args of [] \<Rightarrow> 0 | arg # _ \<Rightarrow> index_in_strings keyword_list arg + 1)
      in if key = 0 then eval7 eval args
         else (let args = tl args
               in if key = 1 then
                    (case args of [] \<Rightarrow> Die ''syntax error'' | arg # args \<Rightarrow> Done (STRING arg, args))
                  else if key = 2 then
                    run_bind (eval6 rx eval n args) (\<lambda>(r, args). Done (INTEGER (of_nat (length (tostring r))), args))
                  else
                    run_bind (eval6 rx eval n args) (\<lambda>(l, args).
                      if key = 3 then
                        run_bind (eval6 rx eval n args) (\<lambda>(r, args).
                          run_bind (docolon rx l r) (\<lambda>v. Done (v, args)))
                      else if key = 4 then
                        run_bind (eval6 rx eval n args) (\<lambda>(r, args). Done (do_index l r, args))
                      else
                        run_bind (eval6 rx eval n args) (\<lambda>(i1, args).
                          run_bind (eval6 rx eval n args) (\<lambda>(i2, args). Done (do_substr l i1 i2, args))))))"

text \<open>The shape of the loops of \<open>eval5\<close> to \<open>eval\<close>: while the next argument is an operator of the level,
  evaluate the operand after it and combine.\<close>

definition find_arg :: "string list \<Rightarrow> args \<Rightarrow> nat" where
  "find_arg ops args = foldr (\<lambda>str rest. if nextarg args str \<noteq> 0 then nextarg args str else rest) ops 0"

fun eval_while ::
    "string list \<Rightarrow> (nat \<Rightarrow> VALUE \<Rightarrow> VALUE \<Rightarrow> VALUE run) \<Rightarrow> parse \<Rightarrow> nat \<Rightarrow> VALUE \<Rightarrow> parse" where
  "eval_while ops combine operand 0 l args = No_fuel"
| "eval_while ops combine operand (Suc n) l args =
     (let op = find_arg ops args
      in if op = 0 then Done (l, args)
         else run_bind (operand (tl args)) (\<lambda>(r, args).
                run_bind (combine op l r) (\<lambda>l. eval_while ops combine operand n l args)))"

definition eval5 :: "regcomp \<Rightarrow> parse \<Rightarrow> nat \<Rightarrow> parse" where
  "eval5 rx eval n args =
     run_bind (eval6 rx eval n args) (\<lambda>(l, args). eval_while ['':''] (\<lambda>op. docolon rx) (eval6 rx eval n) n l args)"

definition arith_op :: "nat \<Rightarrow> VALUE \<Rightarrow> VALUE \<Rightarrow> VALUE run" where
  "arith_op op l r = run_bind (arithmetic_common l r op) (\<lambda>val. Done (INTEGER val))"

definition eval4 :: "regcomp \<Rightarrow> parse \<Rightarrow> nat \<Rightarrow> parse" where
  "eval4 rx eval n args =
     run_bind (eval5 rx eval n args) (\<lambda>(l, args). eval_while [''*'', ''/'', ''%''] arith_op (eval5 rx eval n) n l args)"

definition eval3 :: "regcomp \<Rightarrow> parse \<Rightarrow> nat \<Rightarrow> parse" where
  "eval3 rx eval n args =
     run_bind (eval4 rx eval n args) (\<lambda>(l, args). eval_while [''+'', ''-''] arith_op (eval4 rx eval n) n l args)"

text \<open>Each side becomes a number when it can, before they are compared.\<close>

definition coerce :: "VALUE \<Rightarrow> VALUE" where
  "coerce v = (case toarith v of Some i \<Rightarrow> INTEGER i | None \<Rightarrow> v)"

definition cmp_op :: "nat \<Rightarrow> VALUE \<Rightarrow> VALUE \<Rightarrow> VALUE run" where
  "cmp_op op l r = Done (INTEGER (if cmp_common (coerce l) (coerce r) op then 1 else 0))"

definition eval2 :: "regcomp \<Rightarrow> parse \<Rightarrow> nat \<Rightarrow> parse" where
  "eval2 rx eval n args =
     run_bind (eval3 rx eval n args) (\<lambda>(l, args).
       eval_while [''<'', ''<='', ''='', ''=='', ''!='', ''>='', ''>''] cmp_op (eval3 rx eval n) n l args)"

definition and_op :: "VALUE \<Rightarrow> VALUE \<Rightarrow> VALUE" where
  "and_op l r = (if null l \<or> null r then INTEGER 0 else l)"

definition eval1 :: "regcomp \<Rightarrow> parse \<Rightarrow> nat \<Rightarrow> parse" where
  "eval1 rx eval n args =
     run_bind (eval2 rx eval n args) (\<lambda>(l, args).
       eval_while [''&''] (\<lambda>op l r. Done (and_op l r)) (eval2 rx eval n) n l args)"

definition or_op :: "VALUE \<Rightarrow> VALUE \<Rightarrow> VALUE" where
  "or_op l r = (if null l then r else l)"

fun eval :: "regcomp \<Rightarrow> nat \<Rightarrow> parse" where
  "eval rx 0 args = No_fuel"
| "eval rx (Suc n) args =
     run_bind (eval1 rx (eval rx n) (Suc n) args) (\<lambda>(l, args).
       eval_while [''|''] (\<lambda>op l r. Done (or_op l r)) (eval1 rx (eval rx n) (Suc n)) (Suc n) l args)"

text \<open>What is printed, and the exit status.\<close>

definition expr_main :: "regcomp \<Rightarrow> args \<Rightarrow> (string \<times> nat) run" where
  "expr_main rx args =
     (if args = [] then Die ''too few arguments''
      else run_bind (eval rx (Suc (length args)) args) (\<lambda>(v, args).
        if args \<noteq> [] then Die ''syntax error''
        else Done (tostring v, if null v then 1 else 0)))"


section \<open>Every evaluation returns\<close>

definition good :: "(VALUE \<times> args) run \<Rightarrow> args \<Rightarrow> bool" where
  "good r args \<longleftrightarrow> (case r of Done (v, rest) \<Rightarrow> length rest < length args | No_fuel \<Rightarrow> False | _ \<Rightarrow> True)"

definition returns :: "parse \<Rightarrow> nat \<Rightarrow> bool" where
  "returns f n \<longleftrightarrow> (\<forall>args. length args < n \<longrightarrow> good (f args) args)"

lemma good_simps [simp]:
  "good (Done (v, rest)) args \<longleftrightarrow> length rest < length args" "good (Die m) args" "good Trap args" "\<not> good No_fuel args"
  by (simp_all add: good_def)

lemma returnsD: "returns f n \<Longrightarrow> length args < n \<Longrightarrow> good (f args) args"
  by (simp add: returns_def)

lemma good_cases [case_names Done Die Trap]:
  assumes "good r args"
  obtains v rest where "r = Done (v, rest)" "length rest < length args" | m where "r = Die m" | "r = Trap"
  using assms by (cases r) auto

lemma good_bind:
  "good r args' \<Longrightarrow> (\<And>v rest. r = Done (v, rest) \<Longrightarrow> length rest < length args' \<Longrightarrow> good (f (v, rest)) args) \<Longrightarrow> good (run_bind r f) args"
  by (erule good_cases) auto

lemma good_combine: "r \<noteq> No_fuel \<Longrightarrow> (\<And>v. good (f v) args) \<Longrightarrow> good (run_bind r f) args"
  by (cases r) auto

lemma docolon_fuel [simp]: "docolon rx l r \<noteq> No_fuel"
  by (auto simp: docolon_def Let_def split: option.split)

lemma eval7_total: "returns ev n \<Longrightarrow> returns (eval7 ev) (Suc n)"
  unfolding returns_def eval7_def
  by (auto split: list.split intro!: good_bind returnsD [of ev n] simp: returns_def)

lemma eval6_good:
  assumes "returns ev n"
  shows "length args < m \<Longrightarrow> length args < Suc n \<Longrightarrow> good (eval6 rx ev m args) args"
proof (induction m arbitrary: args)
  case (Suc m)
  have IH: "good (eval6 rx ev m a) a" if "length a < length args" for a using Suc that by simp
  show ?case
  proof (cases args)
    case Nil
    then show ?thesis by (simp add: eval7_def)
  next
    case (Cons arg rest)
    show ?thesis
      using returnsD [OF eval7_total [OF assms], of args] Suc.prems(2) Cons
      by (auto simp: Let_def split: list.split intro!: good_bind [OF IH] good_combine [OF docolon_fuel])
  qed
qed simp


declare eval6.simps [simp del] eval_while.simps [simp del] eval.simps [simp del]

lemma eval6_returns: "returns ev n \<Longrightarrow> returns (eval6 rx ev (Suc n)) (Suc n)"
  unfolding returns_def [of "eval6 rx ev (Suc n)"] using eval6_good by blast

lemma find_arg_Nil [simp]: "find_arg ops [] = 0"
  by (induction ops) (simp_all add: find_arg_def nextarg_def)

lemma eval_while_good:
  assumes op: "returns operand n" and c: "\<And>op l r. combine op l r \<noteq> No_fuel"
  shows "length args < m \<Longrightarrow> length args < n \<Longrightarrow> length args < k
    \<Longrightarrow> good (eval_while ops combine operand m l args) (replicate k a)"
proof (induction m arbitrary: l args)
  case (Suc m)
  then show ?case
  proof (cases args)
    case (Cons arg rest)
    have g: "good (operand rest) rest" using returnsD [OF op, of rest] Suc.prems Cons by simp
    have "good (run_bind (combine (find_arg ops args) l v) (\<lambda>l. eval_while ops combine operand m l b)) (replicate k a)"
      if "length b < length rest" for v b
      using that Suc Cons c by (intro good_combine) auto
    then show ?thesis using Cons Suc.prems by (auto simp: eval_while.simps Let_def intro: good_bind [OF g])
  qed (auto simp: eval_while.simps)
qed simp

lemma good_length: "length a = length b \<Longrightarrow> good r a = good r b"
  by (cases r) (auto simp: good_def)

lemma level_returns:
  assumes op: "returns operand (Suc n)" and c: "\<And>op l r. combine op l r \<noteq> No_fuel"
  shows "returns (\<lambda>args. run_bind (operand args) (\<lambda>(l, args). eval_while ops combine operand (Suc n) l args)) (Suc n)"
  unfolding returns_def
proof (intro allI impI)
  fix args :: args
  assume a: "length args < Suc n"
  have "good (eval_while ops combine operand (Suc n) l rest) args" if "length rest < length args" for l rest
    using eval_while_good [where args = rest and m = "Suc n" and k = "length args" and a = "[]" and ops = ops and l = l, OF op c] a that
      good_length [of "replicate (length args) []" args] by simp
  then show "good (run_bind (operand args) (\<lambda>(l, args). eval_while ops combine operand (Suc n) l args)) args"
    using returnsD [OF op a] by (intro good_bind) auto
qed

lemma combine_fuel [simp]: "arith_op op l r \<noteq> No_fuel" "cmp_op op l r \<noteq> No_fuel"
  by (auto simp: arith_op_def arithmetic_common_def cmp_op_def split: option.split)

lemma levels_return:
  assumes "returns ev n"
  shows "returns (eval5 rx ev (Suc n)) (Suc n)" "returns (eval4 rx ev (Suc n)) (Suc n)"
    "returns (eval3 rx ev (Suc n)) (Suc n)" "returns (eval2 rx ev (Suc n)) (Suc n)" "returns (eval1 rx ev (Suc n)) (Suc n)"
proof -
  show 5: "returns (eval5 rx ev (Suc n)) (Suc n)"
    using level_returns [OF eval6_returns [OF assms], of "\<lambda>op. docolon rx" rx "['':'']"]
    by (simp add: eval5_def [abs_def])
  show 4: "returns (eval4 rx ev (Suc n)) (Suc n)"
    using level_returns [OF 5, of arith_op] by (simp add: eval4_def [abs_def])
  show 3: "returns (eval3 rx ev (Suc n)) (Suc n)"
    using level_returns [OF 4, of arith_op] by (simp add: eval3_def [abs_def])
  show 2: "returns (eval2 rx ev (Suc n)) (Suc n)"
    using level_returns [OF 3, of cmp_op] by (simp add: eval2_def [abs_def])
  show "returns (eval1 rx ev (Suc n)) (Suc n)"
    using level_returns [OF 2, of "\<lambda>op l r. Done (and_op l r)"] by (simp add: eval1_def [abs_def])
qed

lemma eval_returns: "returns (eval rx n) n"
proof (induction n)
  case (Suc n)
  then show ?case
    using level_returns [OF levels_return(5) [OF Suc], of "\<lambda>op l r. Done (or_op l r)"]
    by (simp add: eval.simps(2) [abs_def] returns_def)
qed (simp add: returns_def)


section \<open>The bound does not matter\<close>

lemma run_bind_cong:
  "r = r' \<Longrightarrow> (\<And>x. r' = Done x \<Longrightarrow> f x = g x) \<Longrightarrow> run_bind r f = run_bind r' g"
  by (cases r') auto

lemma run_bind_assoc: "run_bind (run_bind r f) g = run_bind r (\<lambda>x. run_bind (f x) g)"
  by (cases r) auto

lemma run_bind_Done [simp]: "run_bind r Done = r"
  by (cases r) auto

lemma good_Done: "good r args \<Longrightarrow> r = Done (v, rest) \<Longrightarrow> length rest < length args"
  by simp

lemma eval6_fuel:
  assumes "returns ev n"
  shows "length args < m \<Longrightarrow> length args < m' \<Longrightarrow> length args < Suc n \<Longrightarrow> eval6 rx ev m args = eval6 rx ev m' args"
proof (induction m arbitrary: m' args)
  case (Suc m)
  then obtain k where k: "m' = Suc k" by (cases m') auto
  have IH: "eval6 rx ev m a = eval6 rx ev k a" if "length a < length args" for a
    by (rule Suc.IH) (use Suc.prems k that in simp_all)
  show ?case
  proof (cases args)
    case (Cons arg rest)
    have sh: "length b < Suc (length rest)" if "eval6 rx ev k a = Done (v, b)" "length a < Suc (length rest)" for a v b
      using good_Done [OF eval6_good [OF assms] that(1)] that(2) Suc.prems k Cons by simp
    show ?thesis
      using Cons by (auto simp: k eval6.simps Let_def IH intro!: run_bind_cong IH split: list.split) (blast intro: sh lessI)+
  qed (simp add: k eval6.simps)
qed simp

lemma while_fuel:
  assumes op: "returns operand n"
  shows "length args < m \<Longrightarrow> length args < m' \<Longrightarrow> length args < n
    \<Longrightarrow> eval_while ops combine operand m l args = eval_while ops combine operand m' l args"
proof (induction m arbitrary: m' l args)
  case (Suc m)
  then obtain k where k: "m' = Suc k" by (cases m') auto
  show ?case
  proof (cases args)
    case (Cons arg rest)
    have "eval_while ops combine operand m x b = eval_while ops combine operand k x b" if "operand rest = Done (v, b)" for v b x
      using good_Done [OF returnsD [OF op] that] Suc.prems Cons k by (intro Suc.IH) auto
    then show ?thesis by (auto simp: Cons k eval_while.simps Let_def intro!: run_bind_cong)
  qed (simp add: k eval_while.simps)
qed simp

section \<open>Expressions\<close>

text \<open>Binary operators have a level, 0 (\<^verbatim>\<open>|\<close>) to 5 (\<^verbatim>\<open>:\<close>), and group to the left.\<close>

definition level_ops :: "nat \<Rightarrow> string list" where
  "level_ops k = [[''|''], [''&''], [''<'', ''<='', ''='', ''=='', ''!='', ''>='', ''>''], [''+'', ''-''],
     [''*'', ''/'', ''%''], ['':'']] ! k"

definition level_combine :: "regcomp \<Rightarrow> nat \<Rightarrow> nat \<Rightarrow> VALUE \<Rightarrow> VALUE \<Rightarrow> VALUE run" where
  "level_combine rx k = [\<lambda>op l r. Done (or_op l r), \<lambda>op l r. Done (and_op l r), cmp_op, arith_op, arith_op,
     \<lambda>op. docolon rx] ! k"

datatype xexp =
    Str string
  | Quote string
  | Length xexp
  | Match xexp xexp
  | Index xexp xexp
  | Substr xexp xexp xexp
  | Op nat string xexp xexp

fun wfx :: "xexp \<Rightarrow> bool" where
  "wfx (Str s) \<longleftrightarrow> s \<notin> set keyword_list \<and> s \<noteq> ''('' \<and> s \<noteq> '')''"
| "wfx (Quote s) \<longleftrightarrow> True"
| "wfx (Length a) \<longleftrightarrow> wfx a"
| "wfx (Match a b) \<longleftrightarrow> wfx a \<and> wfx b"
| "wfx (Index a b) \<longleftrightarrow> wfx a \<and> wfx b"
| "wfx (Substr a b c) \<longleftrightarrow> wfx a \<and> wfx b \<and> wfx c"
| "wfx (Op k s a b) \<longleftrightarrow> k < 6 \<and> s \<in> set (level_ops k) \<and> wfx a \<and> wfx b"

fun xlevel :: "xexp \<Rightarrow> nat" where
  "xlevel (Op k s a b) = k"
| "xlevel e = 6"

definition in_parens :: "bool \<Rightarrow> args \<Rightarrow> args" where
  "in_parens b ts = (if b then ''('' # ts @ ['')''] else ts)"

fun words :: "xexp \<Rightarrow> args" where
  "words (Str s) = [s]"
| "words (Quote s) = [''quote'', s]"
| "words (Length a) = ''length'' # in_parens (xlevel a < 6) (words a)"
| "words (Match a b) = ''match'' # in_parens (xlevel a < 6) (words a) @ in_parens (xlevel b < 6) (words b)"
| "words (Index a b) = ''index'' # in_parens (xlevel a < 6) (words a) @ in_parens (xlevel b < 6) (words b)"
| "words (Substr a b c) = ''substr'' # in_parens (xlevel a < 6) (words a) @ in_parens (xlevel b < 6) (words b)
     @ in_parens (xlevel c < 6) (words c)"
| "words (Op k s a b) = in_parens (xlevel a < k) (words a) @ s # in_parens (xlevel b < Suc k) (words b)"

abbreviation words_at :: "nat \<Rightarrow> xexp \<Rightarrow> args" where
  "words_at k e \<equiv> in_parens (xlevel e < k) (words e)"

text \<open>The meaning of an expression: operands from left to right, then the operator.\<close>

fun xval :: "regcomp \<Rightarrow> xexp \<Rightarrow> VALUE run" where
  "xval rx (Str s) = Done (STRING s)"
| "xval rx (Quote s) = Done (STRING s)"
| "xval rx (Length a) = run_bind (xval rx a) (\<lambda>v. Done (INTEGER (of_nat (length (tostring v)))))"
| "xval rx (Match a b) = run_bind (xval rx a) (\<lambda>v. run_bind (xval rx b) (\<lambda>w. docolon rx v w))"
| "xval rx (Index a b) = run_bind (xval rx a) (\<lambda>v. run_bind (xval rx b) (\<lambda>w. Done (do_index v w)))"
| "xval rx (Substr a b c) = run_bind (xval rx a) (\<lambda>v. run_bind (xval rx b) (\<lambda>w. run_bind (xval rx c) (\<lambda>x.
     Done (do_substr v w x))))"
| "xval rx (Op k s a b) = run_bind (xval rx a) (\<lambda>v. run_bind (xval rx b) (\<lambda>w.
     level_combine rx k (code (peek s) + code (peek_at s 1)) v w))"

section \<open>Parsing\<close>

function eval_level :: "regcomp \<Rightarrow> nat \<Rightarrow> nat \<Rightarrow> parse" where
  "eval_level rx n k =
     (if k \<ge> 6 then eval6 rx (eval rx n) (Suc n)
      else (\<lambda>args. run_bind (eval_level rx n (Suc k) args) (\<lambda>(l, args).
             eval_while (level_ops k) (level_combine rx k) (eval_level rx n (Suc k)) (Suc n) l args)))"
  by pat_completeness auto

termination
  by (relation "measure (\<lambda>(rx, n, k). 6 - k)") auto

declare eval_level.simps [simp del]

lemma eval_levels:
  "eval_level rx n 6 = eval6 rx (eval rx n) (Suc n)" "eval_level rx n 5 = eval5 rx (eval rx n) (Suc n)"
  "eval_level rx n 4 = eval4 rx (eval rx n) (Suc n)" "eval_level rx n 3 = eval3 rx (eval rx n) (Suc n)"
  "eval_level rx n 2 = eval2 rx (eval rx n) (Suc n)" "eval_level rx n 1 = eval1 rx (eval rx n) (Suc n)"
  "eval_level rx n 0 = eval rx (Suc n)"
proof -
  show 6: "eval_level rx n 6 = eval6 rx (eval rx n) (Suc n)" by (simp add: eval_level.simps)
  show 5: "eval_level rx n 5 = eval5 rx (eval rx n) (Suc n)"
    by (subst eval_level.simps) (simp add: 6 level_ops_def level_combine_def eval5_def [abs_def])
  show 4: "eval_level rx n 4 = eval4 rx (eval rx n) (Suc n)"
    by (subst eval_level.simps) (simp add: 5 level_ops_def level_combine_def eval4_def [abs_def])
  show 3: "eval_level rx n 3 = eval3 rx (eval rx n) (Suc n)"
    by (subst eval_level.simps) (simp add: 4 level_ops_def level_combine_def eval3_def [abs_def])
  show 2: "eval_level rx n 2 = eval2 rx (eval rx n) (Suc n)"
    by (subst eval_level.simps) (simp add: 3 level_ops_def level_combine_def eval2_def [abs_def])
  show 1: "eval_level rx n 1 = eval1 rx (eval rx n) (Suc n)"
    by (subst eval_level.simps) (simp add: 2 [unfolded numeral_2_eq_2] level_ops_def level_combine_def eval1_def [abs_def])
  show "eval_level rx n 0 = eval rx (Suc n)"
    by (subst eval_level.simps) (simp add: 1 [unfolded One_nat_def] level_ops_def level_combine_def eval.simps(2) [abs_def] fun_eq_iff)
qed


lemma eval_level_returns: "returns (eval_level rx n k) (Suc n)"
proof (cases "k < 6")
  case False
  then show ?thesis using eval6_returns [OF eval_returns] by (simp add: eval_level.simps)
next
  case True
  then consider "k = 0" | "k = 1" | "k = 2" | "k = 3" | "k = 4" | "k = 5" by linarith
  then show ?thesis
    using levels_return [OF eval_returns] eval_returns [of rx "Suc n"] by cases (simp_all only: eval_levels)
qed

text \<open>What is left to do at a level after its first operand.\<close>

definition continue_at :: "regcomp \<Rightarrow> nat \<Rightarrow> nat \<Rightarrow> VALUE \<Rightarrow> parse" where
  "continue_at rx n k v args =
     (if k \<ge> 6 then Done (v, args)
      else eval_while (level_ops k) (level_combine rx k) (eval_level rx n (Suc k)) (Suc n) v args)"

text \<open>No operator of a tighter level comes first.\<close>

definition follows :: "nat \<Rightarrow> args \<Rightarrow> bool" where
  "follows k rest \<longleftrightarrow> (\<forall>j. k < j \<and> j < 6 \<longrightarrow> rest = [] \<or> hd rest \<notin> set (level_ops j))"

lemma find_arg_none: "rest = [] \<or> hd rest \<notin> set ops \<Longrightarrow> find_arg ops rest = 0"
proof (cases rest)
  case (Cons a t)
  assume "rest = [] \<or> hd rest \<notin> set ops"
  then show ?thesis using Cons by (induction ops) (auto simp: find_arg_def nextarg_def)
qed simp

lemma find_arg_some:
  "s \<in> set ops \<Longrightarrow> code (peek s) \<noteq> (0::nat) \<Longrightarrow> find_arg ops (s # rest) = code (peek s) + code (peek_at s 1)"
  by (induction ops) (auto simp: find_arg_def nextarg_def)

lemma continue_stop: "k < j \<Longrightarrow> follows k rest \<Longrightarrow> continue_at rx n j v rest = Done (v, rest)"
  by (auto simp: continue_at_def eval_while.simps find_arg_none follows_def)

lemma eval_level_step:
  "k < 6 \<Longrightarrow> eval_level rx n k args = run_bind (eval_level rx n (Suc k) args) (\<lambda>(v, rest). continue_at rx n k v rest)"
  by (subst eval_level.simps) (simp add: continue_at_def [abs_def])

definition parses :: "regcomp \<Rightarrow> nat \<Rightarrow> args \<Rightarrow> VALUE run \<Rightarrow> bool" where
  "parses rx k ts r \<longleftrightarrow> (\<forall>n rest. length (ts @ rest) \<le> n \<longrightarrow> follows k rest
     \<longrightarrow> eval_level rx n k (ts @ rest) = run_bind r (\<lambda>v. continue_at rx n k v rest))"

lemma parsesD:
  "parses rx k ts r \<Longrightarrow> length (ts @ rest) \<le> n \<Longrightarrow> follows k rest
     \<Longrightarrow> eval_level rx n k (ts @ rest) = run_bind r (\<lambda>v. continue_at rx n k v rest)"
  by (simp add: parses_def)

lemma parses_down: "parses rx j ts r \<Longrightarrow> k \<le> j \<Longrightarrow> j \<le> 6 \<Longrightarrow> parses rx k ts r"
proof (induction "j - k" arbitrary: k)
  case (Suc d)
  then have p: "parses rx (Suc k) ts r" and k: "k < 6" by simp_all
  show ?case
    unfolding parses_def
  proof (intro allI impI)
    fix n rest
    assume a: "length (ts @ rest) \<le> n" "follows k rest"
    have "follows (Suc k) rest" using a(2) by (simp add: follows_def)
    from parsesD [OF p a(1) this]
    have "eval_level rx n (Suc k) (ts @ rest) = run_bind r (\<lambda>v. Done (v, rest))"
      using continue_stop [OF lessI a(2)] by simp
    then show "eval_level rx n k (ts @ rest) = run_bind r (\<lambda>v. continue_at rx n k v rest)"
      using eval_level_step [OF k, of rx n "ts @ rest"] by (simp add: run_bind_assoc)
  qed
qed simp

lemma parses_parens:
  assumes "parses rx 0 ts r"
  shows "parses rx 6 (in_parens True ts) r"
  unfolding parses_def
proof (intro allI impI)
  fix n rest
  assume a: "length (in_parens True ts @ rest) \<le> n"
  then obtain m where m: "n = Suc m" by (cases n) (auto simp: in_parens_def)
  have "follows 0 ('')'' # rest)" "find_arg (level_ops 0) ('')'' # rest) = 0"
    by (auto simp: follows_def level_ops_def find_arg_none less_Suc_eq numeral_eq_Suc)
  then have "eval rx n (ts @ '')'' # rest) = run_bind r (\<lambda>v. Done (v, '')'' # rest))"
    using parsesD [OF assms, of "'')'' # rest" m] a m
    by (simp add: eval_levels in_parens_def continue_at_def eval_while.simps)
  then show "eval_level rx n 6 (in_parens True ts @ rest) = run_bind r (\<lambda>v. continue_at rx n 6 v rest)"
    by (simp add: eval_levels eval6.simps in_parens_def keyword_list_def eval7_def nextarg_def run_bind_assoc continue_at_def)
qed


lemma parses_at:
  assumes "parses rx (xlevel e) (words e) r" "xlevel e \<le> 6" "k \<le> 6"
  shows "parses rx k (words_at k e) r"
proof (cases "xlevel e < k")
  case True
  have "parses rx 0 (words e) r" by (rule parses_down [OF assms(1)]) (use assms(2) in simp_all)
  from parses_down [OF parses_parens [OF this], of k] show ?thesis using True assms(3) by simp
next
  case False
  then show ?thesis using parses_down [OF assms(1), of k] assms(2) by (simp add: in_parens_def)
qed

lemma xlevel_le: "wfx e \<Longrightarrow> xlevel e \<le> 6"
  by (cases e) auto

lemma follows_6: "follows 6 rest"
  by (auto simp: follows_def)

text \<open>An operand of a keyword, read with the recursion bound one lower.\<close>

lemma parses_operand:
  assumes "parses rx 6 ts r" "length (ts @ rest) < n"
  shows "eval6 rx (eval rx n) n (ts @ rest) = run_bind r (\<lambda>v. Done (v, rest))"
  using parsesD [OF assms(1), of rest n] follows_6 eval6_fuel [OF eval_returns [of rx n], of "ts @ rest" n "Suc n" rx] assms(2)
  by (simp add: eval_levels continue_at_def)

lemma parses6I:
  assumes "\<And>n rest. length (ts @ rest) \<le> n \<Longrightarrow> eval6 rx (eval rx n) (Suc n) (ts @ rest) = run_bind r (\<lambda>v. Done (v, rest))"
  shows "parses rx 6 ts r"
  using assms by (simp add: parses_def eval_levels continue_at_def)

lemma keys:
  "index_in_strings keyword_list ''quote'' = 0" "index_in_strings keyword_list ''length'' = 1"
  "index_in_strings keyword_list ''match'' = 2" "index_in_strings keyword_list ''index'' = 3"
  "index_in_strings keyword_list ''substr'' = 4"
  by (simp_all add: keyword_list_def)

lemma levels_apart:
  assumes "s \<in> set (level_ops k)" "k < 6"
  shows "follows k (s # rest)" "code (peek s) \<noteq> (0::nat)"
proof -
  consider "k = 0" | "k = 1" | "k = 2" | "k = 3" | "k = 4" | "k = 5" using assms(2) by linarith
  then show "follows k (s # rest)" "code (peek s) \<noteq> (0::nat)"
    using assms(1) by (cases; auto simp: follows_def level_ops_def less_Suc_eq numeral_eq_Suc)+
qed

lemma parses_Op:
  assumes a: "parses rx k ta ra" and b: "parses rx (Suc k) tb rb" and s: "s \<in> set (level_ops k)" and k: "k < 6"
  shows "parses rx k (ta @ s # tb) (run_bind ra (\<lambda>v. run_bind rb (\<lambda>w. level_combine rx k (code (peek s) + code (peek_at s 1)) v w)))"
  unfolding parses_def
proof (intro allI impI)
  fix n rest
  assume n: "length ((ta @ s # tb) @ rest) \<le> n" and f: "follows k rest"
  have fs: "follows (Suc k) rest" using f by (simp add: follows_def)
  let ?op = "code (peek s) + code (peek_at s 1) :: nat"
  let ?w = "eval_while (level_ops k) (level_combine rx k) (eval_level rx n (Suc k))"
  have op: "find_arg (level_ops k) (s # tb @ rest) = ?op" "?op \<noteq> 0"
    using find_arg_some [OF s] levels_apart [OF s k] by simp_all
  have tb: "eval_level rx n (Suc k) (tb @ rest) = run_bind rb (\<lambda>w. Done (w, rest))"
    using parsesD [OF b _ fs, of n] continue_stop [OF lessI f, of rx n] n by simp
  have w: "?w n v rest = continue_at rx n k v rest" for v
    using while_fuel [OF eval_level_returns, of rest n "Suc n" n] n k by (simp add: continue_at_def)
  have "eval_level rx n k (ta @ s # tb @ rest) = run_bind ra (\<lambda>v. continue_at rx n k v (s # tb @ rest))"
    using parsesD [OF a _ levels_apart(1) [OF s k, of "tb @ rest"], of n] n by simp
  moreover have "continue_at rx n k v (s # tb @ rest)
      = run_bind rb (\<lambda>x. run_bind (level_combine rx k ?op v x) (\<lambda>v. continue_at rx n k v rest))" for v
    unfolding continue_at_def [of rx n k v] using k op(2)
    by (simp only: op(1) eval_while.simps(2) Let_def tb list.sel run_bind_assoc run_bind.simps prod.case w if_False not_le [symmetric])
  ultimately show "eval_level rx n k ((ta @ s # tb) @ rest)
      = run_bind (run_bind ra (\<lambda>v. run_bind rb (\<lambda>w. level_combine rx k ?op v w))) (\<lambda>v. continue_at rx n k v rest)"
    by (simp add: run_bind_assoc)
qed

lemma parses_words: "wfx e \<Longrightarrow> parses rx (xlevel e) (words e) (xval rx e)"
proof (induction e)
  case (Str s)
  then have "index_in_strings keyword_list s = - 1"
    by (subst index_none) (simp_all add: keyword_list_def)
  then show ?case using Str by (auto intro!: parses6I simp: eval6.simps eval7_def nextarg_def)
next
  case (Quote s)
  show ?case by (auto intro!: parses6I simp: eval6.simps keys)
next
  case (Length a)
  then have "parses rx 6 (words_at 6 a) (xval rx a)" by (intro parses_at xlevel_le) simp_all
  then show ?case
    by (auto intro!: parses6I simp: eval6.simps keys parses_operand run_bind_assoc)
next
  case (Match a b)
  then have "parses rx 6 (words_at 6 a) (xval rx a)" "parses rx 6 (words_at 6 b) (xval rx b)"
    by (intro parses_at xlevel_le; simp)+
  then show ?case
    by (auto intro!: parses6I simp: eval6.simps keys parses_operand run_bind_assoc)
next
  case (Index a b)
  then have "parses rx 6 (words_at 6 a) (xval rx a)" "parses rx 6 (words_at 6 b) (xval rx b)"
    by (intro parses_at xlevel_le; simp)+
  then show ?case
    by (auto intro!: parses6I simp: eval6.simps keys parses_operand run_bind_assoc)
next
  case (Substr a b c)
  then have "parses rx 6 (words_at 6 a) (xval rx a)" "parses rx 6 (words_at 6 b) (xval rx b)"
    "parses rx 6 (words_at 6 c) (xval rx c)"
    by (intro parses_at xlevel_le; simp)+
  then show ?case
    by (auto intro!: parses6I simp: eval6.simps keys parses_operand run_bind_assoc)
next
  case (Op k s a b)
  then have "parses rx k (words_at k a) (xval rx a)" "parses rx (Suc k) (words_at (Suc k) b) (xval rx b)"
    by (intro parses_at xlevel_le; simp)+
  from parses_Op [OF this] Op.prems show ?case by simp
qed


lemma expr_main_sem:
  assumes "wfx e"
  shows "expr_main rx (words e) = run_bind (xval rx e) (\<lambda>v. Done (tostring v, if null v then 1 else 0))"
proof -
  have "words e \<noteq> []" by (cases e) (simp_all add: in_parens_def)
  moreover have "parses rx 0 (words e) (xval rx e)"
    by (rule parses_down [OF parses_words [OF assms]]) (simp_all add: xlevel_le [OF assms])
  from parsesD [OF this, of "[]" "length (words e)"]
  have "eval rx (Suc (length (words e))) (words e) = run_bind (xval rx e) (\<lambda>v. Done (v, []))"
    by (simp add: follows_def eval_levels continue_at_def eval_while.simps)
  ultimately show ?thesis by (simp add: expr_main_def run_bind_assoc)
qed

section \<open>Decimal operands\<close>

lemma strto_scan_dec_int: "strto_scan (dec_int i) 10 = Some (i < 0, nat \<bar>i\<bar>, [])"
proof (cases "i < 0")
  case True
  obtain c s where c: "dec_nat (nat (- i)) = c # s" "isdigit c" by (rule dec_nat_head)
  then have "is_digit_of 10 c" by (auto simp: ctype_defs is_digit_of_def digit_val_def)
  then show ?thesis
    using True c(1) scan_dec_nat [of "nat (- i)"] by (simp add: dec_int_def strto_scan_def Let_def isspace_def)
next
  case False
  then show ?thesis using strto_scan_dec [of "[]" "nat i"] by (simp add: dec_int_def)
qed

lemma toarith_dec_int:
  assumes "- (2 ^ 63) \<le> i" "i < 2 ^ 63"
  shows "toarith (STRING (dec_int i)) = Some (word_of_int i)"
proof -
  have "dec_int i \<noteq> []" by (simp add: dec_int_def)
  moreover have "strtoll (dec_int i) 10 = (word_of_int i, [], False)"
  proof (cases "i < 0")
    case True
    then have "- of_nat (nat \<bar>i\<bar>) = (word_of_int i :: u64)" by (metis abs_of_neg int_nat_eq minus_minus neg_le_0_iff_le less_imp_le of_int_minus of_int_of_nat_eq abs_ge_zero)
    then show ?thesis using True assms by (simp add: strtoll_def strto_scan_dec_int nat_le_iff)
  next
    case False
    then show ?thesis using assms by (simp add: strtoll_def strto_scan_dec_int nat_less_iff le_nat_iff)
  qed
  ultimately show ?thesis by (simp add: toarith_def)
qed

lemma sint_word_of_int: "- (2 ^ 63) \<le> i \<Longrightarrow> i < 2 ^ 63 \<Longrightarrow> sint (word_of_int i :: u64) = i"
  by (simp add: sint_uint unsigned_of_int signed_take_bit_take_bit signed_take_bit_int_eq_self)

lemma sint_0_iff: "sint (w :: u64) = 0 \<longleftrightarrow> w = 0"
  by (metis signed_0 word_eq_iff_signed)

lemma dec_int_operand: "dec_int i \<notin> set keyword_list" "dec_int i \<noteq> ''(''" "dec_int i \<noteq> '')''"
proof -
  obtain c s where "dec_int i = c # s" "isdigit c \<or> c = CHR ''-''"
    by (cases "i < 0") (auto simp: dec_int_def intro: dec_nat_head [of "nat i"])
  then show "dec_int i \<notin> set keyword_list" "dec_int i \<noteq> ''(''" "dec_int i \<noteq> '')''"
    by (auto simp: keyword_list_def isdigit_def)
qed

section \<open>Properties\<close>



text \<open>C21. \<open>expr\<close> always comes to an end: with the bound the number of its arguments gives, for every
  argument vector it prints, dies or traps.\<close>

theorem expr_main_returns: "expr_main rx args \<noteq> No_fuel"
proof -
  have "good (eval rx (Suc (length args)) args) args" by (rule returnsD [OF eval_returns]) simp
  then show ?thesis by (cases "eval rx (Suc (length args)) args") (auto simp: expr_main_def split: if_splits)
qed


definition int_op :: "string \<Rightarrow> int \<Rightarrow> int \<Rightarrow> int" where
  "int_op s a b =
     (if s = ''+'' then a + b else if s = ''-'' then a - b else if s = ''*'' then a * b
      else if s = ''/'' then a sdiv b else a smod b)"

text \<open>C22. \<open>expr\<close> on two decimal operands: the exact sum, difference, product, truncated quotient or
  remainder when it fits 64 bits, wrapped around when it does not; a zero divisor is an error.  The most
  negative number divided by -1 is not caught: the processor traps.\<close>

theorem expr_decimal:
  assumes a: "- (2 ^ 63) \<le> a" "a < 2 ^ 63" and b: "- (2 ^ 63) \<le> b" "b < 2 ^ 63"
    and s: "s \<in> {''+'', ''-'', ''*'', ''/'', ''%''}"
  shows "expr_main rx [dec_int a, s, dec_int b] =
      (if s \<in> {''/'', ''%''} \<and> b = 0 then Die ''division by zero''
       else if s \<in> {''/'', ''%''} \<and> a = - (2 ^ 63) \<and> b = - 1 then Trap
       else let v = sint (word_of_int (int_op s a b) :: u64) in Done (dec_int v, if v = 0 then 1 else 0))
    \<and> (- (2 ^ 63) \<le> int_op s a b \<and> int_op s a b < 2 ^ 63 \<longrightarrow> sint (word_of_int (int_op s a b) :: u64) = int_op s a b)"
proof
  let ?k = "if s \<in> {''+'', ''-''} then 3 else 4 :: nat"
  have w: "wfx (Op ?k s (Str (dec_int a)) (Str (dec_int b)))"
    using s dec_int_operand by (auto simp: level_ops_def)
  have t: "words (Op ?k s (Str (dec_int a)) (Str (dec_int b))) = [dec_int a, s, dec_int b]"
    by (simp add: in_parens_def)
  have c: "level_combine rx ?k = arith_op" by (simp add: level_combine_def)
  have z: "(word_of_int b :: u64) = 0 \<longleftrightarrow> b = 0"
    using sint_word_of_int [OF b] by (metis of_int_0 signed_0)
  note e = expr_main_sem [OF w, of rx, unfolded t xval.simps c run_bind.simps]
  show "expr_main rx [dec_int a, s, dec_int b] =
      (if s \<in> {''/'', ''%''} \<and> b = 0 then Die ''division by zero''
       else if s \<in> {''/'', ''%''} \<and> a = - (2 ^ 63) \<and> b = - 1 then Trap
       else let v = sint (word_of_int (int_op s a b) :: u64) in Done (dec_int v, if v = 0 then 1 else 0))"
  proof -
    have t: "toarith (STRING (dec_int a)) = Some (word_of_int a)" "toarith (STRING (dec_int b)) = Some (word_of_int b)"
      by (rule toarith_dec_int [OF a], rule toarith_dec_int [OF b])
    have v: "sint (word_of_int a :: u64) = a" "sint (word_of_int b :: u64) = b"
      by (rule sint_word_of_int [OF a], rule sint_word_of_int [OF b])
    consider "s = ''+''" | "s = ''-''" | "s = ''*''" | "s = ''/''" | "s = ''%''" using s by auto
    then show ?thesis
      unfolding e by cases (simp_all add: arith_op_def arithmetic_common_def t v z sint_0_iff int_op_def null_def tostring_def Let_def)
  qed
  show "- (2 ^ 63) \<le> int_op s a b \<and> int_op s a b < 2 ^ 63 \<longrightarrow> sint (word_of_int (int_op s a b) :: u64) = int_op s a b"
    using sint_word_of_int by blast
qed

theorem expr_decimal_witness:
  "expr_main (\<lambda>_. None) [''-7'', ''/'', ''2''] = Done (''-3'', 0) \<and> expr_main (\<lambda>_. None) [''-9223372036854775808'', ''/'', ''-1''] = Trap"
proof -
  have d: "dec_int (- 7) = ''-7''" "dec_int 2 = ''2''" "dec_int (- 3) = ''-3''" "dec_int (- 1) = ''-1''"
    "dec_int (- 9223372036854775808) = ''-9223372036854775808''"
    by (simp_all add: dec_int_def dec_nat.simps char_of_def bit_0)
  have "int_op ''/'' (- 7) 2 = - 3" by (simp add: int_op_def signed_divide_int_def)
  then show ?thesis
    using expr_decimal [of "- 7" 2 "''/''" "\<lambda>_. None"] expr_decimal [of "- 9223372036854775808" "- 1" "''/''" "\<lambda>_. None"]
    by (simp add: d)
qed

text \<open>The usage text promises an arithmetic comparison when both operands are numbers and a
  lexicographic one otherwise.  When only one is a number its text is replaced by the canonical decimal
  before the strings are compared, so the answer is not that of the operands as given.\<close>

theorem expr_compares_rewritten:
  "expr_main rx [''01'', ''<'', ''0a''] = Done (''0'', 1) \<and> strcmp ''01'' ''0a'' < 0"
proof -
  let ?e = "Op 2 ''<'' (Str ''01'') (Str ''0a'')"
  have w: "wfx ?e" by (simp add: level_ops_def keyword_list_def)
  have t: "words ?e = [''01'', ''<'', ''0a'']" by (simp add: in_parens_def)
  have c: "coerce (STRING ''01'') = INTEGER 1" "coerce (STRING ''0a'') = STRING ''0a''"
    by (simp_all add: coerce_def toarith_def strtoll_def strto_scan_def is_digit_of_def digit_val_def ctype_defs)
  have "xval rx ?e = Done (INTEGER 0)"
    by (simp add: level_combine_def cmp_op_def c cmp_common_def tostring_def dec_int_def dec_nat.simps char_of_def bit_0)
  then show ?thesis
    using expr_main_sem [OF w, of rx] unfolding t
    by (simp add: tostring_def null_def dec_int_def dec_nat.simps char_of_def bit_0)
qed

end
