(* ===== verification/Word_At_A_Time.thy ===== *)
theory Word_At_A_Time
  imports Bytes
begin

text \<open>
  Path components hashed eight bytes at a time, \<^verbatim>\<open>c++knowledge/count_masked_bytes/main.c\<close> (64-bit,
  little-endian): the byte tricks that find the first NUL or slash of a word without a loop, the hash
  mixing, and \<open>hash_name\<close>.  Memory from the name on is a list of bytes; an eight-byte load that runs past
  it gives \<open>None\<close>.  \<open>hash_name\<close> returns the count it computes for the last word; the model also gives the
  folded hash and the length of the whole words, which the code prints.
\<close>

section \<open>Operations\<close>

record word_at_a_time =
  one_bits :: u64
  high_bits :: u64

definition rol64 :: "u64 \<Rightarrow> u32 \<Rightarrow> u64" where
  "rol64 word shift = shl word (unat (shift AND 63)) OR shr word (unat ((- shift) AND 63))"

definition GOLDEN_RATIO_64 :: u64 where
  "GOLDEN_RATIO_64 = 0x61C8864680B583EB"

definition HASH_MIX :: "u64 \<Rightarrow> u64 \<Rightarrow> u64 \<Rightarrow> u64 \<times> u64" where
  "HASH_MIX x y a =
     (let x = x XOR a;
          y = y XOR x; x = rol64 x 12;
          x = x + y; y = rol64 y 45;
          y = y * 9
      in (x, y))"

definition REPEAT_BYTE :: "u64 \<Rightarrow> u64" where
  "REPEAT_BYTE x = ((NOT 0) div 0xff) * x"

definition WORD_AT_A_TIME_CONSTANTS :: word_at_a_time where
  "WORD_AT_A_TIME_CONSTANTS = \<lparr>one_bits = REPEAT_BYTE 0x01, high_bits = REPEAT_BYTE 0x80\<rparr>"

definition load_unaligned_zeropad :: "u8 list \<Rightarrow> u64 option" where
  "load_unaligned_zeropad addr = (if length addr < 8 then None else Some (word_le (take 8 addr)))"

definition has_zero :: "u64 \<Rightarrow> word_at_a_time \<Rightarrow> u64" where
  "has_zero a c = ((a - one_bits c) AND NOT a) AND high_bits c"

definition fold_hash :: "u64 \<Rightarrow> u64 \<Rightarrow> u32" where
  "fold_hash x y =
     (let y = y XOR x * GOLDEN_RATIO_64;
          y = y * GOLDEN_RATIO_64
      in ucast (shr y 32))"

definition count_masked_bytes :: "u64 \<Rightarrow> u64" where
  "count_masked_bytes m = signed_drop_bit 56 (m * 0x0001020304050608)"

definition prep_zero_mask :: "u64 \<Rightarrow> u64 \<Rightarrow> word_at_a_time \<Rightarrow> u64" where
  "prep_zero_mask a bits c = bits"

definition create_zero_mask :: "u64 \<Rightarrow> u64" where
  "create_zero_mask bits = shr ((bits - 1) AND NOT bits) 7"

definition find_zero :: "u64 \<Rightarrow> u64" where
  "find_zero m = count_masked_bytes m"

text \<open>The loop: the last word, its two zero masks, the hash so far and the length of the words before.\<close>

fun hash_loop :: "u8 list \<Rightarrow> u64 \<Rightarrow> u64 \<Rightarrow> u64 \<Rightarrow> (u64 \<times> u64 \<times> u64 \<times> u64 \<times> u64 \<times> u64) option" where
  "hash_loop addr x y len =
     (case load_unaligned_zeropad addr of
        None \<Rightarrow> None
      | Some a \<Rightarrow>
          (let b = a XOR REPEAT_BYTE 47;
               adata = has_zero a WORD_AT_A_TIME_CONSTANTS;
               bdata = has_zero b WORD_AT_A_TIME_CONSTANTS
           in if length addr \<ge> 8 \<and> adata OR bdata = 0 then
                (case HASH_MIX x y a of (x, y) \<Rightarrow> hash_loop (drop 8 addr) x y (len + 8))
              else Some (a, adata, bdata, x, y, len)))"

declare hash_loop.simps [simp del]

text \<open>The folded hash, the count for the last word (the value returned) and the length of the whole words.\<close>

definition hash_name :: "u64 \<Rightarrow> u8 list \<Rightarrow> (u32 \<times> u64 \<times> u64) option" where
  "hash_name salt name =
     (case hash_loop name 0 salt 0 of
        None \<Rightarrow> None
      | Some (a, adata, bdata, x, y, len) \<Rightarrow>
          (let adata = prep_zero_mask a adata WORD_AT_A_TIME_CONSTANTS;
               bdata = prep_zero_mask (a XOR REPEAT_BYTE 47) bdata WORD_AT_A_TIME_CONSTANTS;
               m = create_zero_mask (adata OR bdata);
               x = x XOR (a AND m)
           in Some (fold_hash x y, count_masked_bytes m, len)))"

section \<open>Finding a zero byte\<close>

text \<open>The value of the bytes and of as many ones, as integers.\<close>

fun bytes_int :: "u8 list \<Rightarrow> int" where
  "bytes_int [] = 0"
| "bytes_int (b # bs) = uint b + 256 * bytes_int bs"

fun ones_int :: "nat \<Rightarrow> int" where
  "ones_int 0 = 0"
| "ones_int (Suc n) = 1 + 256 * ones_int n"

lemma bit_low_byte:
  assumes "0 \<le> c" "c < 256"
  shows "bit (c + 256 * (x::int)) i = (if i < 8 then bit c i else bit x (i - 8))"
proof -
  have "take_bit 8 c = c" using assms by (simp add: take_bit_int_eq_self_iff)
  then have c8: "bit c n \<Longrightarrow> n < 8" for n by (metis bit_take_bit_iff)
  then have "c AND push_bit 8 x = 0" by (intro bit_eqI) (fastforce simp: bit_and_iff bit_push_bit_iff)
  then have "c + push_bit 8 x = c OR push_bit 8 x" by (rule disjunctive_add_eq_or)
  then have "c + 256 * x = c OR push_bit 8 x" by (simp add: push_bit_eq_mult mult.commute)
  then show ?thesis using c8 by (auto simp: bit_or_iff bit_push_bit_iff)
qed

lemma byte_bounds: "0 \<le> uint (b::u8)" "uint (b::u8) < 256"
  using uint_lt2p [of b] by simp_all

lemma below_byte:
  assumes "b \<noteq> 0"
  shows "0 \<le> uint (b::u8) - 1" "uint b - 1 < 256"
proof -
  have "uint b \<noteq> 0" using assms by (simp add: uint_0_iff)
  then show "0 \<le> uint b - 1" "uint b - 1 < 256" using byte_bounds [of b] by linarith+
qed

text \<open>The bit the trick looks at in each byte.\<close>

definition zero_bit :: "u8 list \<Rightarrow> nat \<Rightarrow> bool" where
  "zero_bit bs n \<longleftrightarrow> bit (bytes_int bs - ones_int (length bs)) n \<and> \<not> bit (bytes_int bs) n"

lemma top_bit: "0 \<le> c \<Longrightarrow> c < 256 \<Longrightarrow> bit (c::int) 7 \<longleftrightarrow> 128 \<le> c"
proof -
  assume c: "0 \<le> c" "c < 256"
  have "c div 128 = (if 128 \<le> c then 1 else 0)" using c by auto
  then show ?thesis by (simp add: bit_iff_odd)
qed

lemma zero_bit_Cons:
  "b \<noteq> 0 \<Longrightarrow> zero_bit (b # bs) (n + 8) = zero_bit bs n" "b \<noteq> 0 \<Longrightarrow> \<not> zero_bit (b # bs) 7"
  "zero_bit (0 # bs) 7"
proof -
  have e: "bytes_int (b # bs) - ones_int (length (b # bs)) = (uint b - 1) + 256 * (bytes_int bs - ones_int (length bs))"
    by simp
  have e0: "bytes_int (0 # bs) - ones_int (length (0 # bs)) = 255 + 256 * (bytes_int bs - ones_int (length bs) - 1)"
    by simp
  have z: "zero_bit (b # bs) k \<longleftrightarrow>
      bit ((uint b - 1) + 256 * (bytes_int bs - ones_int (length bs))) k \<and> \<not> bit (uint b + 256 * bytes_int bs) k" for k
    unfolding zero_bit_def e by (simp only: bytes_int.simps)
  have z0: "zero_bit (0 # bs) k \<longleftrightarrow>
      bit (255 + 256 * (bytes_int bs - ones_int (length bs) - 1)) k \<and> \<not> bit (0 + 256 * bytes_int bs) k" for k
    unfolding zero_bit_def e0 by (simp only: bytes_int.simps unsigned_0)
  note low = bit_low_byte [OF byte_bounds [of b]]
  show "zero_bit (b # bs) (n + 8) = zero_bit bs n" if "b \<noteq> 0"
    unfolding z bit_low_byte [OF below_byte [OF that]] low by (simp add: zero_bit_def)
  show "\<not> zero_bit (b # bs) 7" if "b \<noteq> 0"
    unfolding z bit_low_byte [OF below_byte [OF that]] low
    using top_bit [OF below_byte [OF that]] top_bit [OF byte_bounds [of b]] by simp
  show "zero_bit (0 # bs) 7"
  proof -
    have "bit (255 + 256 * x) 7" "\<not> bit (0 + 256 * x) 7" for x :: int
      by (subst bit_low_byte; simp add: top_bit)+
    then show ?thesis unfolding z0 by blast
  qed
qed

lemma zero_bit_none: "list_all (\<lambda>b. b \<noteq> 0) bs \<Longrightarrow> j < length bs \<Longrightarrow> \<not> zero_bit (bs @ cs) (8 * j + 7)"
proof (induction bs arbitrary: j)
  case (Cons b bs)
  then show ?case
    using zero_bit_Cons(1) [of b "bs @ cs" "8 * (j - 1) + 7"] zero_bit_Cons(2) [of b "bs @ cs"]
    by (cases j) (simp_all add: algebra_simps)
qed simp

lemma zero_bit_first: "list_all (\<lambda>b. b \<noteq> 0) bs \<Longrightarrow> zero_bit (bs @ 0 # cs) (8 * length bs + 7)"
proof (induction bs)
  case (Cons b bs)
  then show ?case
    using zero_bit_Cons(1) [of b "bs @ 0 # cs" "8 * length bs + 7"] by (simp add: algebra_simps)
qed (simp add: zero_bit_Cons)


section \<open>The masks\<close>

lemma word_le_int: "(word_le bs :: u64) = word_of_int (bytes_int bs)"
proof (induction bs)
  case (Cons b bs)
  have "ucast b AND shl (word_le bs :: u64) 8 = 0"
    by (rule bit_word_eqI) (auto simp: bit_and_iff bit_ucast_iff bit_push_bit_iff dest: bit_imp_le_length)
  then have "(word_le (b # bs) :: u64) = ucast b + shl (word_le bs) 8" by (simp add: disjunctive_add_eq_or)
  then show ?case using Cons by (simp add: push_bit_eq_mult mult.commute)
qed simp

lemma repeat_byte: "REPEAT_BYTE x = 0x0101010101010101 * x"
  by (simp add: REPEAT_BYTE_def)

lemma replicate_8: "replicate 8 x = [x, x, x, x, x, x, x, x]"
  by (simp add: numeral_eq_Suc)

lemma one_bits_int: "one_bits WORD_AT_A_TIME_CONSTANTS = word_of_int (ones_int 8)"
proof -
  have "ones_int 8 = 0x0101010101010101" by (simp add: numeral_eq_Suc)
  then show ?thesis by (simp add: WORD_AT_A_TIME_CONSTANTS_def repeat_byte)
qed

lemma high_bits_bit: "bit (high_bits WORD_AT_A_TIME_CONSTANTS) n \<longleftrightarrow> n < 64 \<and> n mod 8 = 7"
proof -
  have "high_bits WORD_AT_A_TIME_CONSTANTS = word_le (replicate 8 0x80)"
    by (simp add: WORD_AT_A_TIME_CONSTANTS_def repeat_byte replicate_8)
  moreover have "bit (0x80 :: u8) i \<longleftrightarrow> i = 7" for i
  proof -
    have "(0x80 :: u8) = push_bit 7 1" by simp
    then show ?thesis by (auto simp only: bit_push_bit_iff bit_1_iff) (auto simp: possible_bit_word)
  qed
  moreover have "bit (word_le (replicate 8 (0x80::u8)) :: u64) n \<longleftrightarrow> n < 64 \<and> bit (0x80::u8) (n mod 8)"
  proof (cases "n < 64")
    case True
    then have "n div 8 < 8" by simp
    then show ?thesis using True by (simp only: bit_word_le nth_replicate) simp
  qed (simp add: bit_word_le)
  ultimately show ?thesis by (simp only:)
qed

lemma has_zero_bit:
  assumes "length bs = 8"
  shows "bit (has_zero (word_le bs) WORD_AT_A_TIME_CONSTANTS) n \<longleftrightarrow> n < 64 \<and> n mod 8 = 7 \<and> zero_bit bs n"
proof -
  have "word_le bs - one_bits WORD_AT_A_TIME_CONSTANTS = (word_of_int (bytes_int bs - ones_int (length bs)) :: u64)"
    using assms by (simp add: word_le_int one_bits_int)
  then show ?thesis
    unfolding has_zero_def
    by (auto simp del: of_int_diff simp: bit_and_iff bit_not_iff high_bits_bit zero_bit_def word_le_int bit_word_of_int_iff
        dest: bit_imp_le_length)
qed

text \<open>All bytes before position \<open>j\<close> are different from the one looked for, so no mark is below bit \<open>8 * j + 7\<close>;
  the byte at \<open>j\<close> makes that mark.\<close>

lemma has_zero_below:
  assumes "length (bs @ cs) = 8" "list_all (\<lambda>b. b \<noteq> 0) bs" "n < 8 * length bs + 7"
  shows "\<not> bit (has_zero (word_le (bs @ cs)) WORD_AT_A_TIME_CONSTANTS) n"
proof
  assume "bit (has_zero (word_le (bs @ cs)) WORD_AT_A_TIME_CONSTANTS) n"
  then have "n mod 8 = 7" "zero_bit (bs @ cs) n" by (simp_all only: has_zero_bit [OF assms(1)])
  then have "8 * (n div 8) + 7 = n" by presburger
  then have "n div 8 < length bs" using assms(3) by linarith
  with zero_bit_none [OF assms(2) this, of cs] \<open>8 * (n div 8) + 7 = n\<close> \<open>zero_bit (bs @ cs) n\<close> show False by simp
qed

lemma has_zero_at:
  assumes "length (bs @ 0 # cs) = 8" "list_all (\<lambda>b. b \<noteq> 0) bs"
  shows "bit (has_zero (word_le (bs @ 0 # cs)) WORD_AT_A_TIME_CONSTANTS) (8 * length bs + 7)"
  using has_zero_bit [OF assms(1)] zero_bit_first [OF assms(2)] assms(1) by simp

lemma xor_slash: "length bs = 8 \<Longrightarrow> word_le bs XOR REPEAT_BYTE 47 = word_le (map (\<lambda>b. b XOR 47) bs)"
proof -
  assume l: "length bs = 8"
  have "REPEAT_BYTE 47 = word_le (replicate 8 47)" by (simp add: repeat_byte replicate_8)
  then show ?thesis using l
    by (intro bit_word_eqI) (auto simp: bit_xor_iff bit_word_le div_less_iff_less_mult)
qed

lemma byte_xor_slash: "(b::u8) XOR 47 = 0 \<longleftrightarrow> b = 47"
  by (metis xor.assoc xor.right_neutral xor_self_eq)

lemma lowest_bit_mask:
  fixes x :: "'a::len word"
  assumes "bit x p" "\<And>n. n < p \<Longrightarrow> \<not> bit x n"
  shows "(x - 1) AND NOT x = mask p"
proof -
  define y where "y = shr x p"
  have odd: "odd y" using assms(1) by (simp add: y_def bit_iff_odd_drop_bit)
  have "bit x n \<Longrightarrow> p \<le> n" for n using assms(2) [of n] by linarith
  then have x: "x = shl y p"
    by (intro bit_word_eqI) (auto simp: y_def bit_push_bit_iff bit_drop_bit_eq)
  have "y = unset_bit 0 y OR 1"
    using odd by (intro bit_word_eqI) (auto simp: bit_or_iff bit_unset_bit_iff bit_1_iff bit_0)
  moreover have "unset_bit 0 y AND 1 = 0"
    by (rule bit_word_eqI) (auto simp: bit_and_iff bit_unset_bit_iff bit_1_iff)
  ultimately have y1: "y - 1 = unset_bit 0 y" by (metis add_diff_cancel_right' disjunctive_add_eq_or)
  have p: "p < LENGTH('a)" using assms(1) by (rule bit_imp_le_length)
  have "x - 1 = shl (y - 1) p + mask p"
    by (simp add: x push_bit_eq_mult mask_eq_exp_minus_1 algebra_simps)
  moreover have "shl (y - 1) p AND mask p = 0"
    by (rule bit_word_eqI) (auto simp: bit_and_iff bit_push_bit_iff bit_mask_iff)
  ultimately have e: "x - 1 = shl (y - 1) p OR mask p" by (simp add: disjunctive_add_eq_or)
  show ?thesis unfolding e y1
    by (rule bit_word_eqI)
      (auto simp: x bit_and_iff bit_or_iff bit_not_iff bit_push_bit_iff bit_mask_iff bit_unset_bit_iff)
qed

lemma create_zero_mask_lowest:
  assumes "bit x (8 * k + 7)" "\<And>n. n < 8 * k + 7 \<Longrightarrow> \<not> bit x n"
  shows "create_zero_mask x = mask (8 * k)"
proof -
  have "(x - 1) AND NOT x = mask (8 * k + 7)" by (rule lowest_bit_mask) (use assms in blast)+
  moreover have "shr (mask (8 * k + 7)) 7 = (mask (8 * k) :: u64)"
    using bit_imp_le_length [OF assms(1)] by (intro bit_word_eqI) (auto simp: bit_drop_bit_eq bit_mask_iff)
  ultimately show ?thesis by (simp only: create_zero_mask_def)
qed

lemma count_masked: "k < 8 \<Longrightarrow> count_masked_bytes (mask (8 * k)) = of_nat k"
proof -
  assume "k < 8"
  then consider "k = 0" | "k = 1" | "k = 2" | "k = 3" | "k = 4" | "k = 5" | "k = 6" | "k = 7" by linarith
  then show ?thesis by cases (simp_all add: count_masked_bytes_def mask_eq_exp_minus_1)
qed


section \<open>The first separator\<close>

definition sep :: "u8 \<Rightarrow> bool" where
  "sep b \<longleftrightarrow> b = 0 \<or> b = 47"

abbreviation marks :: "u8 list \<Rightarrow> u64" where
  "marks bs \<equiv> has_zero (word_le bs) WORD_AT_A_TIME_CONSTANTS
     OR has_zero (word_le bs XOR REPEAT_BYTE 47) WORD_AT_A_TIME_CONSTANTS"

lemma marks_below:
  assumes "length (bs @ cs) = 8" "list_all (\<lambda>b. \<not> sep b) bs" "n < 8 * length bs + 7"
  shows "\<not> bit (marks (bs @ cs)) n"
proof -
  have "list_all (\<lambda>b. b \<noteq> 0) bs" "list_all (\<lambda>b. b \<noteq> 0) (map (\<lambda>b. b XOR 47) bs)"
    using assms(2) by (auto simp: list_all_iff sep_def byte_xor_slash)
  then show ?thesis
    using assms has_zero_below [of bs cs n] has_zero_below [of "map (\<lambda>b. b XOR 47) bs" "map (\<lambda>b. b XOR 47) cs" n]
      xor_slash [OF assms(1)] by (simp add: bit_or_iff)
qed

lemma marks_at:
  assumes "length (bs @ t # cs) = 8" "list_all (\<lambda>b. \<not> sep b) bs" "sep t"
  shows "bit (marks (bs @ t # cs)) (8 * length bs + 7)"
proof -
  have l: "list_all (\<lambda>b. b \<noteq> 0) bs" "list_all (\<lambda>b. b \<noteq> 0) (map (\<lambda>b. b XOR 47) bs)"
    using assms(2) by (auto simp: list_all_iff sep_def byte_xor_slash)
  consider "t = 0" | "t = 47" using assms(3) by (auto simp: sep_def)
  then show ?thesis
  proof cases
    case 1
    then show ?thesis using has_zero_at [of bs cs] assms(1) l(1) by (simp add: bit_or_iff)
  next
    case 2
    then show ?thesis
      using has_zero_at [of "map (\<lambda>b. b XOR 47) bs" "map (\<lambda>b. b XOR 47) cs"] assms(1) l(2) xor_slash [OF assms(1)]
      by (simp add: bit_or_iff)
  qed
qed

lemma marks_zero:
  assumes "length bs = 8" "list_all (\<lambda>b. \<not> sep b) bs"
  shows "marks bs = 0"
proof (rule bit_word_eqI)
  fix n assume "n < LENGTH(64)"
  then have "\<not> bit (marks (bs @ [])) n" using assms by (intro marks_below) simp_all
  then show "bit (marks bs) n = bit 0 n" by simp
qed

lemma marks_nonzero: "length (bs @ t # cs) = 8 \<Longrightarrow> list_all (\<lambda>b. \<not> sep b) bs \<Longrightarrow> sep t \<Longrightarrow> marks (bs @ t # cs) \<noteq> 0"
  using marks_at [of bs t cs] by auto

lemma last_word:
  assumes "length (bs @ t # cs) = 8" "list_all (\<lambda>b. \<not> sep b) bs" "sep t"
  shows "create_zero_mask (marks (bs @ t # cs)) = mask (8 * length bs)"
    and "count_masked_bytes (create_zero_mask (marks (bs @ t # cs))) = of_nat (length bs)"
    and "word_le (bs @ t # cs) AND create_zero_mask (marks (bs @ t # cs)) = (word_le bs :: u64)"
proof -
  show m: "create_zero_mask (marks (bs @ t # cs)) = mask (8 * length bs)"
    using create_zero_mask_lowest [OF marks_at [OF assms]] marks_below [OF assms(1,2)] by blast
  show "count_masked_bytes (create_zero_mask (marks (bs @ t # cs))) = of_nat (length bs)"
    unfolding m using assms(1) by (intro count_masked) simp
  show "word_le (bs @ t # cs) AND create_zero_mask (marks (bs @ t # cs)) = (word_le bs :: u64)"
    unfolding m by (rule bit_word_eqI) (auto simp: bit_and_iff bit_mask_iff bit_word_le nth_append div_less_iff_less_mult)
qed


section \<open>The hash of a component\<close>

text \<open>What the hash is meant to be: the whole words of the component are mixed in, the bytes left over are
  the last word.\<close>

fun hash_words :: "u8 list \<Rightarrow> u64 \<Rightarrow> u64 \<Rightarrow> u64 \<times> u64 \<times> u8 list" where
  "hash_words cmp x y =
     (if length cmp < 8 then (x, y, cmp)
      else case HASH_MIX x y (word_le (take 8 cmp)) of (x, y) \<Rightarrow> hash_words (drop 8 cmp) x y)"

declare hash_words.simps [simp del]

definition hash_component :: "u64 \<Rightarrow> u8 list \<Rightarrow> u32" where
  "hash_component salt cmp = (case hash_words cmp 0 salt of (x, y, rest) \<Rightarrow> fold_hash (x XOR word_le rest) y)"

lemma hash_loop_short:
  assumes "length cmp < 8" "list_all (\<lambda>b. \<not> sep b) cmp" "sep t" "8 \<le> length (cmp @ t # rest)"
  defines "w \<equiv> cmp @ t # take (7 - length cmp) rest"
  shows "\<exists>ad bd. hash_loop (cmp @ t # rest) x y len = Some (word_le w, ad, bd, x, y, len) \<and> ad OR bd = marks w \<and> length w = 8"
proof -
  have w: "take 8 (cmp @ t # rest) = w" "length w = 8"
    using assms(1,4) by (auto simp: w_def min_def take_Cons' take_append)
  then have "marks w \<noteq> 0" using assms(2,3) unfolding w_def by (intro marks_nonzero)
  then show ?thesis using w assms(4)
    by (subst hash_loop.simps) (simp add: load_unaligned_zeropad_def Let_def)
qed

lemma hash_loop_long:
  assumes "8 \<le> length cmp" "list_all (\<lambda>b. \<not> sep b) cmp"
  shows "hash_loop (cmp @ rest) x y len =
    (case HASH_MIX x y (word_le (take 8 cmp)) of (x, y) \<Rightarrow> hash_loop (drop 8 cmp @ rest) x y (len + 8))"
proof -
  have "list_all (\<lambda>b. \<not> sep b) (take 8 cmp)" using assms(2) by (auto simp: list_all_iff dest: in_set_takeD)
  then have "marks (take 8 cmp) = 0" using assms(1) by (intro marks_zero) simp_all
  then show ?thesis using assms(1)
    by (subst hash_loop.simps) (simp add: load_unaligned_zeropad_def Let_def)
qed

lemma hash_loop_component:
  "list_all (\<lambda>b. \<not> sep b) cmp \<Longrightarrow> sep t \<Longrightarrow> 8 * (length cmp div 8) + 8 \<le> length (cmp @ t # rest) \<Longrightarrow>
   \<exists>x' y' r cs ad bd. hash_words cmp x y = (x', y', r) \<and> list_all (\<lambda>b. \<not> sep b) r \<and> length r = length cmp mod 8
     \<and> length (r @ t # cs) = 8 \<and> ad OR bd = marks (r @ t # cs)
     \<and> hash_loop (cmp @ t # rest) x y len = Some (word_le (r @ t # cs), ad, bd, x', y', len + 8 * of_nat (length cmp div 8))"
proof (induction cmp x y arbitrary: len rule: hash_words.induct)
  case (1 cmp x y)
  show ?case
  proof (cases "length cmp < 8")
    case True
    then show ?thesis using hash_loop_short [of cmp t rest x y len] 1
      by (auto simp: hash_words.simps [of cmp] intro!: exI [of _ "take (7 - length cmp) rest"])
  next
    case False
    obtain x1 y1 where m: "HASH_MIX x y (word_le (take 8 cmp)) = (x1, y1)" by fastforce
    have d: "length cmp div 8 = Suc (length (drop 8 cmp) div 8)" "length cmp mod 8 = length (drop 8 cmp) mod 8"
      using False by (simp_all add: le_div_geq le_mod_geq)
    have "list_all (\<lambda>b. \<not> sep b) (drop 8 cmp)" using 1(2) by (auto simp: list_all_iff dest: in_set_dropD)
    moreover have "8 * (length (drop 8 cmp) div 8) + 8 \<le> length (drop 8 cmp @ t # rest)"
      using 1(4) d(1) False by simp
    ultimately show ?thesis
      using 1(1) [OF False m [symmetric] _ 1(3), of "len + 8"] False hash_loop_long [of cmp "t # rest" x y len] 1(2) m d
      by (auto simp: hash_words.simps [of cmp] algebra_simps)
  qed
qed

section \<open>Properties\<close>

text \<open>C31. The word-at-a-time scan finds the end of the first path component: for a component without NUL
  and slash, followed by one of them, the length of the whole words plus the count of the last word is the
  length of the component, and the hash is that of the component's own bytes, whatever follows the
  separator.\<close>

theorem hash_name_component:
  assumes "list_all (\<lambda>b. b \<noteq> 0 \<and> b \<noteq> 47) cmp" "t = 0 \<or> t = 47"
    and "8 * (length cmp div 8) + 8 \<le> length (cmp @ t # rest)"
  shows "hash_name salt (cmp @ t # rest)
    = Some (hash_component salt cmp, of_nat (length cmp mod 8), of_nat (8 * (length cmp div 8)))"
proof -
  have c: "list_all (\<lambda>b. \<not> sep b) cmp" "sep t" using assms(1,2) by (auto simp: list_all_iff sep_def)
  obtain x y r cs ad bd where h: "hash_words cmp 0 salt = (x, y, r)" "list_all (\<lambda>b. \<not> sep b) r"
    "length r = length cmp mod 8" "length (r @ t # cs) = 8" "ad OR bd = marks (r @ t # cs)"
    "hash_loop (cmp @ t # rest) 0 salt 0 = Some (word_le (r @ t # cs), ad, bd, x, y, 0 + 8 * of_nat (length cmp div 8))"
    using hash_loop_component [OF c assms(3), of 0 salt 0] by blast
  show ?thesis
    using h(3) last_word [OF h(4,2) c(2)]
    by (simp only: hash_name_def prep_zero_mask_def h option.case prod.case Let_def hash_component_def) simp
qed

theorem hash_name_component_witness:
  "\<exists>h. hash_name 7 [97, 98, 99, 100, 101, 102, 103, 104, 105, 106, 47, 120, 0, 1, 2, 3] = Some (h, 2, 8)"
  using hash_name_component [of "[97, 98, 99, 100, 101, 102, 103, 104, 105, 106]" 47 "[120, 0, 1, 2, 3]" 7] by simp

end
