(* ===== verification/Find_Next_Bit.thy ===== *)
theory Find_Next_Bit
  imports Prelude
begin

text \<open>
  Searching a bitmap, \<^verbatim>\<open>linuxCode/find_next_bit/main.c\<close> (64-bit words): \<open>generic___ffs\<close> and the
  macro \<open>FIND_NEXT_BIT\<close> at an empty \<^verbatim>\<open>MUNGE\<close>, where \<open>__ffs\<close> is \<open>generic___ffs\<close>.  The
  \<^verbatim>\<open>FETCH\<close> expression is a function of the word index.  The loop has no bound of its own (the index
  can wrap around for a size near the top of the type), so it is a partial function; \<open>None\<close> is not ending.
\<close>

section \<open>Operations\<close>

definition ffs_step :: "nat \<Rightarrow> u64 \<Rightarrow> u32 \<times> u64 \<Rightarrow> u32 \<times> u64" where
  "ffs_step k m = (\<lambda>(num, word). if word AND m = 0 then (num + of_nat k, shr word k) else (num, word))"

definition generic_ffs :: "u64 \<Rightarrow> u32" where
  "generic_ffs word =
     (let (num, word) = ffs_step 32 0xffffffff (0, word);
          (num, word) = ffs_step 16 0xffff (num, word);
          (num, word) = ffs_step 8 0xff (num, word);
          (num, word) = ffs_step 4 0xf (num, word);
          (num, word) = ffs_step 2 0x3 (num, word)
      in if word AND 0x1 = 0 then num + 1 else num)"

definition BITMAP_FIRST_WORD_MASK :: "u64 \<Rightarrow> u64" where
  "BITMAP_FIRST_WORD_MASK start = shl (NOT 0) (unat (start AND (64 - 1)))"

datatype search = Found u64 u64 | Out

partial_function (option) find_loop :: "(u64 \<Rightarrow> u64) \<Rightarrow> u64 \<Rightarrow> u64 \<Rightarrow> u64 \<Rightarrow> search option" where
  "find_loop fetch sz idx tmp =
     (if tmp \<noteq> 0 then Some (Found idx tmp)
      else if (idx + 1) * 64 \<ge> sz then Some Out
      else find_loop fetch sz (idx + 1) (fetch (idx + 1)))"

definition FIND_NEXT_BIT :: "(u64 \<Rightarrow> u64) \<Rightarrow> u64 \<Rightarrow> u64 \<Rightarrow> u64 option" where
  "FIND_NEXT_BIT fetch sz start =
     (if start \<ge> sz then Some sz
      else
        (let m = BITMAP_FIRST_WORD_MASK start;
             idx = start div 64
         in case find_loop fetch sz idx (fetch idx AND m) of
              None \<Rightarrow> None
            | Some Out \<Rightarrow> Some sz
            | Some (Found idx tmp) \<Rightarrow> Some (min (idx * 64 + ucast (generic_ffs tmp)) sz)))"

section \<open>The lowest bit of a word\<close>

definition lowest :: "u64 \<Rightarrow> nat \<Rightarrow> bool" where
  "lowest w p \<longleftrightarrow> bit w p \<and> (\<forall>n < p. \<not> bit w n)"

lemma lowest_exists:
  assumes "w \<noteq> 0"
  obtains p where "lowest w p" "p < 64"
proof -
  have "\<exists>n. bit w n"
  proof (rule ccontr)
    assume "\<nexists>n. bit w n"
    then have "w = 0" by (intro bit_word_eqI) simp
    with assms show False by simp
  qed
  then obtain n where n: "bit w n" by blast
  define p where "p = (LEAST n. bit w n)"
  have "bit w p" unfolding p_def by (rule LeastI [of _ n]) (rule n)
  moreover have "\<not> bit w k" if "k < p" for k using not_less_Least that unfolding p_def by blast
  ultimately show ?thesis using that [of p] bit_imp_le_length [of w p] by (simp add: lowest_def)
qed

text \<open>The state of the halving search: the lowest bit of the whole word is among the \<open>K\<close> bits from \<open>num\<close> on.\<close>

definition ffs_inv :: "u64 \<Rightarrow> nat \<Rightarrow> nat \<Rightarrow> u32 \<times> u64 \<Rightarrow> bool" where
  "ffs_inv w p K s \<longleftrightarrow> unat (fst s) \<le> p \<and> p < unat (fst s) + K \<and> snd s = shr w (unat (fst s))"

lemma ffs_step_inv:
  assumes "ffs_inv w p (2 * k) s" "lowest w p" "p < 64" "m = mask k" "k \<le> 32"
  shows "ffs_inv w p k (ffs_step k m s)"
proof -
  obtain num word where s: "s = (num, word)" by (cases s)
  have i: "unat num \<le> p" "p < unat num + 2 * k" "word = shr w (unat num)"
    using assms(1) by (simp_all add: ffs_inv_def s)
  have z: "word AND m = 0 \<longleftrightarrow> unat num + k \<le> p"
  proof
    assume "word AND m = 0"
    then have "\<not> bit (word AND m) (p - unat num)" by simp
    then have "\<not> (p - unat num < k)"
      using assms(2,3,4) i by (auto simp: lowest_def bit_and_iff bit_mask_iff bit_drop_bit_eq)
    then show "unat num + k \<le> p" using i(1) by linarith
  next
    assume "unat num + k \<le> p"
    then have "\<not> bit (word AND m) n" for n
      using assms(2) by (auto simp: assms(4) i(3) lowest_def bit_and_iff bit_mask_iff bit_drop_bit_eq)
    then show "word AND m = 0" by (intro bit_word_eqI) simp
  qed
  have "unat (of_nat k :: u32) = k" using assms(5) by (simp add: unat_of_nat take_bit_nat_eq_self_iff)
  moreover have "unat num + k < 2 ^ 32" using i(1) assms(3,5) by simp
  ultimately have "unat (num + of_nat k) = unat num + k" by (subst unat_add_small) simp_all
  then show ?thesis
    using i z by (auto simp: ffs_step_def s ffs_inv_def add.commute)
qed

lemma generic_ffs_lowest:
  assumes "lowest w p"
  shows "unat (generic_ffs w) = p"
proof -
  have p: "p < 64" using assms bit_imp_le_length [of w p] by (simp add: lowest_def)
  have masks: "0xffffffff = (mask 32 :: u64)" "0xffff = (mask 16 :: u64)" "0xff = (mask 8 :: u64)"
    "0xf = (mask 4 :: u64)" "0x3 = (mask 2 :: u64)"
    by (simp_all add: mask_eq_exp_minus_1)
  define s0 where "s0 = ((0::u32), w)"
  define s1 where "s1 = ffs_step 32 0xffffffff s0"
  define s2 where "s2 = ffs_step 16 0xffff s1"
  define s3 where "s3 = ffs_step 8 0xff s2"
  define s4 where "s4 = ffs_step 4 0xf s3"
  define s5 where "s5 = ffs_step 2 0x3 s4"
  have "ffs_inv w p (2 * 32) s0" using p by (simp add: ffs_inv_def s0_def)
  from ffs_step_inv [OF this assms p masks(1)] have "ffs_inv w p (2 * 16) s1" by (simp add: s1_def)
  from ffs_step_inv [OF this assms p masks(2)] have "ffs_inv w p (2 * 8) s2" by (simp add: s2_def)
  from ffs_step_inv [OF this assms p masks(3)] have "ffs_inv w p (2 * 4) s3" by (simp add: s3_def)
  from ffs_step_inv [OF this assms p masks(4)] have "ffs_inv w p (2 * 2) s4" by (simp add: s4_def)
  from ffs_step_inv [OF this assms p masks(5)] have s5: "ffs_inv w p (2 * 1) s5" by (simp add: s5_def)
  have "ffs_inv w p 1 (ffs_step 1 0x1 s5)" by (rule ffs_step_inv [OF s5 assms p]) (simp_all add: mask_eq_exp_minus_1)
  then have "unat (fst (ffs_step 1 0x1 s5)) = p" by (simp add: ffs_inv_def)
  moreover have "generic_ffs w = fst (ffs_step 1 0x1 s5)"
    by (simp add: generic_ffs_def s0_def [symmetric] s1_def [symmetric] s2_def [symmetric] s3_def [symmetric]
        s4_def [symmetric] s5_def [symmetric] ffs_step_def [of "Suc 0"] split: prod.split)
  ultimately show ?thesis by simp
qed


section \<open>The loop\<close>

text \<open>Bit \<open>n\<close> of the bitmap.\<close>

definition bitmap :: "(u64 \<Rightarrow> u64) \<Rightarrow> nat \<Rightarrow> bool" where
  "bitmap fetch n \<longleftrightarrow> bit (fetch (of_nat (n div 64))) (n mod 64)"

lemma next_index:
  fixes idx sz :: u64
  assumes "unat sz \<le> 2 ^ 64 - 64" "64 * unat idx < unat sz"
  shows "unat (idx + 1) = unat idx + 1" "unat ((idx + 1) * 64) = 64 * (unat idx + 1)"
proof -
  show i: "unat (idx + 1) = unat idx + 1" using assms by (subst unat_add_small) simp_all
  show "unat ((idx + 1) * 64) = 64 * (unat idx + 1)"
    using assms by (subst unat_mult_small) (simp_all add: i)
qed

text \<open>What the loop finds: the first word from \<open>idx\<close> on (\<open>tmp\<close> in place of the word \<open>idx\<close>) that is not zero, or
  that there is none before the end.\<close>

fun search_result :: "(u64 \<Rightarrow> u64) \<Rightarrow> u64 \<Rightarrow> u64 \<Rightarrow> u64 \<Rightarrow> search \<Rightarrow> bool" where
  "search_result fetch sz idx tmp (Found idx' tmp') \<longleftrightarrow> tmp' \<noteq> 0 \<and> 64 * unat idx' < unat sz
        \<and> (idx' = idx \<and> tmp' = tmp \<or> unat idx < unat idx' \<and> tmp = 0 \<and> tmp' = fetch idx')
        \<and> (\<forall>j. unat idx < j \<and> j < unat idx' \<longrightarrow> fetch (of_nat j) = 0)"
| "search_result fetch sz idx tmp Out \<longleftrightarrow> tmp = 0 \<and> (\<forall>j. unat idx < j \<and> 64 * j < unat sz \<longrightarrow> fetch (of_nat j) = 0)"

lemma search_result_next:
  assumes "search_result fetch sz (idx + 1) (fetch (idx + 1)) r" "unat (idx + 1) = unat idx + 1"
  shows "search_result fetch sz idx 0 r"
proof -
  have f: "fetch (of_nat (unat idx + 1)) = fetch (idx + 1)" by (simp only: assms(2) [symmetric]) simp
  have z: "fetch (of_nat j) = 0" if "fetch (idx + 1) = 0" "unat idx < j" "unat (idx + 1) < j \<Longrightarrow> fetch (of_nat j) = 0" for j
    using that f assms(2) by (cases "j = unat idx + 1") auto
  show ?thesis
    using assms z by (cases r) auto
qed

lemma find_loop_result:
  assumes "unat sz \<le> 2 ^ 64 - 64" "64 * unat idx < unat sz"
  shows "\<exists>r. find_loop fetch sz idx tmp = Some r \<and> search_result fetch sz idx tmp r"
  using assms(2)
proof (induction "unat sz - 64 * unat idx" arbitrary: idx tmp rule: less_induct)
  case less
  note n = next_index [OF assms(1) less.prems]
  show ?case
  proof (cases "tmp \<noteq> 0")
    case True
    then show ?thesis using less.prems by (subst find_loop.simps) auto
  next
    case False
    show ?thesis
    proof (cases "(idx + 1) * 64 \<ge> sz")
      case True
      then have "unat sz \<le> 64 * (unat idx + 1)" by (simp only: word_le_nat_alt n)
      then show ?thesis using True False by (subst find_loop.simps) auto
    next
      case c: False
      then have lt: "64 * unat (idx + 1) < unat sz" by (simp only: word_le_nat_alt n not_le)
      have dec: "unat sz - 64 * unat (idx + 1) < unat sz - 64 * unat idx" using less.prems n(1) by simp
      have "find_loop fetch sz idx tmp = find_loop fetch sz (idx + 1) (fetch (idx + 1))"
        using False c by (subst find_loop.simps) simp
      then show ?thesis
        using less.hyps [OF dec lt, of "fetch (idx + 1)"] search_result_next [OF _ n(1), of fetch sz] False by auto
    qed
  qed
qed

section \<open>From words to bits\<close>

lemma bitmap_word: "n div 64 = unat i \<Longrightarrow> bitmap fetch n \<longleftrightarrow> bit (fetch i) (n mod 64)"
  by (simp add: bitmap_def)

lemma bitmap_zero: "fetch (of_nat (n div 64)) = 0 \<Longrightarrow> \<not> bitmap fetch n"
  by (simp add: bitmap_def)

lemma first_word_mask_bit:
  "bit (BITMAP_FIRST_WORD_MASK start) n \<longleftrightarrow> n < 64 \<and> unat start mod 64 \<le> n"
proof -
  have "start AND (64 - 1) = take_bit 6 start" by (simp add: take_bit_eq_mask mask_eq_exp_minus_1)
  then have "unat (start AND (64 - 1)) = unat start mod 64"
    by (simp only: unsigned_take_bit_eq) (simp add: take_bit_eq_mod)
  then show ?thesis by (auto simp: BITMAP_FIRST_WORD_MASK_def bit_push_bit_iff bit_not_iff bit_mask_iff dest: bit_imp_le_length)
qed

lemma find_start:
  fixes start sz :: u64
  assumes "unat start < unat sz"
  shows "unat (start div 64) = unat start div 64" "64 * unat (start div 64) < unat sz"
proof -
  show d: "unat (start div 64) = unat start div 64" by (simp add: unat_div_distrib)
  show "64 * unat (start div 64) < unat sz" using assms by (simp add: d)
qed

text \<open>The bits of the words that the search passed over are clear.\<close>

lemma passed_over_clear:
  assumes "start div 64 = idx" "n div 64 < k \<or> (n div 64 = k \<and> n mod 64 < p)" "unat start \<le> n"
    and "\<And>j. unat idx < j \<Longrightarrow> j < k \<Longrightarrow> fetch (of_nat j) = 0"
    and "unat idx < k \<Longrightarrow> fetch idx AND BITMAP_FIRST_WORD_MASK start = 0"
    and "\<And>q. q < p \<Longrightarrow> k = unat idx \<Longrightarrow> \<not> bit (fetch idx AND BITMAP_FIRST_WORD_MASK start) q"
    and "\<And>q. q < p \<Longrightarrow> unat idx < k \<Longrightarrow> \<not> bit (fetch (of_nat k)) q"
  shows "\<not> bitmap fetch n"
proof -
  have i: "unat idx = unat start div 64" unfolding assms(1) [symmetric] by (simp add: unat_div_distrib)
  have le: "unat idx \<le> n div 64" unfolding i by (rule div_le_mono) (rule assms(3))
  show ?thesis
  proof (cases "n div 64 = unat idx")
    case True
    then have ge: "unat start mod 64 \<le> n mod 64" using assms(3) i
      by (metis div_mult_mod_eq add_le_cancel_left)
    have "\<not> bit (fetch idx AND BITMAP_FIRST_WORD_MASK start) (n mod 64)"
      using assms(2,5,6) True by (cases "unat idx < k") auto
    then show ?thesis using ge by (simp add: bitmap_word [OF True] bit_and_iff first_word_mask_bit)
  next
    case False
    then have lt: "unat idx < n div 64" using le by simp
    then show ?thesis using assms(2,4,7) bitmap_zero [of fetch n] by (auto simp: bitmap_def)
  qed
qed

lemma find_found:
  assumes "unat sz \<le> 2 ^ 64 - 64" "unat start < unat sz"
    and "search_result fetch sz (start div 64) (fetch (start div 64) AND BITMAP_FIRST_WORD_MASK start) (Found i t)"
    and "lowest t p" "p < 64"
  shows "\<And>n. unat start \<le> n \<Longrightarrow> n < 64 * unat i + p \<Longrightarrow> \<not> bitmap fetch n"
    and "bitmap fetch (64 * unat i + p)" and "unat start \<le> 64 * unat i + p"
    and "unat (i * 64 + ucast (generic_ffs t)) = 64 * unat i + p"
proof -
  note s = assms(3) [simplified]
  have dm: "n div 64 < unat i \<or> (n div 64 = unat i \<and> n mod 64 < p)" if "n < 64 * unat i + p" for n
    using that assms(5) div_mult_mod_eq [of n 64] by linarith
  show "\<not> bitmap fetch n" if "unat start \<le> n" "n < 64 * unat i + p" for n
    by (rule passed_over_clear [OF refl dm [OF that(2)] that(1)])
      (use s assms(4) in \<open>auto simp: lowest_def\<close>)
  have dv: "(64 * unat i + p) div 64 = unat i" "(64 * unat i + p) mod 64 = p" using assms(5) by simp_all
  have b: "bit t p" using assms(4) by (simp add: lowest_def)
  show "bitmap fetch (64 * unat i + p)"
    using s b unfolding bitmap_word [OF dv(1)] dv(2) by (auto simp: bit_and_iff)
  show "unat start \<le> 64 * unat i + p"
  proof (cases "i = start div 64")
    case True
    then have "unat start mod 64 \<le> p" using s b by (auto simp: bit_and_iff first_word_mask_bit)
    then have "64 * (unat start div 64) + unat start mod 64 \<le> 64 * (unat start div 64) + p" by (rule add_left_mono)
    then show ?thesis using True by (simp only: mult_div_mod_eq) (simp add: unat_div_distrib)
  next
    case False
    then have "unat start div 64 < unat i" using s by (auto simp: unat_div_distrib)
    then show ?thesis by linarith
  qed
  have u: "unat (ucast (generic_ffs t) :: u64) = p"
    using generic_ffs_lowest [OF assms(4)] assms(5) by (simp add: unsigned_ucast_eq take_bit_nat_eq_self_iff)
  have "unat (i * 64) = 64 * unat i" using s assms(1) by (subst unat_mult_small) simp_all
  then show "unat (i * 64 + ucast (generic_ffs t)) = 64 * unat i + p"
    using s assms(1,5) u by (subst unat_add_small) (simp_all add: u)
qed

section \<open>Properties\<close>

text \<open>C32. \<open>FIND_NEXT_BIT\<close> ends for every size up to the last word boundary of the type and returns the
  first set bit at or after the start, or the size when there is none.\<close>

theorem find_next_bit_correct:
  assumes "unat sz \<le> 2 ^ 64 - 64" "unat start \<le> unat sz"
  shows "\<exists>r. FIND_NEXT_BIT fetch sz start = Some r \<and> unat start \<le> unat r \<and> unat r \<le> unat sz
    \<and> (\<forall>n. unat start \<le> n \<and> n < unat r \<longrightarrow> \<not> bitmap fetch n) \<and> (unat r < unat sz \<longrightarrow> bitmap fetch (unat r))"
proof (cases "start \<ge> sz")
  case True
  then have "unat start = unat sz" using assms(2) by (simp add: word_le_nat_alt)
  then show ?thesis using True by (auto simp: FIND_NEXT_BIT_def)
next
  case False
  then have lt: "unat start < unat sz" by (simp add: word_le_nat_alt)
  define t0 where "t0 = fetch (start div 64) AND BITMAP_FIRST_WORD_MASK start"
  obtain r where r: "find_loop fetch sz (start div 64) t0 = Some r"
    and res: "search_result fetch sz (start div 64) t0 r"
    using find_loop_result [OF assms(1) find_start(2) [OF lt]] by blast
  have F: "FIND_NEXT_BIT fetch sz start
      = (case r of Out \<Rightarrow> Some sz | Found i t \<Rightarrow> Some (min (i * 64 + ucast (generic_ffs t)) sz))"
    using False r unfolding FIND_NEXT_BIT_def by (simp add: t0_def Let_def split: search.split)
  show ?thesis
  proof (cases r)
    case Out
    have "\<not> bitmap fetch n" if "unat start \<le> n" "n < unat sz" for n
      by (rule passed_over_clear [where k = "n div 64 + 1" and p = 0, OF refl _ that(1)])
        (use res Out that in \<open>auto simp: t0_def\<close>)
    then show ?thesis using F Out assms(2) by simp
  next
    case (Found i t)
    then obtain p where p: "lowest t p" "p < 64" using res lowest_exists by (metis search_result.simps(1))
    note f = find_found [OF assms(1) lt res [unfolded t0_def Found] p]
    show ?thesis
    proof (cases "64 * unat i + p \<le> unat sz")
      case True
      then have "min (i * 64 + ucast (generic_ffs t)) sz = i * 64 + ucast (generic_ffs t)"
        by (simp add: min_def word_le_nat_alt f(4))
      then show ?thesis using F Found f True by simp
    next
      case False
      then have "min (i * 64 + ucast (generic_ffs t)) sz = sz"
        by (simp add: min_def word_le_nat_alt f(4))
      then show ?thesis using F Found f(1) False assms(2) by simp
    qed
  qed
qed

theorem find_next_bit_witness:
  "\<exists>r. FIND_NEXT_BIT (\<lambda>i. if i = 1 then 0x30 else 1) 320 1 = Some r \<and> unat r = 68"
proof -
  define fetch where "fetch = (\<lambda>i::u64. if i = 1 then 0x30 else (1::u64))"
  have b68: "bitmap fetch 68" and b0: "bitmap fetch n \<Longrightarrow> n < 68 \<Longrightarrow> n = 0" for n
  proof -
    show "bitmap fetch 68" by (simp add: bitmap_def fetch_def)
    assume n: "bitmap fetch n" "n < 68"
    show "n = 0"
    proof (cases "n < 64")
      case True
      then show ?thesis using n(1) by (simp add: bitmap_def fetch_def bit_1_iff)
    next
      case False
      then have "n div 64 = 1" "n mod 64 = n - 64" using n(2) by (simp_all add: div_nat_eqI mod_if)
      moreover have "n = 64 \<or> n = 65 \<or> n = 66 \<or> n = 67" using False n(2) by arith
      ultimately show ?thesis using n(1) by (auto simp: bitmap_def fetch_def)
    qed
  qed
  obtain r where r: "FIND_NEXT_BIT fetch 320 1 = Some r" "1 \<le> unat r"
      "\<And>n. 1 \<le> n \<Longrightarrow> n < unat r \<Longrightarrow> \<not> bitmap fetch n" "unat r < 320 \<Longrightarrow> bitmap fetch (unat r)"
    using find_next_bit_correct [of 320 1 fetch] by auto
  have "unat r \<le> 68" using r(3) [of 68] b68 by force
  then have "unat r = 68" using r(2,4) b0 [of "unat r"] by force
  then show ?thesis using r(1) unfolding fetch_def by blast
qed

end
