(* ===== verification/Escape.thy ===== *)
theory Escape
  imports Prelude
begin

text \<open>
  Backslash escapes, \<^verbatim>\<open>libbb/process_escape_sequence.c\<close>.  A pointer into the string is the rest of
  the string from there; reading at its end gives NUL.  The digit value is kept at the width of
  \<^verbatim>\<open>unsigned\<close>, where a character below the digits or letters wraps to a large number.
\<close>

section \<open>Operations\<close>

definition esc_digit :: "char \<Rightarrow> u32" where
  "esc_digit c =
     (let d = of_nat (code c) - 48
      in if d \<ge> 10 then
           (let d = of_nat (code c OR 0x20) - 97 in if 0 \<le> sint d then d + 10 else d)
         else d)"

text \<open>The digit loop: the value, the number of digits and the rest, or \<open>None\<close> for \<^verbatim>\<open>\x\<close> before no digit.\<close>

function esc_digits :: "nat \<Rightarrow> string \<Rightarrow> nat \<Rightarrow> nat \<Rightarrow> (nat \<times> nat \<times> string) option" where
  "esc_digits base q n num_digits =
     (let d = unat (esc_digit (peek q))
      in if d \<ge> base then
           (if base = 16 then
              (if num_digits - 1 = 0 then None else Some (n, num_digits - 1, q))
            else Some (n, num_digits, q))
         else
           (let r = n * base + d
            in if r > 255 then Some (n, num_digits, q)
               else if num_digits + 1 < 3 then esc_digits base (tl q) r (num_digits + 1)
               else Some (r, num_digits + 1, tl q)))"
  by pat_completeness auto
termination by (relation "measure (\<lambda>(base, q, n, num_digits). 3 - num_digits)") auto

declare esc_digits.simps [simp del]

definition charmap :: "(char \<times> char) list" where
  "charmap = [(CHR ''a'', CHR 0x07), (CHR ''b'', CHR 0x08), (CHR ''e'', CHR 0x1B), (CHR ''f'', CHR 0x0C), (CHR ''n'', CHR 0x0A),
     (CHR ''r'', CHR 0x0D), (CHR ''t'', CHR 0x09), (CHR ''v'', CHR 0x0B), (CHR 0x5C, CHR 0x5C)]"

definition bb_process_escape_sequence :: "string \<Rightarrow> char \<times> string" where
  "bb_process_escape_sequence ptr =
     (case (if peek ptr = CHR ''x'' then esc_digits 16 (tl ptr) 0 1 else esc_digits 8 ptr 0 0) of
        None \<Rightarrow> (CHR 0x5C, ptr)
      | Some (n, num_digits, q) \<Rightarrow>
          (if num_digits = 0 then
             (case map_of charmap (peek q) of
                Some c \<Rightarrow> (c, tl q)
              | None \<Rightarrow> (CHR 0x5C, q))
           else (char_of n, q)))"

lemma esc_digits_le: "esc_digits base q n k = Some (n', k', q') \<Longrightarrow> length q' \<le> length q"
proof (induction base q n k rule: esc_digits.induct)
  case (1 base q n k)
  then show ?case
    by (subst (asm) (2) esc_digits.simps) (fastforce simp: Let_def split: if_splits)
qed

lemma process_escape_le: "bb_process_escape_sequence q = (c, q') \<Longrightarrow> length q' \<le> length q"
  by (auto simp: bb_process_escape_sequence_def split: option.splits if_splits
      dest!: esc_digits_le intro: le_trans)

function strcpy_and_process_escape_sequences :: "string \<Rightarrow> string" where
  "strcpy_and_process_escape_sequences [] = []"
| "strcpy_and_process_escape_sequences (c # src) =
     (if c = CHR 0x5C then
        (case bb_process_escape_sequence src of
           (c1, src) \<Rightarrow> c1 # strcpy_and_process_escape_sequences src)
      else c # strcpy_and_process_escape_sequences src)"
  by pat_completeness auto
termination
  by (relation "measure length") (auto simp: less_Suc_eq_le dest: process_escape_le sym)

section \<open>Spellings of a character\<close>

definition digit_char :: "nat \<Rightarrow> char" where
  "digit_char k = (if k < 10 then char_of (48 + k) else char_of (87 + k))"

definition octal :: "char \<Rightarrow> string" where
  "octal c = [digit_char (code c div 64), digit_char (code c div 8 mod 8), digit_char (code c mod 8)]"

definition hex :: "char \<Rightarrow> string" where
  "hex c = [CHR ''x'', digit_char (code c div 16), digit_char (code c mod 16)]"

lemma esc_digit_char:
  assumes "k < 16"
  shows "unat (esc_digit (digit_char k)) = k"
proof -
  have "[0..<16] = [0, 1, 2, 3, 4, 5, 6, 7, 8, 9, 10, 11, 12, 13, 14, 15::nat]" by (simp add: upt_rec)
  moreover have "k \<in> set [0..<16]" using assms by simp
  ultimately have "k \<in> set [0, 1, 2, 3, 4, 5, 6, 7, 8, 9, 10, 11, 12, 13, 14, 15]" by (simp only:)
  then show ?thesis by (auto simp: esc_digit_def digit_char_def word_le_nat_alt)
qed

lemma esc_digits_step:
  assumes "d < base" "base \<le> 16" "n * base + d \<le> 255"
  shows "esc_digits base (digit_char d # q) n k
    = (if k + 1 < 3 then esc_digits base q (n * base + d) (k + 1) else Some (n * base + d, k + 1, q))"
  using assms by (subst esc_digits.simps) (simp add: esc_digit_char)

lemma octal_escape: "bb_process_escape_sequence (octal c @ q) = (c, q)"
proof -
  let ?n = "code c"
  have a: "?n div 64 < 4" by (simp add: less_mult_imp_div_less)
  have x: "digit_char (?n div 64) \<noteq> CHR ''x''" 
    using a by (auto simp: digit_char_def dest!: arg_cong [where f = code])
  have v: "(?n div 64 * 8 + ?n div 8 mod 8) * 8 + ?n mod 8 = ?n"
  proof -
    have "?n div 64 = ?n div 8 div 8" by (simp add: div_mult2_eq [symmetric])
    then show ?thesis by (simp only: div_mult_mod_eq)
  qed
  have "esc_digits 8 (octal c @ q) 0 0 = Some (?n, 3, q)"
    using a v nat_of_char_less_256 [of c] by (simp add: octal_def esc_digits_step)
  then show ?thesis using x by (simp add: bb_process_escape_sequence_def octal_def)
qed

lemma hex_escape: "bb_process_escape_sequence (hex c @ q) = (c, q)"
proof -
  have "code c div 16 < 16" by (simp add: less_mult_imp_div_less)
  then have "esc_digits 16 (tl (hex c @ q)) 0 1 = Some (code c, 3, q)"
    by (simp add: hex_def esc_digits_step)
  then show ?thesis by (simp add: bb_process_escape_sequence_def hex_def)
qed

lemma letter_escape:
  assumes "(l, c) \<in> set charmap"
  shows "bb_process_escape_sequence (l # q) = (c, q)"
proof -
  have n: "list_all (\<lambda>(l, c). l \<noteq> CHR ''x'' \<and> 8 \<le> unat (esc_digit l) \<and> map_of charmap l = Some c) charmap"
    by code_simp
  then have "l \<noteq> CHR ''x''" "8 \<le> unat (esc_digit l)" "map_of charmap l = Some c"
    using assms by (auto simp: list_all_iff)
  then show ?thesis by (simp add: bb_process_escape_sequence_def esc_digits.simps)
qed

datatype spelling = Plain char | Octal char | Hex char | Letter char char

fun spelled :: "spelling \<Rightarrow> char" where
  "spelled (Plain c) = c"
| "spelled (Octal c) = c"
| "spelled (Hex c) = c"
| "spelled (Letter l c) = c"

fun spell :: "spelling \<Rightarrow> string" where
  "spell (Plain c) = [c]"
| "spell (Octal c) = CHR 0x5C # octal c"
| "spell (Hex c) = CHR 0x5C # hex c"
| "spell (Letter l c) = [CHR 0x5C, l]"

fun spelling_ok :: "spelling \<Rightarrow> bool" where
  "spelling_ok (Plain c) \<longleftrightarrow> c \<noteq> CHR 0x5C"
| "spelling_ok (Letter l c) \<longleftrightarrow> (l, c) \<in> set charmap"
| "spelling_ok _ \<longleftrightarrow> True"

section \<open>Properties\<close>

text \<open>Copying a text with escapes gives the characters spelled: plain characters, \<^verbatim>\<open>\ooo\<close> for every byte,
  \<^verbatim>\<open>\xhh\<close> for every byte and the letter escapes of the table, in any mixture.\<close>

theorem escapes_roundtrip:
  assumes "list_all spelling_ok sps"
  shows "strcpy_and_process_escape_sequences (concat (map spell sps)) = map spelled sps"
  using assms
proof (induction sps)
  case (Cons sp sps)
  then show ?case by (cases sp) (auto simp: octal_escape hex_escape letter_escape)
qed simp

theorem escapes_roundtrip_witness:
  "strcpy_and_process_escape_sequences (concat (map spell [Plain (CHR ''a''), Octal NUL, Hex (CHR ''z''), Letter (CHR ''n'') (CHR 0x0A)]))
    = [CHR ''a'', NUL, CHR ''z'', CHR 0x0A]"
  using escapes_roundtrip [of "[Plain (CHR ''a''), Octal NUL, Hex (CHR ''z''), Letter (CHR ''n'') (CHR 0x0A)]"]
  by (simp add: charmap_def)

end
