(* ===== verification/Ctype.thy ===== *)
theory Ctype
  imports Prelude
begin

text \<open>
  The byte-oriented replacements for \<^verbatim>\<open><ctype.h>\<close> of \<^verbatim>\<open>include/libbb.h\<close>: each
  macro tests a wrapped \<^verbatim>\<open>unsigned char\<close> difference instead of two bounds.  They are shown to agree
  with the classes of the C locale on all 256 bytes.
\<close>

section \<open>Operations\<close>

definition bb_isascii :: "u8 \<Rightarrow> bool" where
  "bb_isascii a \<longleftrightarrow> a \<le> 0x7f"

definition bb_isdigit :: "u8 \<Rightarrow> bool" where
  "bb_isdigit a \<longleftrightarrow> a - 48 \<le> 9"

definition bb_isupper :: "u8 \<Rightarrow> bool" where
  "bb_isupper a \<longleftrightarrow> a - 65 \<le> 90 - 65"

definition bb_islower :: "u8 \<Rightarrow> bool" where
  "bb_islower a \<longleftrightarrow> a - 97 \<le> 122 - 97"

definition bb_isalpha :: "u8 \<Rightarrow> bool" where
  "bb_isalpha a \<longleftrightarrow> (a OR 0x20) - 97 \<le> 122 - 97"

definition bb_isblank :: "u8 \<Rightarrow> bool" where
  "bb_isblank a \<longleftrightarrow> a = 32 \<or> a = 9"

definition bb_iscntrl :: "u8 \<Rightarrow> bool" where
  "bb_iscntrl a \<longleftrightarrow> a < 32 \<or> a = 0x7f"

definition bb_isspace :: "u8 \<Rightarrow> bool" where
  "bb_isspace a \<longleftrightarrow> (let b = a - 9 in b = 32 - 9 \<or> b \<le> 13 - 9)"

text \<open>\<^verbatim>\<open>strchrnul\<close> gives the NUL at the end when the byte does not occur.\<close>

definition punct_chars :: string where
  "punct_chars = ''!\"#$%&'' @ [CHR 0x27] @ ''()*+,-./:;<=>?@['' @ [CHR 0x5C] @ '']^_'' @ [CHR 0x60] @ ''{|}~''"

definition bb_ispunct :: "u8 \<Rightarrow> bool" where
  "bb_ispunct a \<longleftrightarrow> peek (dropWhile (\<lambda>c. of_nat (code c) \<noteq> a) punct_chars) \<noteq> NUL"

definition bb_ascii_isalnum :: "u8 \<Rightarrow> bool" where
  "bb_ascii_isalnum a =
     (let b = a - 48
      in if b \<le> 9 then b \<le> 9
         else (let b = (a OR 0x20) - 97 in b \<le> 122 - 97))"

definition bb_ascii_isxdigit :: "u8 \<Rightarrow> bool" where
  "bb_ascii_isxdigit a =
     (let b = a - 48
      in if b \<le> 9 then b \<le> 9
         else (let b = (a OR 0x20) - 97 in b \<le> 102 - 97))"

definition bb_ascii_toupper :: "u8 \<Rightarrow> u8" where
  "bb_ascii_toupper a = (let b = a - 97 in if b \<le> 122 - 97 then a - (97 - 65) else a)"

definition bb_ascii_tolower :: "u8 \<Rightarrow> u8" where
  "bb_ascii_tolower a = (let b = a - 65 in if b \<le> 90 - 65 then a + (97 - 65) else a)"

text \<open>The argument of these two is an \<^verbatim>\<open>int\<close>.\<close>

definition isprint_asciionly :: "u32 \<Rightarrow> bool" where
  "isprint_asciionly a \<longleftrightarrow> a - 0x20 \<le> 0x7e - 0x20"

definition isgraph_asciionly :: "u32 \<Rightarrow> bool" where
  "isgraph_asciionly a \<longleftrightarrow> a - 0x21 \<le> 0x7e - 0x21"

section \<open>Agreement with the C locale\<close>

text \<open>A statement about bytes is one about the 256 characters.\<close>

definition all_bytes :: "(u8 \<Rightarrow> bool) \<Rightarrow> bool" where
  "all_bytes P \<longleftrightarrow> list_all (\<lambda>i. P (word_of_int i)) [0..255]"

lemma all_bytesD:
  assumes "all_bytes P"
  shows "P a"
proof -
  have "uint a \<in> set [0..255]" using uint_bounded [of a] by simp
  then have "P (word_of_int (uint a))" using assms unfolding all_bytes_def list_all_iff by (rule bspec [rotated])
  then show ?thesis by simp
qed

definition byte :: "char \<Rightarrow> u8" where
  "byte c = of_nat (code c)"

lemma byte_of: "\<exists>c. byte c = a"
  by (rule exI [of _ "char_of (unat a)"]) (use unat_bound [of a] in \<open>simp add: byte_def\<close>)

lemma unat_byte: "unat (byte c) = code c"
  by (simp add: byte_def unat_of_nat take_bit_nat_eq_self_iff)

text \<open>A wrapped difference within the width of a range is membership in it.\<close>

lemma wrapped_range:
  fixes a lo k :: "'a::len word"
  assumes "unat lo + unat k < 2 ^ LENGTH('a)"
  shows "a - lo \<le> k \<longleftrightarrow> unat lo \<le> unat a \<and> unat a \<le> unat lo + unat k"
proof (cases "lo \<le> a")
  case True
  then show ?thesis by (auto simp: word_le_nat_alt unat_sub)
next
  case False
  then have lt: "unat a < unat lo" by (simp add: word_le_nat_alt)
  have "unat (a - lo) = 2 ^ LENGTH('a) + unat a - unat lo"
    using lt unat_bound [of lo] by (simp add: unat_sub_if_size word_size)
  then show ?thesis using lt assms unat_bound [of lo] by (simp add: word_le_nat_alt)
qed

lemma byte_le: "byte c \<le> k \<longleftrightarrow> code c \<le> unat k" and byte_less: "byte c < k \<longleftrightarrow> code c < unat k"
  and byte_eq: "byte c = k \<longleftrightarrow> code c = unat k"
  by (simp_all add: word_le_nat_alt word_less_nat_alt unat_byte word_unat_eq_iff)

lemma byte_range: "unat lo + unat k < 256 \<Longrightarrow> byte c - lo \<le> k \<longleftrightarrow> unat lo \<le> code c \<and> code c \<le> unat lo + unat k"
  by (subst wrapped_range) (simp_all add: unat_byte)

lemma bb_isdigit_byte [ctype_simps]: "bb_isdigit (byte c) = isdigit c"
  by (simp add: bb_isdigit_def isdigit_def byte_range)

lemma bb_isupper_byte [ctype_simps]: "bb_isupper (byte c) = isupper c"
  by (simp add: bb_isupper_def isupper_def byte_range)

lemma bb_islower_byte [ctype_simps]: "bb_islower (byte c) = islower c"
  by (simp add: bb_islower_def islower_def byte_range)

lemma bb_isspace_byte [ctype_simps]: "bb_isspace (byte c) = isspace c"
  by (simp add: bb_isspace_def isspace_def byte_range Let_def diff_eq_eq byte_eq)

lemma bb_isalpha_split: "bb_isalpha a = (bb_isupper a \<or> bb_islower a)"
proof -
  have "all_bytes (\<lambda>a. bb_isalpha a = (bb_isupper a \<or> bb_islower a))" by code_simp
  then show ?thesis by (rule all_bytesD)
qed

lemma bb_isalpha_byte [ctype_simps]: "bb_isalpha (byte c) = isalpha c"
  by (simp add: bb_isalpha_split isalpha_def ctype_simps)

lemma bb_ascii_isalnum_byte [ctype_simps]: "bb_ascii_isalnum (byte c) = isalnum c"
  using bb_isalpha_byte [of c] bb_isdigit_byte [of c]
  by (auto simp: bb_ascii_isalnum_def bb_isalpha_def bb_isdigit_def isalnum_def Let_def)

definition isxdigit :: "char \<Rightarrow> bool" where
  "isxdigit c \<longleftrightarrow> isdigit c \<or> 65 \<le> code c \<and> code c \<le> 70 \<or> 97 \<le> code c \<and> code c \<le> 102"

lemma bb_ascii_isxdigit_byte [ctype_simps]: "bb_ascii_isxdigit (byte c) = isxdigit c"
proof -
  have "all_bytes (\<lambda>a. bb_ascii_isxdigit a = (bb_isdigit a \<or> a - 65 \<le> 5 \<or> a - 97 \<le> 5))" by code_simp
  then have "bb_ascii_isxdigit (byte c) = (bb_isdigit (byte c) \<or> byte c - 65 \<le> 5 \<or> byte c - 97 \<le> 5)" by (rule all_bytesD)
  then show ?thesis by (simp add: ctype_simps byte_range isxdigit_def)
qed

definition iscntrl :: "char \<Rightarrow> bool" where
  "iscntrl c \<longleftrightarrow> code c < 32 \<or> code c = 127"

definition isprint :: "char \<Rightarrow> bool" where
  "isprint c \<longleftrightarrow> 32 \<le> code c \<and> code c < 127"

definition ispunct :: "char \<Rightarrow> bool" where
  "ispunct c \<longleftrightarrow> 33 \<le> code c \<and> code c < 127 \<and> \<not> isalnum c"

lemma bb_iscntrl_byte [ctype_simps]: "bb_iscntrl (byte c) = iscntrl c"
  by (simp add: bb_iscntrl_def iscntrl_def byte_less byte_eq)

lemma isprint_asciionly_byte [ctype_simps]: "isprint_asciionly (of_nat (code c)) = isprint c"
proof -
  have "code c < 2 ^ 32" by (rule less_trans [OF nat_of_char_less_256]) simp
  then have "unat (of_nat (code c) :: u32) = code c" by (simp add: unat_of_nat take_bit_nat_eq_self_iff)
  then show ?thesis by (auto simp: isprint_asciionly_def isprint_def wrapped_range)
qed

lemma dropWhile_peek: "NUL \<notin> set xs \<Longrightarrow> peek (dropWhile P xs) \<noteq> NUL \<longleftrightarrow> (\<exists>x \<in> set xs. \<not> P x)"
  by (induction xs) auto

lemma punct_codes: "map code punct_chars = [33..<48] @ [58..<65] @ [91..<97] @ [123..<127]"
  by (simp add: punct_chars_def upt_rec)

lemma bb_ispunct_byte [ctype_simps]: "bb_ispunct (byte c) = ispunct c"
proof -
  have "NUL \<notin> set punct_chars" by (simp add: punct_chars_def)
  then have "bb_ispunct (byte c) \<longleftrightarrow> (\<exists>d \<in> set punct_chars. byte d = byte c)"
    by (simp add: bb_ispunct_def dropWhile_peek flip: byte_def)
  also have "\<dots> \<longleftrightarrow> code c \<in> set (map code punct_chars)" by (auto simp: byte_eq unat_byte)
  also have "\<dots> \<longleftrightarrow> ispunct c" unfolding punct_codes set_append set_upt
    by (auto simp del: upt_rec_numeral simp: ispunct_def ctype_defs)
  finally show ?thesis .
qed

lemma bb_ascii_tolower_byte:
  "bb_ascii_tolower (byte c) = byte (if isupper c then char_of (code c + 32) else c)"
proof -
  have "code c + 32 < 256" if "isupper c" using that by (simp add: isupper_def)
  then show ?thesis
    unfolding bb_ascii_tolower_def Let_def bb_isupper_def [symmetric] bb_isupper_byte by (simp add: byte_def)
qed

lemma bb_ascii_toupper_byte:
  "bb_ascii_toupper (byte c) = byte (if islower c then char_of (code c - 32) else c)"
proof -
  have "code c - 32 < 256" by (rule le_less_trans [OF diff_le_self]) simp
  then show ?thesis
    unfolding bb_ascii_toupper_def Let_def bb_islower_def [symmetric] bb_islower_byte
    by (auto simp: byte_def of_nat_diff islower_def)
qed

section \<open>Properties\<close>

text \<open>On every byte the macros of \<open>libbb.h\<close> decide the character classes of the C locale and convert the case of
  exactly the letters.\<close>

theorem ctype_c_locale:
  "bb_isdigit (byte c) = isdigit c \<and> bb_isupper (byte c) = isupper c \<and> bb_islower (byte c) = islower c
   \<and> bb_isalpha (byte c) = isalpha c \<and> bb_ascii_isalnum (byte c) = isalnum c \<and> bb_isspace (byte c) = isspace c
   \<and> bb_iscntrl (byte c) = iscntrl c \<and> bb_ispunct (byte c) = ispunct c \<and> bb_ascii_isxdigit (byte c) = isxdigit c
   \<and> isprint_asciionly (of_nat (code c)) = isprint c
   \<and> bb_ascii_tolower (byte c) = byte (if isupper c then char_of (code c + 32) else c)
   \<and> bb_ascii_toupper (byte c) = byte (if islower c then char_of (code c - 32) else c)"
  by (intro conjI) (rule ctype_simps bb_ascii_tolower_byte bb_ascii_toupper_byte)+

end
