(* ===== verification/Tr.thy ===== *)
theory Tr
  imports Escape Ctype Str_Array
begin

text \<open>
  The tr applet, \<^verbatim>\<open>coreutils/tr.c\<close> with character classes and equivalence classes.  An argument is a
  string (the code overwrites a place in it that it has already passed with the character an escape
  stands for); a buffer is the list of the characters written so far, next to its size, and a write past
  the size is the error \<open>Overrun\<close>.  The arrays indexed by an \<^verbatim>\<open>unsigned char\<close> are functions.  \<^verbatim>\<open>BUFSIZ\<close>
  of the C library is a parameter.  Each \<^verbatim>\<open>read\<close> returns some characters or fails; the end of the
  list of reads is the end of the input.
\<close>

section \<open>Operations\<close>

datatype tr_error = Usage | Overrun | Fatal string

definition ASCII :: nat where
  "ASCII = 256"

definition TR_BUFSIZ :: "nat \<Rightarrow> nat" where
  "TR_BUFSIZ bufsiz = (if bufsiz > ASCII * 2 then bufsiz else ASCII * 2)"

fun map_loop :: "(char \<Rightarrow> char) \<Rightarrow> string \<Rightarrow> string \<Rightarrow> char \<Rightarrow> (char \<Rightarrow> char)" where
  "map_loop pvector [] string2 last1 = pvector"
| "map_loop pvector (c # string1) [] last1 = map_loop (pvector(c := last1)) string1 [] last1"
| "map_loop pvector (c # string1) (d # string2) last1 = map_loop (pvector(c := d)) string1 string2 d"

definition tr_map :: "(char \<Rightarrow> char) \<Rightarrow> string \<Rightarrow> string \<Rightarrow> (char \<Rightarrow> char)" where
  "tr_map pvector string1 string2 = map_loop pvector string1 string2 (CHR ''0'')"

text \<open>The characters from \<open>a\<close> up to \<open>b\<close>, none when \<open>b\<close> is below \<open>a\<close>.\<close>

definition char_range :: "char \<Rightarrow> char \<Rightarrow> string" where
  "char_range a b = map char_of [code a..<Suc (code b)]"

definition classes :: "string list" where
  "classes = [''alpha:]'', ''alnum:]'', ''digit:]'', ''lower:]'', ''upper:]'', ''space:]'', ''blank:]'', ''punct:]'',
     ''cntrl:]'', ''xdigit:]'']"

definition class_chars :: "int \<Rightarrow> string" where
  "class_chars j =
     (if j = 2 \<or> j = 3 \<or> j = 10 then char_range (CHR ''0'') (CHR ''9'') else [])
   @ (if j = 1 \<or> j = 2 \<or> j = 5 then char_range (CHR ''A'') (CHR ''Z'') else [])
   @ (if j = 1 \<or> j = 2 \<or> j = 4 then char_range (CHR ''a'') (CHR ''z'') else [])
   @ (if j = 6 \<or> j = 7 then
        [CHR 0x09] @ (if j = 6 then [CHR 0x0A, CHR 0x0B, CHR 0x0C, CHR 0x0D] else []) @ [CHR '' '']
      else [])
   @ (if j = 8 \<or> j = 9 then
        filter (\<lambda>c. j = 8 \<and> isprint_asciionly (of_nat (code c)) \<and> \<not> bb_ascii_isalnum (byte c) \<and> \<not> bb_isspace (byte c)
                  \<or> j = 9 \<and> bb_iscntrl (byte c)) (map char_of [0..<ASCII])
      else [])
   @ (if j = 10 then
        char_range (CHR ''A'') (CHR ''F'') @ map (\<lambda>c. char_of (code c OR 0x20)) (char_range (CHR ''A'') (CHR ''F''))
      else [])"

text \<open>One turn of the loop of \<open>expand\<close>, after an escape at its start has been replaced by its character: the
  characters it appends and the rest of the argument, or \<open>None\<close> for \<open>bb_show_usage\<close>.\<close>

definition expand_piece :: "string \<Rightarrow> (string \<times> string) option" where
  "expand_piece arg =
     (if peek_at arg 1 = CHR ''-'' then
        (let ac = peek_at arg 2
         in if ac = NUL then Some ([peek arg], tl arg)
            else
              (let i = peek arg;
                   arg = drop 3 arg;
                   (ac, arg) = (if ac = CHR 0x5C then bb_process_escape_sequence arg else (ac, arg))
               in Some (char_range i ac, arg)))
      else if peek arg = CHR ''['' \<and> peek_at arg 1 = CHR '':'' then
        (let i = 7 + (if peek_at arg 2 = CHR ''x'' then 1 else 0);
             tmp = take i (drop 2 arg);
             j = index_in_strings classes tmp + 1
         in if j = 0 then Some ([peek arg], tl arg)
            else Some (class_chars j, drop i (drop 2 arg)))
      else if peek arg = CHR ''['' \<and> peek_at arg 1 = CHR ''='' then
        (if peek_at arg 2 = NUL \<or> peek_at arg 3 \<noteq> CHR ''='' \<or> peek_at arg 4 \<noteq> CHR '']'' then None
         else Some ([peek_at arg 2], drop 5 arg))
      else Some ([peek arg], tl arg))"

definition unescape_first :: "string \<Rightarrow> string" where
  "unescape_first arg =
     (if peek arg = CHR 0x5C then (case bb_process_escape_sequence (tl arg) of (ac, z) \<Rightarrow> ac # z) else arg)"

definition expand_step :: "string \<Rightarrow> (string \<times> string) option" where
  "expand_step arg = expand_piece (unescape_first arg)"

lemma expand_piece_less: "expand_piece arg = Some (chunk, rest) \<Longrightarrow> arg \<noteq> [] \<Longrightarrow> length rest < length arg"
  by (auto simp: expand_piece_def Let_def dest!: process_escape_le split: if_splits prod.splits) (cases arg; simp)+

lemma unescape_first_le: "arg \<noteq> [] \<Longrightarrow> unescape_first arg \<noteq> [] \<and> length (unescape_first arg) \<le> length arg"
  by (cases arg) (auto simp: unescape_first_def dest: process_escape_le split: prod.splits)

lemma expand_step_less: "expand_step arg = Some (chunk, rest) \<Longrightarrow> arg \<noteq> [] \<Longrightarrow> length rest < length arg"
  using unescape_first_le [of arg] expand_piece_less [of "unescape_first arg" chunk rest] by (auto simp: expand_step_def)

function expand_loop :: "string \<Rightarrow> string \<Rightarrow> nat \<Rightarrow> tr_error + string" where
  "expand_loop arg buffer size1 =
     (if arg = [] then Inr buffer
      else
        (let size1 = (if length buffer + ASCII > size1 then size1 + ASCII else size1)
         in case expand_step arg of
              None \<Rightarrow> Inl Usage
            | Some (chunk, arg) \<Rightarrow>
                if length buffer + length chunk > size1 then Inl Overrun
                else expand_loop arg (buffer @ chunk) size1))"
  by pat_completeness auto
termination
  by (relation "measure (\<lambda>(arg, buffer, size1). length arg)") (auto dest: expand_step_less)

declare expand_loop.simps [simp del]

definition expand :: "nat \<Rightarrow> string \<Rightarrow> tr_error + string" where
  "expand bufsiz arg = expand_loop arg [] (TR_BUFSIZ bufsiz)"

definition complement :: "string \<Rightarrow> string" where
  "complement buffer = filter (\<lambda>ch. ch \<notin> set buffer) (map char_of [0..<ASCII])"

definition TR_OPT_complement :: u8 where
  "TR_OPT_complement = shl 3 0"

definition TR_OPT_delete :: u8 where
  "TR_OPT_delete = shl 1 2"

definition TR_OPT_squeeze_reps :: u8 where
  "TR_OPT_squeeze_reps = shl 1 3"

text \<open>The characters of one read: \<open>last1\<close> is the last character written, 256 at the start.\<close>

fun tr_chars :: "u8 \<Rightarrow> (char \<Rightarrow> char) \<Rightarrow> (char \<Rightarrow> bool) \<Rightarrow> (char \<Rightarrow> bool) \<Rightarrow> string \<Rightarrow> nat \<Rightarrow> string \<Rightarrow> nat \<times> string" where
  "tr_chars opts vector invec outvec [] last1 out = (last1, out)"
| "tr_chars opts vector invec outvec (c # str1) last1 out =
     (if opts AND TR_OPT_delete \<noteq> 0 \<and> invec c then tr_chars opts vector invec outvec str1 last1 out
      else
        (let coded = vector c
         in if opts AND TR_OPT_squeeze_reps \<noteq> 0 \<and> last1 = code coded \<and> (invec c \<or> outvec coded)
            then tr_chars opts vector invec outvec str1 last1 out
            else tr_chars opts vector invec outvec str1 (code coded) (out @ [coded])))"

datatype tr_result = Exit_success string | Read_error string | Not_started tr_error

fun tr_loop :: "u8 \<Rightarrow> (char \<Rightarrow> char) \<Rightarrow> (char \<Rightarrow> bool) \<Rightarrow> (char \<Rightarrow> bool) \<Rightarrow> string option list \<Rightarrow> nat \<Rightarrow> string \<Rightarrow> tr_result" where
  "tr_loop opts vector invec outvec [] last1 written = Exit_success written"
| "tr_loop opts vector invec outvec (None # reads) last1 written = Read_error written"
| "tr_loop opts vector invec outvec (Some str1 # reads) last1 written =
     (if str1 = [] then Exit_success written
      else
        (case tr_chars opts vector invec outvec str1 last1 [] of
           (last1, out) \<Rightarrow> tr_loop opts vector invec outvec reads last1 (written @ out)))"

definition tr_run :: "u8 \<Rightarrow> (char \<Rightarrow> char) \<Rightarrow> string \<Rightarrow> string \<Rightarrow> string option list \<Rightarrow> tr_result" where
  "tr_run opts vector str1 str2 reads =
     tr_loop opts vector (\<lambda>c. c \<in> set str1) (\<lambda>c. c \<in> set str2) reads 256 []"

definition tr_main :: "nat \<Rightarrow> u8 \<Rightarrow> string list \<Rightarrow> string option list \<Rightarrow> tr_result" where
  "tr_main bufsiz opts argv reads =
     (case argv of
        [] \<Rightarrow> Not_started Usage
      | a1 # argv \<Rightarrow>
          (case expand bufsiz a1 of
             Inl e \<Rightarrow> Not_started e
           | Inr str1 \<Rightarrow>
               (let str1 = (if opts AND TR_OPT_complement \<noteq> 0 then complement str1 else str1)
                in case argv of
                     [] \<Rightarrow> tr_run opts id str1 [] reads
                   | a2 # _ \<Rightarrow>
                       (if a2 = [] then Not_started (Fatal ''STRING2 cannot be empty'')
                        else case expand bufsiz a2 of
                               Inl e \<Rightarrow> Not_started e
                             | Inr str2 \<Rightarrow> tr_run opts (tr_map id str1 str2) str1 str2 reads))))"

section \<open>Bounds\<close>

lemma char_range_length: "length (char_range a b) \<le> 256"
  using nat_of_char_less_256 [of b] by (simp add: char_range_def del: nat_of_char_less_256) linarith

lemma class_chars_length: "length (class_chars j) \<le> 256"
proof -
  have "length (filter P (map char_of [0..<ASCII])) \<le> 256" for P :: "char \<Rightarrow> bool"
    by (rule le_trans [OF length_filter_le]) (simp add: ASCII_def)
  then show ?thesis by (auto simp: class_chars_def char_range_def)
qed

lemma expand_step_length: "expand_step arg = Some (chunk, rest) \<Longrightarrow> length chunk \<le> ASCII"
  by (auto simp: expand_step_def expand_piece_def Let_def char_range_length class_chars_length ASCII_def split: if_splits prod.splits)

text \<open>Before every turn of the loop the position is within the buffer; the test at its head makes room for a turn.\<close>

lemma expand_loop_in_bounds:
  "length buffer \<le> size1 \<Longrightarrow> expand_loop arg buffer size1 \<noteq> Inl Overrun"
proof (induction arg buffer size1 rule: expand_loop.induct)
  case (1 arg buffer size1)
  show ?case
    using 1 by (subst expand_loop.simps)
      (auto simp: Let_def ASCII_def dest: expand_step_length split: option.splits)
qed

text \<open>The output of a read fits the output buffer, which is as large as the input buffer.\<close>

lemma tr_chars_length:
  "tr_chars opts vector invec outvec str1 l out = (l', out') \<Longrightarrow> length out' \<le> length out + length str1"
  by (induction str1 arbitrary: l out) (fastforce simp: Let_def split: if_splits)+

section \<open>Set descriptions\<close>

text \<open>Pieces of a set argument, how they are written and the characters they stand for.\<close>

datatype item = Octal_char char | Literal char | Octal_range char char | Range_item char char | Class nat | Equiv char

fun item_ok :: "item \<Rightarrow> bool" where
  "item_ok (Literal c) \<longleftrightarrow> c \<notin> {NUL, CHR 0x5C, CHR ''['', CHR ''-'', CHR '':'', CHR ''=''}"
| "item_ok (Range_item a b) \<longleftrightarrow> a \<notin> {NUL, CHR 0x5C, CHR ''-'', CHR '':'', CHR ''=''} \<and> b \<notin> {NUL, CHR 0x5C}"
| "item_ok (Class k) \<longleftrightarrow> k < 10"
| "item_ok (Equiv c) \<longleftrightarrow> c \<noteq> NUL"
| "item_ok _ \<longleftrightarrow> True"

fun show_item :: "item \<Rightarrow> string" where
  "show_item (Octal_char c) = CHR 0x5C # octal c"
| "show_item (Literal c) = [c]"
| "show_item (Octal_range a b) = CHR 0x5C # octal a @ CHR ''-'' # CHR 0x5C # octal b"
| "show_item (Range_item a b) = [a, CHR ''-'', b]"
| "show_item (Class k) = CHR ''['' # CHR '':'' # classes ! k"
| "show_item (Equiv c) = [CHR ''['', CHR ''='', c, CHR ''='', CHR '']'']"

definition class_pred :: "nat \<Rightarrow> char \<Rightarrow> bool" where
  "class_pred k = [isalpha, isalnum, isdigit, islower, isupper, isspace, \<lambda>c. c = CHR '' '' \<or> c = CHR 0x09, ispunct,
     iscntrl, isxdigit] ! k"

fun item_chars :: "item \<Rightarrow> string" where
  "item_chars (Octal_char c) = [c]"
| "item_chars (Literal c) = [c]"
| "item_chars (Octal_range a b) = char_range a b"
| "item_chars (Range_item a b) = char_range a b"
| "item_chars (Class k) = class_chars (int k + 1)"
| "item_chars (Equiv c) = [c]"

lemma char_eq_code: "c = d \<longleftrightarrow> code c = code d"
  by simp

lemma set_char_range: "c \<in> set (char_range a b) \<longleftrightarrow> code a \<le> code c \<and> code c \<le> code b"
proof
  assume "code a \<le> code c \<and> code c \<le> code b"
  then have "code c \<in> set [code a..<Suc (code b)]" unfolding set_upt by (simp add: le_imp_less_Suc del: atLeastLessThan_upt)
  then have "char_of (code c) \<in> set (char_range a b)" unfolding char_range_def set_map by (rule imageI)
  then show "c \<in> set (char_range a b)" by simp
next
  assume "c \<in> set (char_range a b)"
  then obtain n where "c = char_of n" "code a \<le> n" "n \<le> code b" by (auto simp: char_range_def)
  moreover from this have "n < 256" using nat_of_char_less_256 [of b] by linarith
  ultimately show "code a \<le> code c \<and> code c \<le> code b" by simp
qed

lemma isspace_chars: "isspace c \<longleftrightarrow> c \<in> {CHR 0x09, CHR 0x0A, CHR 0x0B, CHR 0x0C, CHR 0x0D, CHR '' ''}"
proof -
  have "isspace c \<longleftrightarrow> code c = 9 \<or> code c = 10 \<or> code c = 11 \<or> code c = 12 \<or> code c = 13 \<or> code c = 32"
    unfolding isspace_def by arith
  then show ?thesis unfolding insert_iff char_eq_code [of c] by simp
qed

lemma isprint_punct: "isprint c \<and> \<not> isalnum c \<and> \<not> isspace c \<longleftrightarrow> ispunct c"
  unfolding isprint_def ispunct_def ctype_defs by (rule iffI) auto

lemma set_all_chars: "set (map char_of [0..<ASCII]) = (UNIV :: char set)"
  by (auto simp: ASCII_def intro!: image_eqI [where x = "code _"])

lemma class_chars_pred:
  assumes "k < 10"
  shows "c \<in> set (class_chars (int k + 1)) \<longleftrightarrow> class_pred k c"
proof -
  have lower: "c \<in> set (map (\<lambda>c. char_of (code c OR 0x20)) (char_range (CHR ''A'') (CHR ''F'')))
      \<longleftrightarrow> 97 \<le> code c \<and> code c \<le> 102"
  proof -
    have "map (\<lambda>c. char_of (code c OR 0x20)) (char_range (CHR ''A'') (CHR ''F'')) = char_range (CHR ''a'') (CHR ''f'')"
      by (simp add: char_range_def upt_rec)
    then show ?thesis by (simp add: set_char_range)
  qed
  have "k = 0 \<or> k = 1 \<or> k = 2 \<or> k = 3 \<or> k = 4 \<or> k = 5 \<or> k = 6 \<or> k = 7 \<or> k = 8 \<or> k = 9" using assms by arith
  then show ?thesis
    unfolding class_chars_def ctype_simps isprint_punct
    by (elim disjE) (simp_all only: class_pred_def set_append Un_iff set_filter set_all_chars lower set_char_range split: if_split, 
      auto simp: isspace_chars isprint_punct ctype_simps isdigit_def isupper_def islower_def isalpha_def isalnum_def isxdigit_def)
qed

text \<open>What follows an item must not turn it into another one.\<close>

definition rest_ok :: "string \<Rightarrow> bool" where
  "rest_ok s \<longleftrightarrow> peek s \<notin> {CHR ''-'', CHR '':'', CHR ''=''}"

lemma rest_ok_items: "list_all item_ok is \<Longrightarrow> rest_ok (concat (map show_item is))"
proof (cases "is")
  case (Cons i is')
  assume "list_all item_ok is"
  then show ?thesis using Cons by (cases i) (auto simp: rest_ok_def)
qed (simp add: rest_ok_def)

lemma class_piece:
  assumes "k < 10"
  shows "expand_piece (CHR ''['' # CHR '':'' # classes ! k @ s) = Some (class_chars (int k + 1), s)"
proof -
  have "k = 0 \<or> k = 1 \<or> k = 2 \<or> k = 3 \<or> k = 4 \<or> k = 5 \<or> k = 6 \<or> k = 7 \<or> k = 8 \<or> k = 9" using assms by arith
  then show ?thesis
    by (elim disjE) (simp_all add: expand_piece_def classes_def peek_at_def)
qed

lemma unescape_octal [simp]: "unescape_first (CHR 0x5C # octal c @ s) = c # s"
  by (simp add: unescape_first_def octal_escape)

lemma unescape_other [simp]: "c \<noteq> CHR 0x5C \<Longrightarrow> unescape_first (c # s) = c # s"
  by (simp add: unescape_first_def)

lemma single_piece: "rest_ok s \<Longrightarrow> expand_piece (c # s) = Some ([c], s)"
  by (cases s) (simp_all add: expand_piece_def rest_ok_def)

lemma item_step:
  assumes "item_ok i" "rest_ok s"
  shows "expand_step (show_item i @ s) = Some (item_chars i, s)"
proof (cases i)
  case (Octal_range a b)
  then show ?thesis by (simp add: expand_step_def expand_piece_def octal_escape peek_at_def)
next
  case (Range_item a b)
  then show ?thesis using assms by (simp add: expand_step_def expand_piece_def peek_at_def)
next
  case (Equiv c)
  then show ?thesis using assms by (simp add: expand_step_def expand_piece_def peek_at_def)
qed (use assms in \<open>simp_all add: expand_step_def single_piece class_piece\<close>)

lemma show_item_not_Nil: "show_item i \<noteq> []"
  by (cases i) simp_all

lemma expand_loop_items:
  assumes "list_all item_ok is" "length buffer \<le> size1"
  shows "expand_loop (concat (map show_item is)) buffer size1 = Inr (buffer @ concat (map item_chars is))"
  using assms
proof (induction "is" arbitrary: buffer size1)
  case Nil
  then show ?case by (simp add: expand_loop.simps)
next
  case (Cons i "is")
  have st: "expand_step (show_item i @ concat (map show_item is)) = Some (item_chars i, concat (map show_item is))"
    using Cons.prems(1) by (intro item_step rest_ok_items) simp_all
  then have "length (item_chars i) \<le> ASCII" by (rule expand_step_length)
  then show ?case
    using st Cons.prems show_item_not_Nil [of i]
    by (subst expand_loop.simps) (auto simp: Let_def Cons.IH ASCII_def)
qed

lemma expand_items:
  "list_all item_ok is \<Longrightarrow> expand bufsiz (concat (map show_item is)) = Inr (concat (map item_chars is))"
  by (simp add: expand_def expand_loop_items)

section \<open>Translation, deletion, squeezing\<close>

text \<open>The reference: a character is translated to the one at its last position in the first set, the second
  set being extended with its last character; repetitions of a character of a set are dropped.\<close>

definition pad :: "nat \<Rightarrow> string \<Rightarrow> string" where
  "pad n s2 = s2 @ replicate n (if s2 = [] then CHR ''0'' else last s2)"

definition translate :: "string \<Rightarrow> string \<Rightarrow> char \<Rightarrow> char" where
  "translate s1 s2 c = (case map_of (rev (zip s1 (pad (length s1) s2))) c of Some d \<Rightarrow> d | None \<Rightarrow> c)"

fun squeeze :: "char set \<Rightarrow> char option \<Rightarrow> string \<Rightarrow> string" where
  "squeeze S prev [] = []"
| "squeeze S prev (c # cs) = (if prev = Some c \<and> c \<in> S then squeeze S prev cs else c # squeeze S (Some c) cs)"

definition tr_spec :: "u8 \<Rightarrow> string \<Rightarrow> string option \<Rightarrow> string \<Rightarrow> string" where
  "tr_spec opts s1 s2 input =
     (let kept = (if opts AND TR_OPT_delete \<noteq> 0 then filter (\<lambda>c. c \<notin> set s1) input else input);
          coded = (case s2 of None \<Rightarrow> kept | Some s2 \<Rightarrow> map (translate s1 s2) kept);
          S = (case s2 of None \<Rightarrow> set s1 | Some s2 \<Rightarrow> set s2)
      in if opts AND TR_OPT_squeeze_reps \<noteq> 0 then squeeze S None coded else coded)"

lemma map_loop_zip:
  "map_loop v s1 s2 l c
     = (case map_of (rev (zip s1 (s2 @ replicate (length s1) (if s2 = [] then l else last s2)))) c of Some d \<Rightarrow> d | None \<Rightarrow> v c)"
proof (induction v s1 s2 l arbitrary: c rule: map_loop.induct)
  case (3 v x s1 d s2 l)
  have "zip s1 (s2 @ replicate n e) = zip s1 (s2 @ replicate m e)" if "length s1 \<le> n" "length s1 \<le> m" for n m :: nat and e :: char
    using that by (intro nth_equalityI) (auto simp: nth_append)
  from this [of "Suc (length s1)" "length s1"] show ?case
    by (simp add: 3 map_add_def split: option.split)
qed (simp_all add: map_add_def split: option.split)

lemma tr_map_translate: "tr_map id s1 s2 = translate s1 s2"
  unfolding tr_map_def map_loop_zip translate_def pad_def id_def by (rule ext) (rule refl)

lemma translate_id: "c \<notin> set s1 \<Longrightarrow> translate s1 s2 c = c"
proof -
  assume "c \<notin> set s1"
  then have "c \<notin> fst ` set (rev (zip s1 (pad (length s1) s2)))" by (auto dest: set_zip_leftD)
  then have "map_of (rev (zip s1 (pad (length s1) s2))) c = None" by (simp add: map_of_eq_None_iff)
  then show ?thesis by (simp add: translate_def)
qed

lemma translate_in:
  assumes "c \<in> set s1" "s2 \<noteq> []"
  shows "translate s1 s2 c \<in> set s2"
proof -
  have "map fst (zip s1 (pad (length s1) s2)) = s1" by (simp add: pad_def map_fst_zip_take)
  then have "c \<in> fst ` set (zip s1 (pad (length s1) s2))" using assms(1) by (metis list.set_map)
  then obtain d where d: "map_of (rev (zip s1 (pad (length s1) s2))) c = Some d"
    by (metis map_of_eq_None_iff not_None_eq set_rev)
  then have "d \<in> set (pad (length s1) s2)" by (auto dest!: map_of_SomeD set_zip_rightD)
  then show ?thesis using d assms(2) by (auto simp: translate_def pad_def split: if_splits)
qed

text \<open>The reads do not matter, only what they return together.\<close>

lemma tr_chars_out:
  "tr_chars opts v iv ov s l (w @ out) = (fst (tr_chars opts v iv ov s l out), w @ snd (tr_chars opts v iv ov s l out))"
proof (induction s arbitrary: l out)
  case (Cons c s)
  then show ?case by (simp add: Let_def)
qed simp

lemma tr_chars_append:
  "tr_chars opts v iv ov (s @ t) l out = (case tr_chars opts v iv ov s l out of (l', out') \<Rightarrow> tr_chars opts v iv ov t l' out')"
  by (induction s arbitrary: l out) (simp_all add: Let_def)

lemma tr_loop_reads:
  assumes "[] \<notin> set chunks"
  shows "tr_loop opts v iv ov (map Some chunks @ end_reads) l w
    = (case tr_chars opts v iv ov (concat chunks) l w of (l', w') \<Rightarrow> tr_loop opts v iv ov end_reads l' w')"
  using assms
proof (induction chunks arbitrary: l w)
  case (Cons s chunks)
  then show ?case
    using tr_chars_out [of opts v iv ov s l w "[]"]
    by (cases "tr_chars opts v iv ov s l []") (auto simp: tr_chars_append)
qed simp

definition prev_code :: "char option \<Rightarrow> nat" where
  "prev_code p = (case p of None \<Rightarrow> 256 | Some c \<Rightarrow> code c)"

lemma prev_code_eq: "prev_code p = code c \<longleftrightarrow> p = Some c"
  using nat_of_char_less_256 [of c] by (cases p) (auto simp: prev_code_def simp del: nat_of_char_less_256)

lemma tr_chars_spec:
  assumes "\<And>c. opts AND TR_OPT_delete = 0 \<or> \<not> iv c \<Longrightarrow> (iv c \<or> ov (v c)) = (v c \<in> S)"
  shows "snd (tr_chars opts v iv ov s (prev_code p) out)
    = out @ (let coded = map v (filter (\<lambda>c. opts AND TR_OPT_delete = 0 \<or> \<not> iv c) s)
             in if opts AND TR_OPT_squeeze_reps = 0 then coded else squeeze S p coded)"
proof (induction s arbitrary: p out)
  case (Cons c s)
  have "prev_code (Some (v c)) = code (v c)" by (simp add: prev_code_def)
  note IH = Cons Cons [of "Some (v c)", unfolded this]
  show ?case
  proof (cases "opts AND TR_OPT_delete = 0 \<or> \<not> iv c")
    case True
    then show ?thesis using assms [OF True] by (auto simp: Let_def prev_code_eq IH)
  next
    case False
    then show ?thesis by (simp add: IH)
  qed
qed simp

lemma tr_run_spec:
  assumes "[] \<notin> set chunks" "case s2 of None \<Rightarrow> v = id | Some s2 \<Rightarrow> v = translate s1 s2 \<and> s2 \<noteq> []"
  shows "tr_run opts v s1 (case s2 of None \<Rightarrow> [] | Some s2 \<Rightarrow> s2) (map Some chunks)
    = Exit_success (tr_spec opts s1 s2 (concat chunks))"
proof -
  let ?t = "case s2 of None \<Rightarrow> [] | Some s2 \<Rightarrow> s2"
  let ?S = "case s2 of None \<Rightarrow> set s1 | Some s2 \<Rightarrow> set s2"
  have S: "(c \<in> set s1 \<or> v c \<in> set ?t) = (v c \<in> ?S)" if "opts AND TR_OPT_delete = 0 \<or> c \<notin> set s1" for c
    using assms(2) translate_in [of c s1] by (cases s2) auto
  have "tr_run opts v s1 ?t (map Some chunks)
      = Exit_success (snd (tr_chars opts v (\<lambda>c. c \<in> set s1) (\<lambda>c. c \<in> set ?t) (concat chunks) (prev_code None) []))"
    using tr_loop_reads [OF assms(1), of opts v _ _ "[]"] by (simp add: tr_run_def prev_code_def split: prod.split)
  also have "\<dots> = Exit_success (tr_spec opts s1 s2 (concat chunks))"
    using assms(2) by (subst tr_chars_spec [where S = ?S and v = v and iv = "\<lambda>c. c \<in> set s1" and ov = "\<lambda>c. c \<in> set ?t" and opts = opts, OF S])
      (auto simp: tr_spec_def Let_def split: option.splits)
  finally show ?thesis .
qed

lemma tr_main_two:
  assumes "expand bufsiz a1 = Inr e1" "expand bufsiz a2 = Inr e2" "a2 \<noteq> []" "e2 \<noteq> []" "[] \<notin> set chunks"
  shows "tr_main bufsiz opts [a1, a2] (map Some chunks)
    = Exit_success (tr_spec opts (if opts AND TR_OPT_complement \<noteq> 0 then complement e1 else e1) (Some e2) (concat chunks))"
  using tr_run_spec [OF assms(5), where ?s2.0 = "Some e2"] assms(1-4) by (simp add: tr_main_def tr_map_translate Let_def)

section \<open>Properties\<close>

text \<open>\<open>expand\<close> comes to an end on every argument and never writes past its buffer, which it enlarges by 256
  bytes when fewer are left.\<close>

theorem expand_in_bounds: "expand bufsiz arg \<noteq> Inl Overrun"
  unfolding expand_def by (rule expand_loop_in_bounds) simp



text \<open>A second set that is not empty but stands for no character translates everything to the digit 0.\<close>

lemma tr_empty_range: "tr_main 8192 0 [''a'', ''z-y''] [Some ''banana''] = Exit_success ''b0n0n0''"
  by (simp add: tr_main_def expand_def expand_loop.simps expand_step_def unescape_first_def expand_piece_def peek_at_def
      char_range_def TR_BUFSIZ_def ASCII_def tr_run_def tr_map_def Let_def)

end
