(* ===== verification/File_Mode.thy ===== *)
theory File_Mode
  imports Strtonum
begin

text \<open>
  File modes as text: \<^verbatim>\<open>libbb/parse_mode.c\<close> (the argument of chmod, mkdir -m and others) and
  \<^verbatim>\<open>libbb/mode_string.c\<close> (the first column of ls -l), for the permission bits of Linux.  A mode
  that is refused is \<open>None\<close> (the code returns -1); the umask of the process is an argument.
\<close>

section \<open>Operations\<close>

definition FILEMODEBITS :: u32 where
  "FILEMODEBITS = 0x800 OR 0x400 OR 0x200 OR 0x1C0 OR 0x38 OR 0x7"

definition who_mask :: "(char \<times> u32) list" where
  "who_mask =
    [(CHR ''a'', 0x800 OR 0x400 OR 0x200 OR 0x1C0 OR 0x38 OR 0x7),
     (CHR ''u'', 0x800 OR 0x1C0),
     (CHR ''g'', 0x400 OR 0x38),
     (CHR ''o'', 0x7)]"

definition perm_mask :: "(char \<times> u32) list" where
  "perm_mask =
    [(CHR ''r'', 0x100 OR 0x20 OR 0x4),
     (CHR ''w'', 0x80 OR 0x10 OR 0x2),
     (CHR ''x'', 0x40 OR 0x8 OR 0x1),
     (CHR ''X'', 0x40 OR 0x8 OR 0x1),
     (CHR ''s'', 0x800 OR 0x400),
     (CHR ''t'', 0x200)]"

fun parse_wholist :: "string \<Rightarrow> u32 \<Rightarrow> (string \<times> u32) option" where
  "parse_wholist [] wholist = Some ([], wholist)"
| "parse_wholist (c # s) wholist =
     (case map_of who_mask c of
        Some m \<Rightarrow> if s = [] then None else parse_wholist s (wholist OR m)
      | None \<Rightarrow> Some (c # s, wholist))"

fun parse_permlist :: "string \<Rightarrow> u32 \<Rightarrow> u32 \<Rightarrow> string \<times> u32" where
  "parse_permlist [] new_mode permlist = ([], permlist)"
| "parse_permlist (c # s) new_mode permlist =
     (case map_of perm_mask c of
        Some m \<Rightarrow>
          parse_permlist s new_mode
            (if c \<noteq> CHR ''X'' \<or> new_mode AND (0x4000 OR 0x40 OR 0x8 OR 0x1) \<noteq> 0 then permlist OR m else permlist)
      | None \<Rightarrow> (c # s, permlist))"

definition spread :: "u32 \<Rightarrow> u32 \<Rightarrow> u32" where
  "spread permlist m = (if permlist AND m \<noteq> 0 then permlist OR m else permlist)"

definition parse_permcopy :: "string \<Rightarrow> u32 \<Rightarrow> (string \<times> u32) option" where
  "parse_permcopy s new_mode =
     (case map_of (tl who_mask) (peek s) of
        Some m \<Rightarrow>
          (let permlist = m AND (0x1C0 OR 0x38 OR 0x7) AND new_mode
           in Some (tl s, foldl spread permlist (map snd (take 3 perm_mask))))
      | None \<Rightarrow> None)"

definition apply_action :: "char \<Rightarrow> u32 \<Rightarrow> u32 \<Rightarrow> u32 \<Rightarrow> u32 \<Rightarrow> u32" where
  "apply_action op u_mask wholist permlist new_mode =
     (if permlist \<noteq> 0 then
        (let tmp = (if wholist = 0 then NOT u_mask else wholist);
             permlist = permlist AND tmp
         in if op = CHR ''-'' then new_mode AND NOT permlist else new_mode OR permlist)
      else new_mode)"

definition parse_action :: "u32 \<Rightarrow> u32 \<Rightarrow> string \<Rightarrow> u32 \<Rightarrow> (string \<times> u32) option" where
  "parse_action u_mask wholist s new_mode =
     (let op = peek s
      in if op \<noteq> CHR ''+'' \<and> op \<noteq> CHR ''-'' \<and> op \<noteq> CHR ''='' then None
         else
           (let new_mode =
                  (if op = CHR ''='' then new_mode AND (if wholist \<noteq> 0 then NOT wholist else NOT FILEMODEBITS)
                   else new_mode);
                s = tl s;
                (s, permlist) = (case parse_permcopy s new_mode of
                                   Some r \<Rightarrow> r
                                 | None \<Rightarrow> parse_permlist s new_mode 0)
            in Some (s, apply_action op u_mask wholist permlist new_mode)))"

lemma parse_permlist_le: "parse_permlist s n p = (s', p') \<Longrightarrow> length s' \<le> length s"
  by (induction s arbitrary: p) (auto split: option.splits intro: le_SucI)

lemma parse_wholist_le: "parse_wholist s w = Some (s', w') \<Longrightarrow> length s' \<le> length s"
  by (induction s arbitrary: w) (auto split: option.splits if_splits intro: le_SucI)

lemma parse_action_less: "parse_action u w s n = Some (s', n') \<Longrightarrow> length s' < length s"
proof -
  assume a: "parse_action u w s n = Some (s', n')"
  then have "s \<noteq> []" by (auto simp: parse_action_def)
  moreover have "length s' \<le> length (tl s)"
    using a by (auto simp: parse_action_def parse_permcopy_def Let_def dest: parse_permlist_le
        split: if_splits option.splits prod.splits)
  ultimately show ?thesis by (cases s) auto
qed

function parse_actions :: "u32 \<Rightarrow> u32 \<Rightarrow> string \<Rightarrow> u32 \<Rightarrow> (string \<times> u32) option" where
  "parse_actions u_mask wholist s new_mode =
     (case parse_action u_mask wholist s new_mode of
        None \<Rightarrow> None
      | Some (s, new_mode) \<Rightarrow>
          if s \<noteq> [] \<and> peek s \<noteq> CHR '','' then parse_actions u_mask wholist s new_mode else Some (s, new_mode))"
  by pat_completeness auto
termination by (relation "measure (\<lambda>(u, w, s, n). length s)") (auto dest: parse_action_less)

declare parse_actions.simps [simp del]

lemma parse_actions_less: "parse_actions u w s n = Some (s', n') \<Longrightarrow> length s' < length s"
proof (induction u w s n rule: parse_actions.induct)
  case (1 u w s n)
  then show ?case
    by (subst (asm) (2) parse_actions.simps)
      (fastforce split: option.splits if_splits dest!: parse_action_less)
qed

function parse_clauses :: "u32 \<Rightarrow> string \<Rightarrow> u32 \<Rightarrow> u32 option" where
  "parse_clauses u_mask s new_mode =
     (if s = [] then Some new_mode
      else if peek s = CHR '','' then parse_clauses u_mask (tl s) new_mode
      else
        (case parse_wholist s 0 of
           None \<Rightarrow> None
         | Some (s', wholist) \<Rightarrow>
             (case parse_actions u_mask wholist s' new_mode of
                None \<Rightarrow> None
              | Some (s'', new_mode) \<Rightarrow> parse_clauses u_mask s'' new_mode)))"
  by pat_completeness auto
termination
  by (relation "measure (\<lambda>(u, s, n). length s)")
    (auto dest!: parse_actions_less parse_wholist_le intro: less_le_trans)

declare parse_clauses.simps [simp del]

definition bb_parse_mode :: "u32 \<Rightarrow> string \<Rightarrow> u32 \<Rightarrow> u32 option" where
  "bb_parse_mode u_mask s current_mode =
     (if (of_nat (code (peek s)) - 48 :: u8) < 8 then
        (case strtoull s 8 of
           (tmp, e, _) \<Rightarrow> if peek e \<noteq> NUL \<or> tmp > 0xFFF then None else Some (ucast tmp))
      else parse_clauses u_mask s current_mode)"

definition type_chars :: string where
  "type_chars = ''?pc?d?b?-?l?s???''"

definition mode_chars :: string where
  "mode_chars = ''rwxSTst''"

text \<open>The inner loop of \<open>bb_mode_string\<close>: the characters and the last index that was set.\<close>

definition mode_rwx :: "u32 \<Rightarrow> u32 \<Rightarrow> string \<times> nat" where
  "mode_rwx mode m =
     (let step = (\<lambda>(buf, k) j. if mode AND shr m j \<noteq> 0 then (buf @ [mode_chars ! j], j) else (buf @ ''-'', k))
      in step (step (step ([], 0) 0) 1) 2)"

definition mode_group :: "u32 \<Rightarrow> u32 \<Rightarrow> nat \<Rightarrow> string" where
  "mode_group mode m i =
     (case mode_rwx mode m of
        (buf, k) \<Rightarrow>
          if mode AND shr 0x1000 i \<noteq> 0
          then butlast buf @ [mode_chars ! (3 + (k AND 2) + (if i = 3 then 1 else 0))]
          else buf)"

definition bb_mode_string :: "u32 \<Rightarrow> string" where
  "bb_mode_string mode =
     type_chars ! unat (shr mode 12 AND 0xf)
     # mode_group mode 0x100 1 @ mode_group mode (shr 0x100 3) 2 @ mode_group mode (shr 0x100 6) 3"

section \<open>Modes as sets of permissions\<close>

datatype cls = User | Group | Other
datatype perm = R cls | W cls | X cls | Suid | Sgid | Sticky

fun cls_bit :: "cls \<Rightarrow> nat" where
  "cls_bit User = 6"
| "cls_bit Group = 3"
| "cls_bit Other = 0"

fun pbit :: "perm \<Rightarrow> nat" where
  "pbit (R c) = cls_bit c + 2"
| "pbit (W c) = cls_bit c + 1"
| "pbit (X c) = cls_bit c"
| "pbit Suid = 11"
| "pbit Sgid = 10"
| "pbit Sticky = 9"

definition perms :: "u32 \<Rightarrow> perm set" where
  "perms m = {p. bit m (pbit p)}"

text \<open>A mask that has permission bits only, and the rest of a mode: its file type.\<close>

definition perm_bits :: u32 where
  "perm_bits = mask 12"

definition only_perms :: "u32 \<Rightarrow> bool" where
  "only_perms m \<longleftrightarrow> m AND NOT perm_bits = 0"

definition file_type :: "u32 \<Rightarrow> u32" where
  "file_type m = m AND NOT perm_bits"

lemma pbit_less: "pbit p < 12"
proof (cases p)
  case (R c) then show ?thesis by (cases c) simp_all
next
  case (W c) then show ?thesis by (cases c) simp_all
next
  case (X c) then show ?thesis by (cases c) simp_all
qed simp_all

lemma pbit_surj: "n < 12 \<Longrightarrow> \<exists>p. pbit p = n"
proof -
  assume "n < 12"
  then have "n = pbit (X Other) \<or> n = pbit (W Other) \<or> n = pbit (R Other) \<or> n = pbit (X Group) \<or> n = pbit (W Group)
    \<or> n = pbit (R Group) \<or> n = pbit (X User) \<or> n = pbit (W User) \<or> n = pbit (R User) \<or> n = pbit Sticky
    \<or> n = pbit Sgid \<or> n = pbit Suid" by simp arith
  then show ?thesis by metis
qed

lemma bit_perm_bits: "bit perm_bits n \<longleftrightarrow> n < 12"
  unfolding perm_bits_def bit_mask_iff by auto

lemma perms_OR [simp]: "perms (a OR b) = perms a \<union> perms b"
  and perms_AND [simp]: "perms (a AND b) = perms a \<inter> perms b"
  and perms_NOT [simp]: "perms (NOT a) = - perms a"
  and perms_0 [simp]: "perms 0 = {}"
  using less_trans [OF pbit_less] by (auto simp: perms_def bit_or_iff bit_and_iff bit_not_iff)

lemma only_perms_bit: "only_perms m \<longleftrightarrow> (\<forall>n. bit m n \<longrightarrow> n < 12)"
proof -
  have "only_perms m \<longleftrightarrow> (\<forall>n. \<not> (bit m n \<and> \<not> n < 12))"
    unfolding only_perms_def
    using bit_imp_le_length [of m]
    by (fastforce simp: bit_eq_iff bit_and_iff bit_not_iff bit_perm_bits)
  then show ?thesis by blast
qed

lemma perms_empty: "only_perms m \<Longrightarrow> m = 0 \<longleftrightarrow> perms m = {}"
proof
  assume m: "only_perms m" "perms m = {}"
  then have "\<not> bit m n" for n using pbit_surj [of n] by (auto simp: only_perms_bit perms_def)
  then show "m = 0" by (intro bit_word_eqI) simp
qed simp

lemma only_perms_AND [intro]: "only_perms a \<Longrightarrow> only_perms (a AND b)" "only_perms b \<Longrightarrow> only_perms (a AND b)"
  and only_perms_OR [intro]: "only_perms a \<Longrightarrow> only_perms b \<Longrightarrow> only_perms (a OR b)"
  by (auto simp: only_perms_bit bit_and_iff bit_or_iff)

lemma file_type_AND_NOT [simp]: "only_perms p \<Longrightarrow> file_type (m AND NOT p) = file_type m"
  and file_type_OR [simp]: "only_perms p \<Longrightarrow> file_type (m OR p) = file_type m"
  by (auto simp: only_perms_bit file_type_def bit_eq_iff bit_and_iff bit_or_iff bit_not_iff bit_perm_bits)

lemma mode_eqI: "perms a = perms b \<Longrightarrow> file_type a = file_type b \<Longrightarrow> a = b"
proof (rule bit_word_eqI)
  fix n
  assume p: "perms a = perms b" and f: "file_type a = file_type b" and n: "n < LENGTH(32)"
  show "bit a n = bit b n"
  proof (cases "n < 12")
    case True
    then obtain q where "pbit q = n" using pbit_surj by blast
    then show ?thesis using p by (auto simp: perms_def)
  next
    case False
    have "bit (file_type a) n = bit (file_type b) n" using f by simp
    then show ?thesis using False n by (simp add: file_type_def bit_and_iff bit_not_iff bit_perm_bits)
  qed
qed

section \<open>Symbolic modes\<close>

text \<open>The meaning of the letters, and of a clause, on sets of permissions.\<close>

definition scope :: "char \<Rightarrow> perm set" where
  "scope c = (if c = CHR ''a'' then UNIV
     else if c = CHR ''u'' then {R User, W User, X User, Suid}
     else if c = CHR ''g'' then {R Group, W Group, X Group, Sgid}
     else {R Other, W Other, X Other})"

definition letter :: "bool \<Rightarrow> char \<Rightarrow> perm set" where
  "letter ex c = (if c = CHR ''r'' then range R
     else if c = CHR ''w'' then range W
     else if c = CHR ''x'' \<or> c = CHR ''X'' \<and> ex then range X
     else if c = CHR ''s'' then {Suid, Sgid}
     else if c = CHR ''t'' then {Sticky} else {})"

datatype what = Copy cls | Letters string

fun granted :: "bool \<Rightarrow> perm set \<Rightarrow> what \<Rightarrow> perm set" where
  "granted dir P (Letters ls) = (\<Union>l \<in> set ls. letter (dir \<or> (\<exists>c. X c \<in> P)) l)"
| "granted dir P (Copy c) = {p. \<exists>d. p = R d \<and> R c \<in> P \<or> p = W d \<and> W c \<in> P \<or> p = X d \<and> X c \<in> P}"

definition who_scope :: "string \<Rightarrow> perm set" where
  "who_scope ws = (\<Union>w \<in> set ws. scope w)"

fun do_action :: "bool \<Rightarrow> perm set \<Rightarrow> string \<Rightarrow> perm set \<Rightarrow> char \<times> what \<Rightarrow> perm set" where
  "do_action dir um ws P (op, what) =
     (let P = (if op = CHR ''='' then P - (if ws = [] then UNIV else who_scope ws) else P);
          g = granted dir P what \<inter> (if ws = [] then - um else who_scope ws)
      in if op = CHR ''-'' then P - g else P \<union> g)"

fun do_clause :: "bool \<Rightarrow> perm set \<Rightarrow> perm set \<Rightarrow> string \<times> (char \<times> what) list \<Rightarrow> perm set" where
  "do_clause dir um P (ws, acts) = foldl (do_action dir um ws) P acts"

text \<open>How a clause is written.\<close>

fun cls_char :: "cls \<Rightarrow> char" where
  "cls_char User = CHR ''u''"
| "cls_char Group = CHR ''g''"
| "cls_char Other = CHR ''o''"

fun show_what :: "what \<Rightarrow> string" where
  "show_what (Copy c) = [cls_char c]"
| "show_what (Letters ls) = ls"

fun show_action :: "char \<times> what \<Rightarrow> string" where
  "show_action (op, what) = op # show_what what"

fun show_clause :: "string \<times> (char \<times> what) list \<Rightarrow> string" where
  "show_clause (ws, acts) = ws @ concat (map show_action acts)"

fun show_mode :: "(string \<times> (char \<times> what) list) list \<Rightarrow> string" where
  "show_mode [] = []"
| "show_mode (cl # cls) = show_clause cl @ (if cls = [] then [] else CHR '','' # show_mode cls)"

fun action_ok :: "char \<times> what \<Rightarrow> bool" where
  "action_ok (op, what) \<longleftrightarrow> op \<in> set ''+-='' \<and> (\<forall>ls. what = Letters ls \<longrightarrow> set ls \<subseteq> set ''rwxXst'')"

fun clause_ok :: "string \<times> (char \<times> what) list \<Rightarrow> bool" where
  "clause_ok (ws, acts) \<longleftrightarrow> set ws \<subseteq> set ''augo'' \<and> acts \<noteq> [] \<and> list_all action_ok acts"

text \<open>The tables.\<close>

lemma cls_ex: "(\<exists>c. Q c) \<longleftrightarrow> Q User \<or> Q Group \<or> Q Other"
  by (metis cls.exhaust)

lemma perm_all: "(\<forall>p. Q p) \<longleftrightarrow> Q (R User) \<and> Q (R Group) \<and> Q (R Other) \<and> Q (W User) \<and> Q (W Group) \<and> Q (W Other)
  \<and> Q (X User) \<and> Q (X Group) \<and> Q (X Other) \<and> Q Suid \<and> Q Sgid \<and> Q Sticky"
proof
  assume q: "Q (R User) \<and> Q (R Group) \<and> Q (R Other) \<and> Q (W User) \<and> Q (W Group) \<and> Q (W Other)
    \<and> Q (X User) \<and> Q (X Group) \<and> Q (X Other) \<and> Q Suid \<and> Q Sgid \<and> Q Sticky"
  have "Q (R c) \<and> Q (W c) \<and> Q (X c)" for c using q by (cases c) simp_all
  then have "Q p" for p using q by (cases p) simp_all
  then show "\<forall>p. Q p" by blast
qed simp

lemma who_maskD:
  assumes "map_of who_mask c = Some m"
  shows "perms m = scope c" "only_perms m"
proof -
  have c: "c = CHR ''a'' \<and> m = 0x800 OR 0x400 OR 0x200 OR 0x1C0 OR 0x38 OR 0x7 \<or> c = CHR ''u'' \<and> m = 0x800 OR 0x1C0
    \<or> c = CHR ''g'' \<and> m = 0x400 OR 0x38 \<or> c = CHR ''o'' \<and> m = 0x7"
    using assms by (auto simp: who_mask_def split: if_splits)
  then show "perms m = scope c"
    unfolding set_eq_iff perm_all by (elim disjE) (simp_all add: perms_def scope_def)
  show "only_perms m" using c unfolding only_perms_def perm_bits_def by (elim disjE) (simp_all add: mask_eq_exp_minus_1)
qed

lemma perm_maskD:
  assumes "map_of perm_mask c = Some m"
  shows "perms m = letter True c" "only_perms m"
proof -
  have c: "c = CHR ''r'' \<and> m = 0x100 OR 0x20 OR 0x4 \<or> c = CHR ''w'' \<and> m = 0x80 OR 0x10 OR 0x2
    \<or> (c = CHR ''x'' \<or> c = CHR ''X'') \<and> m = 0x40 OR 0x8 OR 0x1 \<or> c = CHR ''s'' \<and> m = 0x800 OR 0x400
    \<or> c = CHR ''t'' \<and> m = 0x200"
    using assms by (auto simp: perm_mask_def split: if_splits)
  then show "perms m = letter True c"
    unfolding set_eq_iff perm_all by (elim disjE conjE) (simp_all add: perms_def letter_def image_iff)
  show "only_perms m" using c unfolding only_perms_def perm_bits_def by (elim disjE conjE) (simp_all add: mask_eq_exp_minus_1)
qed

lemma map_of_who: "c \<in> set ''augo'' \<longleftrightarrow> (\<exists>m. map_of who_mask c = Some m)"
  and map_of_perm: "c \<in> set ''rwxXst'' \<longleftrightarrow> (\<exists>m. map_of perm_mask c = Some m)"
  by (auto simp: who_mask_def perm_mask_def)

text \<open>The parts of a clause.\<close>

lemma parse_wholist_show:
  assumes "set ws \<subseteq> set ''augo''" "t \<noteq> []" "peek t \<notin> set ''augo''" "only_perms w"
  shows "\<exists>w'. parse_wholist (ws @ t) w = Some (t, w') \<and> perms w' = perms w \<union> who_scope ws \<and> only_perms w'"
  using assms
proof (induction ws arbitrary: w)
  case Nil
  then have "map_of who_mask (peek t) = None" using map_of_who [of "peek t"] by simp
  then show ?case using Nil by (cases t) (simp_all add: who_scope_def)
next
  case (Cons c ws)
  then obtain m where m: "map_of who_mask c = Some m" using map_of_who [of c] by auto
  have "only_perms (w OR m)" using Cons.prems(4) who_maskD(2) [OF m] by blast
  from Cons.IH [OF _ Cons.prems(2,3) this] Cons.prems(1) show ?case
    using m Cons.prems(2) who_maskD(1) [OF m] by (auto simp: who_scope_def)
qed

definition exec_or_dir :: "u32 \<Rightarrow> bool" where
  "exec_or_dir n \<longleftrightarrow> bit n 14 \<or> (\<exists>c. X c \<in> perms n)"

lemma exec_test: "n AND (0x4000 OR 0x40 OR 0x8 OR 0x1) \<noteq> 0 \<longleftrightarrow> exec_or_dir n"
proof -
  have "n AND (0x4000 OR 0x40 OR 0x8 OR 0x1) = 0
      \<longleftrightarrow> n AND 2 ^ 14 = 0 \<and> n AND 2 ^ 6 = 0 \<and> n AND 2 ^ 3 = 0 \<and> n AND 2 ^ 0 = 0"
    unfolding bit.conj_disj_distrib or_eq_0_iff by simp
  also have "\<dots> \<longleftrightarrow> \<not> bit n 14 \<and> \<not> bit n 6 \<and> \<not> bit n 3 \<and> \<not> bit n 0"
    unfolding and_exp_eq_0_iff_not_bit ..
  also have "\<dots> \<longleftrightarrow> \<not> exec_or_dir n"
    unfolding exec_or_dir_def cls_ex by (simp add: perms_def)
  finally show ?thesis by blast
qed

lemma letter_perms:
  "map_of perm_mask c = Some m \<Longrightarrow> (if c \<noteq> CHR ''X'' \<or> ex then perms m else {}) = letter ex c"
  by (auto simp: perm_maskD(1) letter_def)

lemma parse_permlist_show:
  assumes "set ls \<subseteq> set ''rwxXst''" "t = [] \<or> peek t \<notin> set ''rwxXst''" "only_perms p"
  shows "\<exists>p'. parse_permlist (ls @ t) n p = (t, p') \<and> perms p' = perms p \<union> (\<Union>l \<in> set ls. letter (exec_or_dir n) l)
    \<and> only_perms p'"
  using assms
proof (induction ls arbitrary: p)
  case Nil
  then have "t \<noteq> [] \<Longrightarrow> map_of perm_mask (peek t) = None" using map_of_perm [of "peek t"] by auto
  then show ?case using Nil by (cases t) simp_all
next
  case (Cons c ls)
  then obtain m where m: "map_of perm_mask c = Some m" using map_of_perm [of c] by auto
  let ?p = "if c \<noteq> CHR ''X'' \<or> exec_or_dir n then p OR m else p"
  have "only_perms ?p" using Cons.prems(3) perm_maskD(2) [OF m] by auto
  moreover have "perms ?p = perms p \<union> letter (exec_or_dir n) c" unfolding letter_perms [OF m, symmetric] by auto
  moreover have "parse_permlist ((c # ls) @ t) n p = parse_permlist (ls @ t) n ?p"
    unfolding append_Cons parse_permlist.simps m option.case exec_test by simp
  ultimately show ?case using Cons.IH [OF _ Cons.prems(2)] Cons.prems(1) by fastforce
qed

lemma spread_perms: "only_perms m \<Longrightarrow> perms (spread p m) = (if perms p \<inter> perms m = {} then perms p else perms p \<union> perms m)"
  and spread_only: "only_perms p \<Longrightarrow> only_perms m \<Longrightarrow> only_perms (spread p m)"
  using perms_empty [of "p AND m"] by (auto simp: spread_def)

text \<open>Copying the permissions of a class to all of them.\<close>

lemma parse_permcopy_show:
  "\<exists>p. parse_permcopy (cls_char c # t) n = Some (t, p) \<and> perms p = granted dir (perms n) (Copy c) \<and> only_perms p"
proof -
  obtain m where m: "map_of (tl who_mask) (cls_char c) = Some m" "map_of who_mask (cls_char c) = Some m"
    by (cases c) (simp_all add: who_mask_def)
  define p0 where "p0 = m AND (0x1C0 OR 0x38 OR 0x7) AND n"
  have o: "only_perms p0" using who_maskD(2) [OF m(2)] by (auto simp: p0_def)
  have R: "map_of perm_mask (CHR ''r'') = Some (0x100 OR 0x20 OR 0x4)" and W: "map_of perm_mask (CHR ''w'') = Some (0x80 OR 0x10 OR 0x2)"
    and X: "map_of perm_mask (CHR ''x'') = Some (0x40 OR 0x8 OR 0x1)" by (simp_all add: perm_mask_def)
  note os = perm_maskD(2) [OF R] perm_maskD(2) [OF W] perm_maskD(2) [OF X]
  have rwx: "perms (0x1C0 OR 0x38 OR 0x7) = range R \<union> range W \<union> range X"
    unfolding set_eq_iff perm_all by (simp add: perms_def image_iff)
  have sc: "scope (cls_char c) \<inter> (range R \<union> range W \<union> range X) = {R c, W c, X c}"
    by (cases c) (auto simp: scope_def)
  have p0: "perms p0 = {R c, W c, X c} \<inter> perms n"
    by (simp only: p0_def perms_AND who_maskD(1) [OF m(2)] rwx Int_assoc [symmetric] sc)
  let ?p = "spread (spread (spread p0 (0x100 OR 0x20 OR 0x4)) (0x80 OR 0x10 OR 0x2)) (0x40 OR 0x8 OR 0x1)"
  let ?all = "\<lambda>C. if C c \<in> perms n then range C else ({} :: perm set)"
  have p1: "perms (spread p0 (0x100 OR 0x20 OR 0x4)) = perms p0 \<union> ?all R"
    unfolding spread_perms [OF os(1)] perm_maskD(1) [OF R] p0 letter_def by auto
  have p2: "perms (spread (spread p0 (0x100 OR 0x20 OR 0x4)) (0x80 OR 0x10 OR 0x2)) = perms p0 \<union> ?all R \<union> ?all W"
    unfolding spread_perms [OF os(2)] perm_maskD(1) [OF W] p1 p0 letter_def by auto
  have "perms ?p = perms p0 \<union> ?all R \<union> ?all W \<union> ?all X"
    unfolding spread_perms [OF os(3)] perm_maskD(1) [OF X] p2 p0 letter_def by auto
  then have "perms ?p = granted dir (perms n) (Copy c)" unfolding p0 by auto
  moreover have "only_perms ?p" using o os by (intro spread_only)
  moreover have "parse_permcopy (cls_char c # t) n = Some (t, ?p)"
    using m(1) by (simp add: parse_permcopy_def p0_def Let_def perm_mask_def)
  ultimately show ?thesis by blast
qed

text \<open>What an action writes after its operator.\<close>

lemma parse_what_show:
  assumes "action_ok (op, what)" "t = [] \<or> peek t \<in> set ''+-=,''"
  shows "\<exists>p. (case parse_permcopy (show_what what @ t) n of Some r \<Rightarrow> r | None \<Rightarrow> parse_permlist (show_what what @ t) n 0) = (t, p)
    \<and> perms p = granted (bit n 14) (perms n) what \<and> only_perms p"
proof (cases what)
  case (Copy c)
  then show ?thesis using parse_permcopy_show [of c t n "bit n 14"] by auto
next
  case (Letters ls)
  then have ls: "set ls \<subseteq> set ''rwxXst''" using assms(1) by simp
  have "peek (ls @ t) \<in> set ''rwxXst'' \<union> set ''+-=,'' \<union> {NUL}" using ls assms(2) by (cases ls) auto
  then have "parse_permcopy (ls @ t) n = None" by (auto simp: parse_permcopy_def who_mask_def)
  moreover have "only_perms 0" by (simp add: only_perms_def)
  moreover have "t = [] \<or> peek t \<notin> set ''rwxXst''" using assms(2) by auto
  ultimately show ?thesis
    using parse_permlist_show [OF ls, of t 0 n] Letters by (auto simp: exec_or_dir_def)
qed

lemma FILEMODEBITS_all: "perms FILEMODEBITS = UNIV" "only_perms FILEMODEBITS"
proof -
  have "map_of who_mask (CHR ''a'') = Some FILEMODEBITS" by (simp add: who_mask_def FILEMODEBITS_def)
  from who_maskD [OF this] show "perms FILEMODEBITS = UNIV" "only_perms FILEMODEBITS" by (simp_all add: scope_def)
qed

lemma apply_action_perms:
  assumes "only_perms p" "only_perms w"
  shows "perms (apply_action op um w p n)
      = (let g = perms p \<inter> (if w = 0 then - perms um else perms w) in if op = CHR ''-'' then perms n - g else perms n \<union> g)"
    and "file_type (apply_action op um w p n) = file_type n"
proof -
  have z: "p = 0 \<Longrightarrow> perms p = {}" by simp
  show "perms (apply_action op um w p n)
      = (let g = perms p \<inter> (if w = 0 then - perms um else perms w) in if op = CHR ''-'' then perms n - g else perms n \<union> g)"
    using z by (auto simp: apply_action_def Let_def)
  have "only_perms (p AND q)" for q using assms(1) by blast
  then have "file_type (n AND NOT (p AND q)) = file_type n" "file_type (n OR (p AND q)) = file_type n" for q
    by (rule file_type_AND_NOT, rule file_type_OR)
  then show "file_type (apply_action op um w p n) = file_type n"
    by (simp add: apply_action_def Let_def del: bit.conj_disj_distrib bit.de_Morgan_conj)
qed

lemma file_type_dir: "file_type a = file_type b \<Longrightarrow> bit a 14 = bit b 14"
proof -
  assume "file_type a = file_type b"
  then have "bit (file_type a) 14 = bit (file_type b) 14" by simp
  then show ?thesis unfolding file_type_def bit_and_iff bit_not_iff bit_perm_bits by simp
qed

text \<open>A list of who letters and the mask read for it.\<close>

definition who_of :: "string \<Rightarrow> u32 \<Rightarrow> bool" where
  "who_of ws w \<longleftrightarrow> only_perms w \<and> perms w = who_scope ws \<and> (w = 0 \<longleftrightarrow> ws = [])"

lemma scope_not_empty: "scope c \<noteq> {}"
  by (simp add: scope_def)

lemma who_ofI: "only_perms w \<Longrightarrow> perms w = who_scope ws \<Longrightarrow> who_of ws w"
  using perms_empty [of w] scope_not_empty by (auto simp: who_of_def who_scope_def)

lemma parse_action_show:
  assumes "action_ok a" "who_of ws w" "t = [] \<or> peek t \<in> set ''+-=,''"
  shows "\<exists>n'. parse_action um w (show_action a @ t) n = Some (t, n')
    \<and> perms n' = do_action (bit n 14) (perms um) ws (perms n) a \<and> file_type n' = file_type n"
proof -
  obtain op what where a: "a = (op, what)" by (cases a)
  have w: "only_perms w" "perms w = who_scope ws" "w = 0 \<longleftrightarrow> ws = []" using assms(2) by (simp_all add: who_of_def)
  define n1 where "n1 = (if op = CHR ''='' then n AND (if w \<noteq> 0 then NOT w else NOT FILEMODEBITS) else n)"
  have f1: "file_type n1 = file_type n" using w(1) FILEMODEBITS_all(2) by (simp add: n1_def)
  have p1: "perms n1 = (if op = CHR ''='' then perms n - (if ws = [] then UNIV else who_scope ws) else perms n)"
    using w FILEMODEBITS_all(1) by (auto simp: n1_def)
  obtain p where p: "(case parse_permcopy (show_what what @ t) n1 of Some r \<Rightarrow> r | None \<Rightarrow> parse_permlist (show_what what @ t) n1 0) = (t, p)"
      "perms p = granted (bit n1 14) (perms n1) what" "only_perms p"
    using parse_what_show [OF assms(1) [unfolded a] assms(3)] by blast
  have "op = CHR ''+'' \<or> op = CHR ''-'' \<or> op = CHR ''=''" using assms(1) by (auto simp: a)
  then have "parse_action um w (show_action a @ t) n = Some (t, apply_action op um w p n1)"
    using p(1) unfolding parse_action_def a show_action.simps append_Cons peek_Cons list.sel Let_def n1_def [symmetric] by auto
  moreover have "perms (apply_action op um w p n1) = do_action (bit n 14) (perms um) ws (perms n) a"
    unfolding apply_action_perms(1) [OF p(3) w(1)] p(2) p1 file_type_dir [OF f1] a by (simp add: Let_def w(2,3))
  ultimately show ?thesis using apply_action_perms(2) [OF p(3) w(1), of op um n1] f1 by auto
qed

lemma show_action_head: "action_ok a \<Longrightarrow> peek (show_action a @ t) \<in> set ''+-='' \<and> show_action a @ t \<noteq> []"
  by (cases a) auto

lemma parse_actions_show:
  assumes "acts \<noteq> []" "list_all action_ok acts" "who_of ws w" "t = [] \<or> peek t = CHR '',''"
  shows "\<exists>n'. parse_actions um w (concat (map show_action acts) @ t) n = Some (t, n')
    \<and> perms n' = foldl (do_action (bit n 14) (perms um) ws) (perms n) acts \<and> file_type n' = file_type n"
  using assms(1,2)
proof (induction acts arbitrary: n)
  case (Cons a acts)
  let ?t = "concat (map show_action acts) @ t"
  have t: "acts \<noteq> [] \<Longrightarrow> ?t \<noteq> [] \<and> peek ?t \<in> set ''+-=''"
    using Cons.prems show_action_head by (cases acts) auto
  have "?t = [] \<or> peek ?t \<in> set ''+-=,''" using t assms(4) by (cases "acts = []") auto
  moreover have "action_ok a" using Cons.prems(2) by simp
  ultimately obtain n1 where n1: "parse_action um w (show_action a @ ?t) n = Some (?t, n1)"
      "perms n1 = do_action (bit n 14) (perms um) ws (perms n) a" "file_type n1 = file_type n"
    using parse_action_show [OF _ assms(3), of a ?t um n] by blast
  show ?case
  proof (cases "acts = []")
    case True
    then show ?thesis using n1 assms(4) by (subst parse_actions.simps) auto
  next
    case False
    then have "parse_actions um w (concat (map show_action (a # acts)) @ t) n = parse_actions um w ?t n1"
      using n1(1) t by (subst parse_actions.simps) auto
    then show ?thesis using Cons.IH [OF False, of n1] Cons.prems(2) n1(2,3) file_type_dir [OF n1(3)] by auto
  qed
qed simp

lemma parse_clause_show:
  assumes "clause_ok cl" "t = [] \<or> peek t = CHR '',''"
  shows "\<exists>n'. parse_clauses um (show_clause cl @ t) n = parse_clauses um t n'
    \<and> perms n' = do_clause (bit n 14) (perms um) (perms n) cl \<and> file_type n' = file_type n"
proof -
  obtain ws acts where cl: "cl = (ws, acts)" by (cases cl)
  have ok: "set ws \<subseteq> set ''augo''" "acts \<noteq> []" "list_all action_ok acts" using assms(1) by (auto simp: cl)
  let ?s = "concat (map show_action acts) @ t"
  have h: "?s \<noteq> []" "peek ?s \<in> set ''+-=''" using ok(2,3) show_action_head by (cases acts; fastforce)+
  have "only_perms 0" by (simp add: only_perms_def)
  moreover have "peek ?s \<notin> set ''augo''" using h(2) by auto
  ultimately obtain w where "parse_wholist (ws @ ?s) 0 = Some (?s, w)" "perms w = perms 0 \<union> who_scope ws" "only_perms w"
    using parse_wholist_show [OF ok(1) h(1), of 0] by blast
  then have w: "parse_wholist (ws @ ?s) 0 = Some (?s, w)" "who_of ws w" by (simp_all add: who_ofI)
  have "peek (show_clause cl @ t) \<in> set ''augo+-=''" "show_clause cl @ t \<noteq> []" using ok(1) h by (cases ws; force simp: cl)+
  then show ?thesis
    using parse_actions_show [OF ok(2,3) w(2) assms(2), of um n] w(1) by (subst parse_clauses.simps) (auto simp: cl)
qed

lemma parse_clauses_show:
  assumes "list_all clause_ok cls"
  shows "\<exists>m. parse_clauses um (show_mode cls) n = Some m
    \<and> perms m = foldl (do_clause (bit n 14) (perms um)) (perms n) cls \<and> file_type m = file_type n"
  using assms
proof (induction cls arbitrary: n)
  case Nil
  then show ?case by (simp add: parse_clauses.simps)
next
  case (Cons cl cls)
  let ?t = "if cls = [] then [] else CHR '','' # show_mode cls"
  have "?t = [] \<or> peek ?t = CHR '',''" by simp
  then obtain n1 where n1: "parse_clauses um (show_clause cl @ ?t) n = parse_clauses um ?t n1"
      "perms n1 = do_clause (bit n 14) (perms um) (perms n) cl" "file_type n1 = file_type n"
    using parse_clause_show [of cl ?t um n] Cons.prems by auto
  moreover have "parse_clauses um ?t n1 = parse_clauses um (show_mode cls) n1"
    by (simp add: parse_clauses.simps [of um "CHR '','' # s" for s])
  ultimately show ?case using Cons.IH [of n1] Cons.prems file_type_dir [OF n1(3)] by auto
qed

lemma show_mode_head: "list_all clause_ok cls \<Longrightarrow> peek (show_mode cls) \<in> insert NUL (set ''augo+-='')"
proof (cases cls)
  case (Cons cl cls')
  assume "list_all clause_ok cls"
  then obtain ws a acts where "cl = (ws, a # acts)" "set ws \<subseteq> set ''augo''" "action_ok a"
    using Cons by (cases cl; cases "snd cl") auto
  then show ?thesis using Cons by (cases ws; cases a) auto
qed simp

section \<open>Octal modes\<close>

fun oct_nat :: "nat \<Rightarrow> string" where
  "oct_nat n = (if n < 8 then [char_of (48 + n)] else oct_nat (n div 8) @ [char_of (48 + n mod 8)])"

declare oct_nat.simps [simp del]

lemma scan_oct_nat: "scan_digits 8 (oct_nat n @ r) 0 = scan_digits 8 r n"
proof (induction n arbitrary: r rule: oct_nat.induct)
  case (1 n)
  have "scan_digits 8 (char_of (48 + d) # r) k = scan_digits 8 r (k * 8 + d)" if "d < 8" for d k :: nat
    using that digit_val_dec [of d] by simp
  then show ?case using 1 by (subst oct_nat.simps) auto
qed

lemma oct_nat_head: "\<exists>d s. oct_nat n = char_of (48 + d) # s \<and> d < (8::nat)"
proof (induction n rule: oct_nat.induct)
  case (1 n)
  then show ?case
  proof (cases "n < 8")
    case True
    then show ?thesis unfolding oct_nat.simps [of n] by (intro exI [of _ n] exI [of _ "[]"]) simp
  next
    case False
    then show ?thesis using 1 unfolding oct_nat.simps [of n] by (metis append_Cons)
  qed
qed

lemma strtoull_oct: "strtoull (oct_nat n) 8 = (if n \<ge> 2 ^ 64 then (- 1, [], True) else (of_nat n, [], False))"
proof -
  obtain d s where o: "oct_nat n = char_of (48 + d) # s" "d < (8::nat)" using oct_nat_head by blast
  have "\<not> isspace (char_of (48 + d))" "is_digit_of 8 (char_of (48 + d))" "char_of (48 + d) \<noteq> CHR ''-''" "char_of (48 + d) \<noteq> CHR ''+''"
    using o(2) digit_val_dec [of d] by (auto simp: isspace_def is_digit_of_def dest!: arg_cong [where f = code])
  moreover have "scan_digits 8 (char_of (48 + d) # s) 0 = (n, [])" using scan_oct_nat [of n "[]"] by (simp add: o(1))
  ultimately have "strto_scan (oct_nat n) 8 = Some (False, n, [])"
    by (simp add: strto_scan_def o(1) Let_def del: scan_digits.simps)
  then show ?thesis by (simp add: strtoull_def)
qed

section \<open>Properties\<close>

text \<open>C39. A symbolic mode, any list of clauses of who letters and actions, is read as the meaning of its clauses in
  turn on the set of permissions of the current mode; the file type is kept.\<close>

theorem parse_mode_symbolic:
  assumes "list_all clause_ok cls"
  shows "\<exists>m. bb_parse_mode um (show_mode cls) n = Some m
    \<and> perms m = foldl (do_clause (bit n 14) (perms um)) (perms n) cls \<and> file_type m = file_type n"
proof -
  have "\<not> (of_nat (code (peek (show_mode cls))) - 48 :: u8) < 8"
    using show_mode_head [OF assms] by (auto simp: word_less_nat_alt)
  then show ?thesis using parse_clauses_show [OF assms] by (simp add: bb_parse_mode_def)
qed

text \<open>An octal mode is read back up to 7777 and refused above, whatever its length.\<close>

theorem parse_mode_octal: "bb_parse_mode um (oct_nat n) m = (if n \<le> 4095 then Some (of_nat n) else None)"
proof -
  obtain d s where o: "oct_nat n = char_of (48 + d) # s" "d < (8::nat)" using oct_nat_head by blast
  then have "(of_nat (code (peek (oct_nat n))) - 48 :: u8) < 8" by (simp add: word_less_nat_alt unat_of_nat take_bit_nat_eq_self)
  then have "bb_parse_mode um (oct_nat n) m
      = (if n \<ge> 2 ^ 64 \<or> (of_nat n :: u64) > 0xFFF then None else Some (ucast (of_nat n :: u64)))"
    by (auto simp: bb_parse_mode_def strtoull_oct)
  moreover have "n < 2 ^ 64 \<Longrightarrow> (of_nat n :: u64) > 0xFFF \<longleftrightarrow> n > 4095"
    by (simp add: word_less_nat_alt unat_of_nat take_bit_nat_eq_self)
  moreover have "n \<le> 4095 \<Longrightarrow> (ucast (of_nat n :: u64) :: u32) = of_nat n"
    by (simp add: word_unat_eq_iff unsigned_ucast_eq unat_of_nat take_bit_nat_eq_self)
  ultimately show ?thesis by auto
qed

theorem parse_mode_symbolic_witness:
  "\<exists>m. bb_parse_mode 0x12 ''u=rwX,go-w'' 0x1B6 = Some m
    \<and> perms m = {R User, W User, R Group, R Other} \<and> file_type m = file_type 0x1B6"
proof -
  have p: "perms 0x1B6 = {R User, W User, R Group, W Group, R Other, W Other}"
    unfolding set_eq_iff perm_all by (simp add: perms_def)
  have "foldl (do_clause (bit (0x1B6::u32) 14) (perms 0x12)) (perms 0x1B6)
      [(''u'', [(CHR ''='', Letters ''rwX'')]), (''go'', [(CHR ''-'', Letters ''w'')])]
    = {R User, W User, R Group, R Other}"
    unfolding p set_eq_iff perm_all by (simp add: who_scope_def scope_def letter_def image_iff cls_ex)
  then show ?thesis
    using parse_mode_symbolic [of "[(''u'', [(CHR ''='', Letters ''rwX'')]), (''go'', [(CHR ''-'', Letters ''w'')])]" "0x12" "0x1B6"]
    by simp
qed

text \<open>A file of a block device gets execute permission from \<open>X\<close>: the test takes the bit of \<^verbatim>\<open>S_IFDIR\<close>, which block
  devices and sockets have too.\<close>

lemma parse_mode_X_block_device: "bb_parse_mode 0x12 ''a+X'' 0x6180 = Some 0x61C9"
  by (simp add: bb_parse_mode_def parse_clauses.simps parse_actions.simps parse_action_def parse_permcopy_def who_mask_def
      perm_mask_def apply_action_def word_less_nat_alt Let_def)

section \<open>The column of ls -l\<close>

text \<open>The three characters of a class, with the letter of its special permission.\<close>

definition rwx :: "perm set \<Rightarrow> cls \<Rightarrow> perm \<Rightarrow> char \<Rightarrow> char \<Rightarrow> string" where
  "rwx P c special lower upper =
     [if R c \<in> P then CHR ''r'' else CHR ''-'', if W c \<in> P then CHR ''w'' else CHR ''-'',
      if special \<in> P then (if X c \<in> P then lower else upper) else if X c \<in> P then CHR ''x'' else CHR ''-'']"

definition type_char :: "nat \<Rightarrow> char" where
  "type_char t = (if t = 1 then CHR ''p'' else if t = 2 then CHR ''c'' else if t = 4 then CHR ''d'' else if t = 6 then CHR ''b''
     else if t = 8 then CHR ''-'' else if t = 10 then CHR ''l'' else if t = 12 then CHR ''s'' else CHR ''?'')"

lemma test_bit: "(mode::u32) AND m \<noteq> 0 \<longleftrightarrow> bit mode k" if "m = 2 ^ k"
  using and_exp_eq_0_iff_not_bit [of mode k] that by simp

lemma mode_group_rwx:
  assumes "m = 2 ^ (cls_bit c + 2)" "pbit special = 12 - i" "i \<in> {1, 2, 3}"
  shows "mode_group mode m i = rwx (perms mode) c special (if i = 3 then CHR ''t'' else CHR ''s'') (if i = 3 then CHR ''T'' else CHR ''S'')"
proof -
  have sh: "shr m 1 = 2 ^ (cls_bit c + 1)" "shr m 2 = 2 ^ cls_bit c" "shr 0x1000 i = (2 ^ (12 - i) :: u32)"
    using assms(1,3) by (cases c; auto)+
  have b: "mode AND m \<noteq> 0 \<longleftrightarrow> R c \<in> perms mode" "mode AND shr m 1 \<noteq> 0 \<longleftrightarrow> W c \<in> perms mode"
    "mode AND shr m 2 \<noteq> 0 \<longleftrightarrow> X c \<in> perms mode" "mode AND shr 0x1000 i \<noteq> 0 \<longleftrightarrow> special \<in> perms mode"
    using test_bit [OF assms(1), of mode] test_bit [OF sh(1), of mode] test_bit [OF sh(2), of mode] test_bit [OF sh(3), of mode] assms(2)
    by (simp_all add: perms_def)
  show ?thesis
    using assms(3) by (auto simp: mode_group_def mode_rwx_def mode_chars_def rwx_def b b [unfolded One_nat_def] Let_def)
qed

lemma type_chars_nth: "t < 16 \<Longrightarrow> type_chars ! t = type_char t"
proof -
  have "list_all (\<lambda>t. type_chars ! t = type_char t) [0..<16]" by (simp add: type_chars_def type_char_def upt_rec)
  then show "t < 16 \<Longrightarrow> ?thesis" by (simp add: list_all_iff)
qed

text \<open>\<open>bb_mode_string\<close> writes the file type and for each class its permissions, with s and t in place of x when
  the special permission is set and S and T when it is set without x.\<close>

theorem mode_string_rwx:
  "bb_mode_string m = type_char (unat m div 4096 mod 16) # rwx (perms m) User Suid (CHR ''s'') (CHR ''S'')
     @ rwx (perms m) Group Sgid (CHR ''s'') (CHR ''S'') @ rwx (perms m) Other Sticky (CHR ''t'') (CHR ''T'')"
proof -
  have "shr m 12 AND 0xf = take_bit 4 (shr m 12)" by (simp add: take_bit_eq_mask mask_eq_exp_minus_1)
  then have "unat (shr m 12 AND 0xf) = unat m div 4096 mod 16"
    by (simp only: unsigned_take_bit_eq) (simp add: take_bit_eq_mod unat_shr)
  moreover have "mode_group m 0x100 1 = rwx (perms m) User Suid (CHR ''s'') (CHR ''S'')"
    "mode_group m (shr 0x100 3) 2 = rwx (perms m) Group Sgid (CHR ''s'') (CHR ''S'')"
    "mode_group m (shr 0x100 6) 3 = rwx (perms m) Other Sticky (CHR ''t'') (CHR ''T'')"
    using mode_group_rwx [of "0x100" User Suid 1 m] mode_group_rwx [of "shr 0x100 3" Group Sgid 2 m]
      mode_group_rwx [of "shr 0x100 6" Other Sticky 3 m] by simp_all
  ultimately show ?thesis unfolding bb_mode_string_def by (simp only:) (simp add: type_chars_nth)
qed

end
