(* ===== verification/Test_Applet.thy ===== *)
theory Test_Applet
  imports Strtonum Str_Array
begin

text \<open>
  The test applet, \<^verbatim>\<open>coreutils/test.c\<close> with 64-bit numbers: the operator tables, the recursive descent
  \<open>oexpr\<close>, \<open>aexpr\<close>, \<open>nexpr\<close>, \<open>primary\<close> over the argument vector, file tests, and \<open>test_main\<close> with the special
  cases POSIX gives for up to four arguments.

  The global pointer into the arguments is the list of the arguments from there on, the terminating NULL
  its end; moving it past the NULL is the outcome \<open>Beyond\<close>.  What the kernel answers (\<^verbatim>\<open>stat\<close>,
  \<^verbatim>\<open>lstat\<close>, \<^verbatim>\<open>isatty\<close>, the ids and groups of the process) is a record of functions.  \<open>syntax\<close>, which
  leaves by \<^verbatim>\<open>longjmp\<close>, is the outcome \<open>Syntax\<close> with its message.  The recursion takes fuel.
\<close>

section \<open>Tokens and tables\<close>

datatype token = EOI
  | FILRD | FILWR | FILEX
  | FILEXIST
  | FILREG | FILDIR | FILCDEV | FILBDEV | FILFIFO | FILSOCK
  | FILSYM | FILGZ | FILTT
  | FILSUID | FILSGID | FILSTCK
  | FILNT | FILOT | FILEQ
  | FILUID | FILGID
  | STREZ | STRNZ | STREQ | STRNE | STRLT | STRGT
  | INTEQ | INTNE | INTGE | INTGT | INTLE | INTLT
  | UNOT | BAND | BOR | LPAREN | RPAREN | OPERAND

fun tok_num :: "token \<Rightarrow> u8" where
  "tok_num EOI = 0"
| "tok_num FILRD = 1" | "tok_num FILWR = 2" | "tok_num FILEX = 3"
| "tok_num FILEXIST = 4"
| "tok_num FILREG = 5" | "tok_num FILDIR = 6" | "tok_num FILCDEV = 7" | "tok_num FILBDEV = 8" | "tok_num FILFIFO = 9"
| "tok_num FILSOCK = 10"
| "tok_num FILSYM = 11" | "tok_num FILGZ = 12" | "tok_num FILTT = 13"
| "tok_num FILSUID = 14" | "tok_num FILSGID = 15" | "tok_num FILSTCK = 16"
| "tok_num FILNT = 17" | "tok_num FILOT = 18" | "tok_num FILEQ = 19"
| "tok_num FILUID = 20" | "tok_num FILGID = 21"
| "tok_num STREZ = 22" | "tok_num STRNZ = 23" | "tok_num STREQ = 24" | "tok_num STRNE = 25" | "tok_num STRLT = 26"
| "tok_num STRGT = 27"
| "tok_num INTEQ = 28" | "tok_num INTNE = 29" | "tok_num INTGE = 30" | "tok_num INTGT = 31" | "tok_num INTLE = 32"
| "tok_num INTLT = 33"
| "tok_num UNOT = 34" | "tok_num BAND = 35" | "tok_num BOR = 36" | "tok_num LPAREN = 37" | "tok_num RPAREN = 38"
| "tok_num OPERAND = 39"

definition is_int_op :: "token \<Rightarrow> bool" where
  "is_int_op a \<longleftrightarrow> tok_num a - tok_num INTEQ \<le> 5"

definition is_str_op :: "token \<Rightarrow> bool" where
  "is_str_op a \<longleftrightarrow> tok_num a - tok_num STREZ \<le> 5"

definition is_file_access :: "token \<Rightarrow> bool" where
  "is_file_access a \<longleftrightarrow> tok_num a - tok_num FILRD \<le> 2"

definition is_file_type :: "token \<Rightarrow> bool" where
  "is_file_type a \<longleftrightarrow> tok_num a - tok_num FILREG \<le> 5"

definition is_file_bit :: "token \<Rightarrow> bool" where
  "is_file_bit a \<longleftrightarrow> tok_num a - tok_num FILSUID \<le> 2"

datatype op_type = UNOP | BINOP | BUNOP | BBINOP | PAREN

type_synonym operator_t = "token \<times> op_type"

definition ops_table :: "operator_t list" where
  "ops_table =
    [(FILRD, UNOP), (FILWR, UNOP), (FILEX, UNOP), (FILEXIST, UNOP), (FILREG, UNOP), (FILDIR, UNOP), (FILCDEV, UNOP),
     (FILBDEV, UNOP), (FILFIFO, UNOP), (FILSUID, UNOP), (FILSGID, UNOP), (FILSTCK, UNOP), (FILGZ, UNOP), (FILTT, UNOP),
     (STREZ, UNOP), (STRNZ, UNOP), (FILSYM, UNOP),
     (FILUID, UNOP), (FILGID, UNOP), (FILSYM, UNOP), (FILSOCK, UNOP),
     (STREQ, BINOP), (STREQ, BINOP), (STRNE, BINOP), (STRLT, BINOP), (STRGT, BINOP),
     (INTEQ, BINOP), (INTNE, BINOP), (INTGE, BINOP), (INTGT, BINOP), (INTLE, BINOP), (INTLT, BINOP),
     (FILNT, BINOP), (FILOT, BINOP), (FILEQ, BINOP),
     (UNOT, BUNOP), (BAND, BBINOP), (BOR, BBINOP), (LPAREN, PAREN), (RPAREN, PAREN)]"

definition ops_texts :: "string list" where
  "ops_texts =
    [''-r'', ''-w'', ''-x'', ''-e'', ''-f'', ''-d'', ''-c'', ''-b'', ''-p'', ''-u'', ''-g'', ''-k'', ''-s'', ''-t'',
     ''-z'', ''-n'', ''-h'',
     ''-O'', ''-G'', ''-L'', ''-S'',
     ''='', ''=='', ''!='', ''<'', ''>'',
     ''-eq'', ''-ne'', ''-ge'', ''-gt'', ''-le'', ''-lt'',
     ''-nt'', ''-ot'', ''-ef'',
     ''!'', ''-a'', ''-o'', ''('', '')'']"

section \<open>State and outcomes\<close>

record stat =
  st_mode :: u32
  st_uid :: u32
  st_gid :: u32
  st_size :: int
  st_mtime :: int
  st_dev :: nat
  st_ino :: nat

record kernel =
  stat_of :: "string \<Rightarrow> stat option"
  lstat_of :: "string \<Rightarrow> stat option"
  isatty :: "u32 \<Rightarrow> bool"
  getgid :: u32
  getegid :: u32
  geteuid :: u32
  getgroups :: "u32 list"

text \<open>The last operator is \<open>None\<close> for the bogus one.\<close>

record test_statics =
  args :: "string list"
  last_operator :: "operator_t option"

datatype 'a outcome = Value 'a | Syntax string | Beyond | No_fuel

fun obind :: "'a outcome \<Rightarrow> ('a \<Rightarrow> 'b outcome) \<Rightarrow> 'b outcome" where
  "obind (Value x) f = f x"
| "obind (Syntax m) f = Syntax m"
| "obind Beyond f = Beyond"
| "obind No_fuel f = No_fuel"

definition syntax_err :: "string option \<Rightarrow> string \<Rightarrow> 'a outcome" where
  "syntax_err op msg =
     (case op of
        Some (c # cs) \<Rightarrow> Syntax ((c # cs) @ '': '' @ msg)
      | _ \<Rightarrow> Syntax msg)"

definition arg_at :: "test_statics \<Rightarrow> nat \<Rightarrow> string option" where
  "arg_at S i = (if i < length (args S) then Some (args S ! i) else None)"

definition next_arg :: "test_statics \<Rightarrow> test_statics outcome" where
  "next_arg S = (if args S = [] then Beyond else Value (S\<lparr>args := tl (args S)\<rparr>))"

definition check_operator :: "string option \<Rightarrow> test_statics \<Rightarrow> token \<times> test_statics" where
  "check_operator s S =
     (case s of
        None \<Rightarrow> (EOI, S\<lparr>last_operator := None\<rparr>)
      | Some s \<Rightarrow>
          (let n = index_in_strings ops_texts s
           in if n < 0 then (OPERAND, S\<lparr>last_operator := None\<rparr>)
              else (fst (ops_table ! nat n), S\<lparr>last_operator := Some (ops_table ! nat n)\<rparr>)))"

text \<open>\<^verbatim>\<open>check_operator(*++args)\<close>.\<close>

definition check_next :: "test_statics \<Rightarrow> (token \<times> test_statics) outcome" where
  "check_next S = obind (next_arg S) (\<lambda>S. Value (check_operator (arg_at S 0) S))"

section \<open>Numbers and files\<close>

definition getn :: "string \<Rightarrow> u64 outcome" where
  "getn s =
     (case strtoll s 10 of
        (r, p, erange) \<Rightarrow>
          if erange then syntax_err (Some s) ''out of range''
          else if p = s \<or> peek (skip_whitespace p) \<noteq> NUL then syntax_err (Some s) ''bad number''
          else Value r)"

definition is_a_group_member :: "kernel \<Rightarrow> u32 \<Rightarrow> bool" where
  "is_a_group_member k gid \<longleftrightarrow> gid = getgid k \<or> gid = getegid k \<or> gid \<in> set (getgroups k)"

text \<open>Whether the access is granted (the code returns 0); the mode is 4, 2 or 1.\<close>

definition test_eaccess :: "kernel \<Rightarrow> stat \<Rightarrow> u32 \<Rightarrow> bool" where
  "test_eaccess k st mode =
     (if geteuid k = 0 \<and> (mode \<noteq> 1 \<or> st_mode st AND (0x40 OR 0x8 OR 0x1) \<noteq> 0) then True
      else
        (let mode = (if st_uid st = geteuid k then shl mode 6
                     else if is_a_group_member k (st_gid st) then shl mode 3 else mode)
         in st_mode st AND mode \<noteq> 0))"

definition filstat :: "kernel \<Rightarrow> string \<Rightarrow> token \<Rightarrow> bool" where
  "filstat k nm mode =
     (if mode = FILSYM then
        (case lstat_of k nm of Some s \<Rightarrow> st_mode s AND 0xF000 = 0xA000 | None \<Rightarrow> False)
      else
        (case stat_of k nm of
           None \<Rightarrow> False
         | Some s \<Rightarrow>
             if mode = FILEXIST then True
             else if is_file_access mode then
               test_eaccess k s (if mode = FILRD then 4 else if mode = FILWR then 2 else 1)
             else if is_file_type mode then
               st_mode s AND 0xF000
                 = (if mode = FILREG then 0x8000 else if mode = FILDIR then 0x4000 else if mode = FILCDEV then 0x2000
                    else if mode = FILBDEV then 0x6000 else if mode = FILFIFO then 0x1000 else 0xC000)
             else if is_file_bit mode then
               st_mode s AND (if mode = FILSUID then 0x800 else if mode = FILSGID then 0x400 else 0x200) \<noteq> 0
             else if mode = FILGZ then st_size s > 0
             else if mode = FILUID then st_uid s = geteuid k
             else if mode = FILGID then st_gid s = getegid k
             else True))"

section \<open>The grammar\<close>

definition compare_ints :: "token \<Rightarrow> u64 \<Rightarrow> u64 \<Rightarrow> bool" where
  "compare_ints op val1 val2 =
     (if op = INTEQ then val1 = val2
      else if op = INTNE then val1 \<noteq> val2
      else if op = INTGE then sint val1 \<ge> sint val2
      else if op = INTGT then sint val1 > sint val2
      else if op = INTLE then sint val1 \<le> sint val2
      else sint val1 < sint val2)"

definition compare_strings :: "token \<Rightarrow> int \<Rightarrow> bool" where
  "compare_strings op val1 =
     (if op = STREQ then val1 = 0
      else if op = STRNE then val1 \<noteq> 0
      else if op = STRLT then val1 < 0
      else val1 > 0)"

definition compare_files :: "kernel \<Rightarrow> token \<Rightarrow> string \<Rightarrow> string \<Rightarrow> bool" where
  "compare_files k op opnd1 opnd2 =
     (case (stat_of k opnd1, stat_of k opnd2) of
        (Some b1, Some b2) \<Rightarrow>
          if op = FILNT then st_mtime b1 > st_mtime b2
          else if op = FILOT then st_mtime b1 < st_mtime b2
          else st_dev b1 = st_dev b2 \<and> st_ino b1 = st_ino b2
      | _ \<Rightarrow> False)"

definition binop_result :: "kernel \<Rightarrow> token \<Rightarrow> string \<Rightarrow> string \<Rightarrow> bool outcome" where
  "binop_result k op opnd1 opnd2 =
     (if is_int_op op then
        obind (getn opnd1) (\<lambda>val1. obind (getn opnd2) (\<lambda>val2. Value (compare_ints op val1 val2)))
      else if is_str_op op then Value (compare_strings op (strcmp opnd1 opnd2))
      else Value (compare_files k op opnd1 opnd2))"

definition binop :: "kernel \<Rightarrow> test_statics \<Rightarrow> (bool \<times> test_statics) outcome" where
  "binop k S =
     (case arg_at S 0 of
        None \<Rightarrow> Beyond
      | Some opnd1 \<Rightarrow>
          obind (next_arg S) (\<lambda>S.
            case check_operator (arg_at S 0) S of
              (n, S) \<Rightarrow>
                (let op_text = arg_at S 0
                 in obind (next_arg S) (\<lambda>S.
                      case arg_at S 0 of
                        None \<Rightarrow> syntax_err op_text ''argument expected''
                      | Some opnd2 \<Rightarrow> obind (binop_result k n opnd1 opnd2) (\<lambda>r. Value (r, S))))))"

definition op_type_of :: "operator_t option \<Rightarrow> op_type option" where
  "op_type_of = map_option snd"

text \<open>\<open>primary\<close> on anything but a parenthesis.\<close>

definition primary_operand :: "kernel \<Rightarrow> token \<Rightarrow> test_statics \<Rightarrow> (bool \<times> test_statics) outcome" where
  "primary_operand k n S =
     (let args0_op = last_operator S;
          (n1, S) = check_operator (arg_at S 1) S
      in if n1 \<noteq> EOI \<and> arg_at S 2 \<noteq> None \<and> op_type_of (last_operator S) = Some BINOP then binop k S
         else if op_type_of args0_op = Some UNOP \<and> arg_at S 1 \<noteq> None then
           obind (next_arg S) (\<lambda>S.
             case arg_at S 0 of
               None \<Rightarrow> Beyond
             | Some arg \<Rightarrow>
                 if n = STREZ then Value (arg = [], S)
                 else if n = STRNZ then Value (arg \<noteq> [], S)
                 else if n = FILTT then obind (getn arg) (\<lambda>r. Value (isatty k (ucast r), S))
                 else Value (filstat k arg n, S))
         else if op_type_of args0_op \<noteq> Some UNOP \<and> op_type_of (last_operator S) = Some BINOP then binop k S
         else (case arg_at S 0 of None \<Rightarrow> Beyond | Some arg \<Rightarrow> Value (arg \<noteq> [], S)))"

fun nexpr :: "kernel \<Rightarrow> nat \<Rightarrow> token \<Rightarrow> test_statics \<Rightarrow> (bool \<times> test_statics) outcome"
  and aexpr :: "kernel \<Rightarrow> nat \<Rightarrow> token \<Rightarrow> test_statics \<Rightarrow> (bool \<times> test_statics) outcome"
  and oexpr :: "kernel \<Rightarrow> nat \<Rightarrow> token \<Rightarrow> test_statics \<Rightarrow> (bool \<times> test_statics) outcome"
  and primary :: "kernel \<Rightarrow> nat \<Rightarrow> token \<Rightarrow> test_statics \<Rightarrow> (bool \<times> test_statics) outcome" where
  "nexpr k 0 n S = No_fuel"
| "nexpr k (Suc f) n S =
     (if n = UNOT then
        obind (check_next S) (\<lambda>(n, S').
          if n = EOI then Value (True, S'\<lparr>args := args S\<rparr>)
          else obind (nexpr k f n S') (\<lambda>(res, S'). Value (\<not> res, S')))
      else primary k f n S)"
| "aexpr k 0 n S = No_fuel"
| "aexpr k (Suc f) n S =
     obind (nexpr k f n S) (\<lambda>(res, S).
       obind (check_next S) (\<lambda>(n, S').
         if n = BAND then
           obind (check_next S') (\<lambda>(n, S'). obind (aexpr k f n S') (\<lambda>(r, S'). Value (r \<and> res, S')))
         else Value (res, S'\<lparr>args := args S\<rparr>)))"
| "oexpr k 0 n S = No_fuel"
| "oexpr k (Suc f) n S =
     obind (aexpr k f n S) (\<lambda>(res, S).
       obind (check_next S) (\<lambda>(n, S').
         if n = BOR then
           obind (check_next S') (\<lambda>(n, S'). obind (oexpr k f n S') (\<lambda>(r, S'). Value (r \<or> res, S')))
         else Value (res, S'\<lparr>args := args S\<rparr>)))"
| "primary k 0 n S = No_fuel"
| "primary k (Suc f) n S =
     (if n = EOI then syntax_err None ''argument expected''
      else if n = LPAREN then
        obind (check_next S) (\<lambda>(n, S').
          obind (oexpr k f n S') (\<lambda>(res, S').
            obind (check_next S') (\<lambda>(n, S').
              if n \<noteq> RPAREN then syntax_err None ''closing paren expected''
              else Value (res, S'))))
      else primary_operand k n S)"

section \<open>The applet\<close>

definition bb_basename :: "string \<Rightarrow> string" where
  "bb_basename name = rev (takeWhile (\<lambda>c. c \<noteq> CHR ''/'') (rev name))"

definition LONE_CHAR :: "string \<Rightarrow> char \<Rightarrow> bool" where
  "LONE_CHAR s c \<longleftrightarrow> peek s = c \<and> peek_at s 1 = NUL"

text \<open>The special cases: either the exit status, or the arguments for the general parser.  \<open>argv\<close> moves over leading
  negations, \<open>args\<close> stays at the first argument; both see the NULL that is written over a closing parenthesis.\<close>

datatype special = Status nat | General "string list" | Failed string | Outside

definition binop_special :: "kernel \<Rightarrow> bool \<Rightarrow> string list \<Rightarrow> special" where
  "binop_special k negate argv =
     (case binop k \<lparr>args = argv, last_operator = None\<rparr> of
        Value (r, S) \<Rightarrow> Status (of_bool ((\<not> r) \<noteq> negate))
      | Syntax m \<Rightarrow> Failed m
      | _ \<Rightarrow> Outside)"

function special_cases :: "kernel \<Rightarrow> bool \<Rightarrow> string list \<Rightarrow> string list \<Rightarrow> special" where
  "special_cases k negate args1 argv =
     (if argv = [] then Status (of_bool (True \<noteq> negate))
      else if length argv = 1 then Status (of_bool ((argv ! 0 = []) \<noteq> negate))
      else if length argv = 3
              \<and> op_type_of (last_operator (snd (check_operator (Some (argv ! 1)) \<lparr>args = argv, last_operator = None\<rparr>))) = Some BINOP
      then binop_special k negate argv
      else
        (let cut = length argv = 4 \<and> LONE_CHAR (argv ! 0) (CHR ''('') \<and> LONE_CHAR (argv ! 3) (CHR '')'');
             args1 = (if cut then butlast args1 else args1);
             argv = (if cut then [argv ! 1, argv ! 2] else argv)
         in if LONE_CHAR (argv ! 0) (CHR ''!'') then special_cases k (\<not> negate) args1 (tl argv)
            else General args1))"
  by pat_completeness auto
termination by (relation "measure (\<lambda>(k, negate, args1, argv). length argv)") (auto simp: Let_def split: if_splits)

declare special_cases.simps [simp del]

text \<open>Exit status and message.\<close>

definition test_general :: "kernel \<Rightarrow> nat \<Rightarrow> string list \<Rightarrow> (nat \<times> string) outcome" where
  "test_general k f args1 =
     (let S = \<lparr>args = args1, last_operator = None\<rparr>
      in case check_operator (arg_at S 0) S of
           (n, S) \<Rightarrow>
             obind (oexpr k f n S) (\<lambda>(r, S).
               if args S \<noteq> [] then
                 obind (next_arg S) (\<lambda>S.
                   case arg_at S 0 of
                     Some a \<Rightarrow> Value (2, a @ '': unknown operand'')
                   | None \<Rightarrow> Value (of_bool (\<not> r), []))
               else Value (of_bool (\<not> r), [])))"

text \<open>The recursion is at most four calls deep for every argument.\<close>

definition test_args :: "kernel \<Rightarrow> string list \<Rightarrow> (nat \<times> string) outcome" where
  "test_args k argv =
     (case special_cases k False argv argv of
        Status n \<Rightarrow> Value (n, [])
      | Failed m \<Rightarrow> Value (2, m)
      | Outside \<Rightarrow> Beyond
      | General args1 \<Rightarrow>
          (case test_general k (4 * length args1 + 4) args1 of
             Syntax m \<Rightarrow> Value (2, m)
           | r \<Rightarrow> r))"

definition test_main :: "kernel \<Rightarrow> string list \<Rightarrow> (nat \<times> string) outcome" where
  "test_main k argv =
     (case argv of
        [] \<Rightarrow> Beyond
      | arg0 # argv1 \<Rightarrow>
          (let arg0 = bb_basename arg0
           in if peek arg0 = CHR ''['' then
                (if peek_at arg0 1 = NUL then
                   (if \<not> LONE_CHAR (last argv) (CHR '']'') then Value (2, ''missing ]'')
                    else test_args k (butlast argv1))
                 else
                   (if last argv \<noteq> '']]'' then Value (2, ''missing ]]'')
                    else test_args k (butlast argv1)))
              else test_args k argv1))"

section \<open>The parser stays inside the arguments\<close>

lemma obind_simps [simp]: "obind r Value = r" "obind (obind r f) g = obind r (\<lambda>x. obind (f x) g)"
  by (cases r; simp)+

lemma check_operator_args [simp]: "args (snd (check_operator s S)) = args S"
  by (simp add: check_operator_def Let_def split: option.split)

lemma check_operator_EOI: "fst (check_operator s S) = EOI \<longleftrightarrow> s = None"
proof -
  have "list_all (\<lambda>(t, ty). t \<noteq> EOI) ops_table" by (simp add: ops_table_def)
  then have "n < length ops_table \<Longrightarrow> fst (ops_table ! n) \<noteq> EOI" for n by (auto simp: list_all_nth_iff split_beta)
  moreover have "length ops_table = length ops_texts" by (simp add: ops_table_def ops_texts_def)
  moreover have "0 \<le> index_in_strings ops_texts s \<Longrightarrow> nat (index_in_strings ops_texts s) < length ops_texts" for s
    using index_in_strings_nth [of ops_texts s "nat (index_in_strings ops_texts s)"] by simp
  ultimately show ?thesis by (auto simp: check_operator_def Let_def split: option.split)
qed

lemma arg_at_None: "arg_at S i = None \<longleftrightarrow> length (args S) \<le> i"
  by (simp add: arg_at_def)

text \<open>An outcome that keeps the pointer on an argument at or after the one it was called on.\<close>

definition inside :: "nat \<Rightarrow> (bool \<times> test_statics) outcome \<Rightarrow> bool" where
  "inside l r \<longleftrightarrow> (case r of Value (b, S) \<Rightarrow> args S \<noteq> [] \<and> length (args S) \<le> l | Syntax m \<Rightarrow> True | _ \<Rightarrow> False)"

lemma inside_simps [simp]:
  "inside l (Value (b, S)) \<longleftrightarrow> args S \<noteq> [] \<and> length (args S) \<le> l" "inside l (Syntax m)" "\<not> inside l Beyond" "\<not> inside l No_fuel"
  "inside l (syntax_err op m)"
  by (simp_all add: inside_def syntax_err_def split: option.split list.split)

lemma inside_bind:
  "inside l r \<Longrightarrow> (\<And>b S. args S \<noteq> [] \<Longrightarrow> length (args S) \<le> l \<Longrightarrow> inside l' (f (b, S))) \<Longrightarrow> inside l' (obind r f)"
  by (cases r) auto

lemma getn_bind: "(\<And>v. inside l (f v)) \<Longrightarrow> inside l (obind (getn s) f)"
  by (auto simp: getn_def syntax_err_def split: prod.split option.split list.split)

lemma binop_result_bind: "(\<And>v. inside l (f v)) \<Longrightarrow> inside l (obind (binop_result k op a b) f)"
  by (auto simp: binop_result_def intro: getn_bind)

lemma binop_inside:
  assumes "2 \<le> length (args S)"
  shows "inside (length (args S)) (binop k S)"
proof -
  obtain a b as where "args S = a # b # as" using assms by (cases "args S"; cases "tl (args S)") auto
  then show ?thesis
    by (auto simp: binop_def arg_at_def next_arg_def check_operator_def Let_def split: option.split intro!: binop_result_bind)
qed

lemma binop_type_arg: "op_type_of (last_operator (snd (check_operator (arg_at S i) S))) = Some t \<Longrightarrow> i < length (args S)"
  by (auto simp: check_operator_def arg_at_def op_type_of_def split: if_splits)

lemma primary_operand_inside:
  assumes "args S \<noteq> []"
  shows "inside (length (args S)) (primary_operand k n S)"
proof -
  obtain n1 S1 where c: "check_operator (arg_at S 1) S = (n1, S1)" by (cases "check_operator (arg_at S 1) S")
  then have a: "args S1 = args S" using check_operator_args [of "arg_at S 1" S] by simp
  have b: "op_type_of (last_operator S1) = Some BINOP \<Longrightarrow> 2 \<le> length (args S1)"
    using binop_type_arg [of S 1 BINOP] c a by simp
  have un: "arg_at S1 1 \<noteq> None \<Longrightarrow> next_arg S1 = Value (S1\<lparr>args := tl (args S1)\<rparr>) \<and> tl (args S1) \<noteq> []"
    using assms a by (auto simp: next_arg_def arg_at_None) (cases "args S"; simp)
  show ?thesis
    using b binop_inside [of S1 k] assms un a
    unfolding primary_operand_def Let_def c prod.case by (auto simp: arg_at_def intro!: getn_bind)
qed

lemma check_next_ok:
  assumes "args S \<noteq> []"
  obtains n S' where "check_next S = Value (n, S')" "args S' = tl (args S)" "n = EOI \<longleftrightarrow> args S' = []"
proof -
  let ?S = "S\<lparr>args := tl (args S)\<rparr>"
  have "check_next S = Value (check_operator (arg_at ?S 0) ?S)" using assms by (simp add: check_next_def next_arg_def)
  moreover have "fst (check_operator (arg_at ?S 0) ?S) = EOI \<longleftrightarrow> tl (args S) = []"
    using check_operator_EOI [of "arg_at ?S 0" ?S] by (cases "tl (args S)") (simp_all add: arg_at_def)
  ultimately show ?thesis
    using that [of "fst (check_operator (arg_at ?S 0) ?S)" "snd (check_operator (arg_at ?S 0) ?S)"] by simp
qed

lemma inside_next:
  assumes "args S \<noteq> []"
    and "\<And>n S'. Suc (length (args S')) = length (args S) \<Longrightarrow> n = EOI \<or> args S' \<noteq> [] \<Longrightarrow> inside l (f (n, S'))"
  shows "inside l (obind (check_next S) f)"
proof -
  obtain n S' where n: "check_next S = Value (n, S')" "args S' = tl (args S)" "n = EOI \<longleftrightarrow> args S' = []"
    by (rule check_next_ok [OF assms(1)])
  have "Suc (length (args S')) = length (args S)" using assms(1) n(2) by (cases "args S") simp_all
  then show ?thesis using assms(2) n by simp
qed

lemma inside_le: "inside l r \<Longrightarrow> l \<le> l' \<Longrightarrow> inside l' r"
  by (auto simp: inside_def split: outcome.splits)

text \<open>With enough fuel for the arguments that are left, every function of the descent stays inside.\<close>

definition descends :: "kernel \<Rightarrow> nat \<Rightarrow> bool" where
  "descends k f \<longleftrightarrow> (\<forall>n S. n = EOI \<or> args S \<noteq> [] \<longrightarrow>
     (4 * length (args S) + 2 \<le> f \<longrightarrow> inside (length (args S)) (nexpr k f n S))
   \<and> (4 * length (args S) + 3 \<le> f \<longrightarrow> inside (length (args S)) (aexpr k f n S))
   \<and> (4 * length (args S) + 4 \<le> f \<longrightarrow> inside (length (args S)) (oexpr k f n S))
   \<and> (4 * length (args S) + 1 \<le> f \<longrightarrow> inside (length (args S)) (primary k f n S)))"

lemma descendsD:
  assumes "descends k f" "n = EOI \<or> args S \<noteq> []" "length (args S) \<le> l"
  shows "4 * length (args S) + 2 \<le> f \<Longrightarrow> inside l (nexpr k f n S)"
    and "4 * length (args S) + 3 \<le> f \<Longrightarrow> inside l (aexpr k f n S)"
    and "4 * length (args S) + 4 \<le> f \<Longrightarrow> inside l (oexpr k f n S)"
    and "4 * length (args S) + 1 \<le> f \<Longrightarrow> inside l (primary k f n S)"
  using assms inside_le [OF _ assms(3)] unfolding descends_def by blast+

lemma descends_step:
  assumes D: "descends k f" and n: "n = EOI \<or> args S \<noteq> []"
  shows "4 * length (args S) + 2 \<le> Suc f \<Longrightarrow> inside (length (args S)) (nexpr k (Suc f) n S)"
    and "4 * length (args S) + 3 \<le> Suc f \<Longrightarrow> inside (length (args S)) (aexpr k (Suc f) n S)"
    and "4 * length (args S) + 4 \<le> Suc f \<Longrightarrow> inside (length (args S)) (oexpr k (Suc f) n S)"
    and "4 * length (args S) + 1 \<le> Suc f \<Longrightarrow> inside (length (args S)) (primary k (Suc f) n S)"
proof -
  let ?l = "length (args S)"
  note D' = descendsD [OF D]
  show "inside ?l (nexpr k (Suc f) n S)" if f: "4 * ?l + 2 \<le> Suc f"
  proof (cases "n = UNOT")
    case True
    then have ne: "args S \<noteq> []" using n by simp
    have "inside ?l (if m = EOI then Value (True, S'\<lparr>args := args S\<rparr>)
        else obind (nexpr k f m S') (\<lambda>(res, S'). Value (\<not> res, S')))"
      if "Suc (length (args S')) = ?l" "m = EOI \<or> args S' \<noteq> []" for m S'
      using that f ne by (auto intro!: inside_bind [OF D'(1) [OF that(2), of ?l]])
    then show ?thesis using True by (auto intro!: inside_next [OF ne])
  next
    case False
    then show ?thesis using f D'(4) [OF n order_refl] by simp
  qed
  show "inside ?l (aexpr k (Suc f) n S)" if f: "4 * ?l + 3 \<le> Suc f"
  proof -
    have last: "inside ?l (obind (aexpr k f m S') (\<lambda>(r, S'). Value (r \<and> res, S')))"
      if "m = EOI \<or> args S' \<noteq> []" "length (args S') < ?l" for m S' res
      using that(2) f by (intro inside_bind [OF D'(2) [OF that(1), of ?l]]) simp_all
    have "inside ?l (obind (check_next S1) (\<lambda>(n, S'). if n = BAND then
        obind (check_next S') (\<lambda>(n, S'). obind (aexpr k f n S') (\<lambda>(r, S'). Value (r \<and> res, S')))
        else Value (res, S'\<lparr>args := args S1\<rparr>)))" if ne: "args S1 \<noteq> []" and l: "length (args S1) \<le> ?l" for S1 res
      using l by (intro inside_next [OF ne]) (auto intro!: inside_next last simp: ne)
    then show ?thesis using f D'(1) [OF n order_refl] by (auto intro!: inside_bind)
  qed
  show "inside ?l (oexpr k (Suc f) n S)" if f: "4 * ?l + 4 \<le> Suc f"
  proof -
    have last: "inside ?l (obind (oexpr k f m S') (\<lambda>(r, S'). Value (r \<or> res, S')))"
      if "m = EOI \<or> args S' \<noteq> []" "length (args S') < ?l" for m S' res
      using that(2) f by (intro inside_bind [OF D'(3) [OF that(1), of ?l]]) simp_all
    have "inside ?l (obind (check_next S1) (\<lambda>(n, S'). if n = BOR then
        obind (check_next S') (\<lambda>(n, S'). obind (oexpr k f n S') (\<lambda>(r, S'). Value (r \<or> res, S')))
        else Value (res, S'\<lparr>args := args S1\<rparr>)))" if ne: "args S1 \<noteq> []" and l: "length (args S1) \<le> ?l" for S1 res
      using l by (intro inside_next [OF ne]) (auto intro!: inside_next last simp: ne)
    then show ?thesis using f D'(2) [OF n order_refl] by (auto intro!: inside_bind)
  qed
  show "inside ?l (primary k (Suc f) n S)" if f: "4 * ?l + 1 \<le> Suc f"
  proof (cases "n = LPAREN")
    case True
    then have ne: "args S \<noteq> []" using n by simp
    have close: "inside ?l (obind (check_next S') (\<lambda>(n, S'). if n \<noteq> RPAREN then syntax_err None ''closing paren expected''
        else Value (res, S')))" if "args S' \<noteq> []" "length (args S') \<le> ?l" for S' :: test_statics and res
      using that by (auto intro!: inside_next)
    have "inside ?l (obind (oexpr k f m S') (\<lambda>(res, S'). obind (check_next S') (\<lambda>(n, S').
        if n \<noteq> RPAREN then syntax_err None ''closing paren expected'' else Value (res, S'))))"
      if "m = EOI \<or> args S' \<noteq> []" "Suc (length (args S')) = ?l" for m S'
      using that f by (intro inside_bind [OF D'(3) [OF that(1), of ?l]]) (simp_all add: close)
    then show ?thesis using True by (auto intro!: inside_next [OF ne])
  next
    case False
    then show ?thesis using n primary_operand_inside [of S k n] by auto
  qed
qed

lemma descends: "descends k f"
proof (induction f)
  case 0
  then show ?case by (simp add: descends_def)
next
  case (Suc f)
  then show ?case unfolding descends_def [of k "Suc f"] by (intro allI impI conjI) (rule descends_step; assumption)+
qed

lemma binop_special_inside: "length argv = 3 \<Longrightarrow> binop_special k negate argv \<noteq> Outside"
  using binop_inside [of "\<lparr>args = argv, last_operator = None\<rparr>" k]
  by (auto simp: binop_special_def split: outcome.split)

lemma binop_special_status: "binop_special k negate argv = Status n \<Longrightarrow> n \<le> 1" "binop_special k negate argv \<noteq> General a"
  by (auto simp: binop_special_def split: outcome.splits)

definition special_ok :: "special \<Rightarrow> bool" where
  "special_ok r \<longleftrightarrow> (case r of Status n \<Rightarrow> n \<le> 1 | General a \<Rightarrow> a \<noteq> [] | Failed m \<Rightarrow> True | Outside \<Rightarrow> False)"

lemma binop_special_ok: "length argv = 3 \<Longrightarrow> special_ok (binop_special k negate argv)"
  using binop_special_inside [of argv k negate] binop_special_status [of k negate argv]
  by (cases "binop_special k negate argv") (auto simp: special_ok_def)

lemma special_cases_ok: "length argv \<le> length args1 \<Longrightarrow> special_ok (special_cases k negate args1 argv)"
proof (induction "length argv" arbitrary: negate args1 argv rule: less_induct)
  case less
  let ?cut = "length argv = 4 \<and> LONE_CHAR (argv ! 0) (CHR ''('') \<and> LONE_CHAR (argv ! 3) (CHR '')'')"
  let ?args = "if ?cut then butlast args1 else args1" and ?argv = "if ?cut then [argv ! 1, argv ! 2] else argv"
  show ?case
  proof (cases "length argv \<le> 1 \<or> length argv = 3
      \<and> op_type_of (last_operator (snd (check_operator (Some (argv ! 1)) \<lparr>args = argv, last_operator = None\<rparr>))) = Some BINOP")
    case True
    then show ?thesis using binop_special_ok [of argv k negate]
      by (subst special_cases.simps) (auto simp: special_ok_def le_Suc_eq)
  next
    case False
    have "length ?argv \<le> length ?args" "1 < length ?argv" using less.prems False by auto
    then have "?args \<noteq> []" "length (tl ?argv) \<le> length ?args" "length (tl ?argv) < length argv" using False by auto
    then have "special_ok (special_cases k (\<not> negate) ?args (tl ?argv))" "special_ok (General ?args)"
      using less.hyps [of "tl ?argv" ?args "\<not> negate"] by (simp_all only: special_ok_def special.case simp_thms)
    then have "special_ok (if LONE_CHAR (?argv ! 0) (CHR ''!'') then special_cases k (\<not> negate) ?args (tl ?argv) else General ?args)"
      by (simp only: if_split simp_thms)
    moreover have "argv \<noteq> []" "length argv \<noteq> 1" using False by auto
    moreover have "\<not> (length argv = 3 \<and> op_type_of (last_operator (snd (check_operator (Some (argv ! 1))
        \<lparr>args = argv, last_operator = None\<rparr>))) = Some BINOP)" using False by blast
    ultimately show ?thesis by (subst special_cases.simps) (simp only: Let_def if_False simp_thms)
  qed
qed

lemma test_general_inside:
  assumes "args1 \<noteq> []" "4 * length args1 + 4 \<le> f"
  shows "case test_general k f args1 of Value (n, m) \<Rightarrow> n \<le> 2 \<and> (m = [] \<or> n = 2) | Syntax m \<Rightarrow> True | _ \<Rightarrow> False"
proof -
  let ?S = "\<lparr>args = args1, last_operator = None\<rparr>"
  obtain n S where c: "check_operator (arg_at ?S 0) ?S = (n, S)" by (cases "check_operator (arg_at ?S 0) ?S")
  then have "args S = args1" using check_operator_args [of "arg_at ?S 0" ?S] by simp
  then have "inside (length args1) (oexpr k f n S)" using descendsD(3) [OF descends, of n S "length args1" f k] assms by simp
  then show ?thesis
    unfolding test_general_def Let_def c prod.case
    by (cases "oexpr k f n S") (auto simp: next_arg_def split: option.split)
qed

lemma test_args_returns: "\<exists>n m. test_args k argv = Value (n, m) \<and> n \<le> 2 \<and> (m = [] \<or> n = 2)"
proof (cases "special_cases k False argv argv")
  case (General a)
  then have "a \<noteq> []" using special_cases_ok [of argv argv k False] by (simp add: special_ok_def)
  from test_general_inside [OF this order_refl, of k] show ?thesis
    by (cases "test_general k (4 * length a + 4) a") (auto simp: test_args_def General)
qed (use special_cases_ok [of argv argv k False] in \<open>auto simp: test_args_def special_ok_def\<close>)

end
