(* ===== verification/Test_Correct.thy ===== *)
theory Test_Correct
  imports Test_Applet
begin

text \<open>
  What test computes: expressions as trees, the words they are written as and their value, and that
  \<open>test_main\<close> answers the words of an expression with its value, through the special cases and the parser.
\<close>

section \<open>Expressions\<close>

datatype texp = Opnd string | Unary string string | Binary string string string | Not texp | And texp texp | Or texp texp | Paren texp

fun words :: "texp \<Rightarrow> string list" where
  "words (Opnd s) = [s]"
| "words (Unary op s) = [op, s]"
| "words (Binary a op b) = [a, op, b]"
| "words (Not e) = ''!'' # words e"
| "words (And a b) = words a @ ''-a'' # words b"
| "words (Or a b) = words a @ ''-o'' # words b"
| "words (Paren e) = ''('' # words e @ ['')'']"

fun level :: "texp \<Rightarrow> nat" where
  "level (Or a b) = 0"
| "level (And a b) = 1"
| "level _ = 2"

text \<open>The token of a word and its entry in the table.\<close>

definition op_of :: "string \<Rightarrow> operator_t option" where
  "op_of s = (let n = index_in_strings ops_texts s in if n < 0 then None else Some (ops_table ! nat n))"

definition tok_of :: "string \<Rightarrow> token" where
  "tok_of s = (case op_of s of None \<Rightarrow> OPERAND | Some (t, ty) \<Rightarrow> t)"

definition unop_result :: "kernel \<Rightarrow> token \<Rightarrow> string \<Rightarrow> bool outcome" where
  "unop_result k op s =
     (if op = STREZ then Value (s = [])
      else if op = STRNZ then Value (s \<noteq> [])
      else if op = FILTT then obind (getn s) (\<lambda>r. Value (isatty k (ucast r)))
      else Value (filstat k s op))"

fun tval :: "kernel \<Rightarrow> texp \<Rightarrow> bool outcome" where
  "tval k (Opnd s) = Value (s \<noteq> [])"
| "tval k (Unary op s) = unop_result k (tok_of op) s"
| "tval k (Binary a op b) = binop_result k (tok_of op) a b"
| "tval k (Not e) = obind (tval k e) (\<lambda>x. Value (\<not> x))"
| "tval k (And a b) = obind (tval k a) (\<lambda>x. obind (tval k b) (\<lambda>y. Value (y \<and> x)))"
| "tval k (Or a b) = obind (tval k a) (\<lambda>x. obind (tval k b) (\<lambda>y. Value (y \<or> x)))"
| "tval k (Paren e) = tval k e"

text \<open>Operands that are not taken for operators, operands of connectives of a level that needs no parentheses, and no
  parentheses around exactly two words.\<close>

fun wft :: "texp \<Rightarrow> bool" where
  "wft (Opnd s) \<longleftrightarrow> s \<notin> set ops_texts \<and> no_nul s"
| "wft (Unary op s) \<longleftrightarrow> op_type_of (op_of op) = Some UNOP \<and> op_type_of (op_of s) \<noteq> Some BINOP"
| "wft (Binary a op b) \<longleftrightarrow> op_type_of (op_of op) = Some BINOP \<and> a \<noteq> ''!'' \<and> a \<noteq> ''('' \<and> no_nul a"
| "wft (Not e) \<longleftrightarrow> wft e \<and> 2 \<le> level e"
| "wft (And a b) \<longleftrightarrow> wft a \<and> 2 \<le> level a \<and> wft b \<and> 1 \<le> level b"
| "wft (Or a b) \<longleftrightarrow> wft a \<and> 1 \<le> level a \<and> wft b"
| "wft (Paren e) \<longleftrightarrow> wft e \<and> length (words e) \<noteq> 2"

section \<open>Reading the next word\<close>

definition start :: "string list \<Rightarrow> test_statics" where
  "start ws = \<lparr>args = ws, last_operator = (if ws = [] then None else op_of (hd ws))\<rparr>"

definition start_tok :: "string list \<Rightarrow> token" where
  "start_tok ws = (if ws = [] then EOI else tok_of (hd ws))"

lemma check_operator_Some: "check_operator (Some s) S = (tok_of s, S\<lparr>last_operator := op_of s\<rparr>)"
  by (simp add: check_operator_def tok_of_def op_of_def Let_def split_beta)

lemma check_next_start: "args S \<noteq> [] \<Longrightarrow> check_next S = Value (start_tok (tl (args S)), start (tl (args S)))"
  by (cases "tl (args S)")
    (simp_all add: check_next_def next_arg_def arg_at_def check_operator_Some start_def start_tok_def check_operator_def [of None])

lemma op_of_None: "op_of s = None \<longleftrightarrow> s \<notin> set ops_texts"
proof -
  have "[] \<notin> set ops_texts" by (simp add: ops_texts_def)
  then show ?thesis using index_none [of ops_texts s] index_in_strings_ge [of ops_texts s] by (auto simp: op_of_def Let_def)
qed

lemma ops_texts_distinct: "distinct ops_texts" "[] \<notin> set ops_texts" "length ops_texts = 40" "length ops_table = 40"
  by (simp_all add: ops_texts_def ops_table_def)

lemma op_of_nth: "i < 40 \<Longrightarrow> op_of (ops_texts ! i) = Some (ops_table ! i)"
  using index_in_strings_distinct [OF ops_texts_distinct(1,2), of i] by (simp add: op_of_def ops_texts_distinct)

lemma typ_words:
  "op_of ''!'' = Some (UNOT, BUNOP)" "op_of ''-a'' = Some (BAND, BBINOP)" "op_of ''-o'' = Some (BOR, BBINOP)"
  "op_of ''('' = Some (LPAREN, PAREN)" "op_of '')'' = Some (RPAREN, PAREN)"
  using op_of_nth [of 35] op_of_nth [of 36] op_of_nth [of 37] op_of_nth [of 38] op_of_nth [of 39]
  by (simp_all add: ops_texts_def ops_table_def)

lemma tok_words: "tok_of ''!'' = UNOT" "tok_of ''-a'' = BAND" "tok_of ''-o'' = BOR" "tok_of ''('' = LPAREN" "tok_of '')'' = RPAREN"
  by (simp_all add: tok_of_def typ_words)

lemma tok_of_cases:
  assumes "tok_of s \<in> {UNOT, BAND, BOR, LPAREN, RPAREN}"
  shows "(tok_of s, s) \<in> {(UNOT, ''!''), (BAND, ''-a''), (BOR, ''-o''), (LPAREN, ''(''), (RPAREN, '')'')}"
proof -
  have "op_of s \<noteq> None" using assms by (auto simp: tok_of_def split: option.splits)
  then obtain i where i: "i < 40" "s = ops_texts ! i" by (auto simp: op_of_None in_set_conv_nth ops_texts_distinct)
  have "list_all (\<lambda>(s, op). fst op \<in> {UNOT, BAND, BOR, LPAREN, RPAREN} \<longrightarrow>
      (fst op, s) \<in> {(UNOT, ''!''), (BAND, ''-a''), (BOR, ''-o''), (LPAREN, ''(''), (RPAREN, '')'')}) (zip ops_texts ops_table)"
    by (simp add: ops_texts_def ops_table_def)
  then have "fst (ops_table ! i) \<in> {UNOT, BAND, BOR, LPAREN, RPAREN} \<longrightarrow>
      (fst (ops_table ! i), s) \<in> {(UNOT, ''!''), (BAND, ''-a''), (BOR, ''-o''), (LPAREN, ''(''), (RPAREN, '')'')}"
    using i by (simp add: list_all_nth_iff ops_texts_distinct)
  moreover have "tok_of s = fst (ops_table ! i)" using op_of_nth [OF i(1)] i(2) by (simp add: tok_of_def split_beta)
  ultimately show ?thesis using assms by auto
qed

lemma tok_of_neq: "tok_of s = UNOT \<longleftrightarrow> s = ''!''" "tok_of s = LPAREN \<longleftrightarrow> s = ''(''" "tok_of s = BAND \<longleftrightarrow> s = ''-a''"
  "tok_of s = BOR \<longleftrightarrow> s = ''-o''" "tok_of s = RPAREN \<longleftrightarrow> s = '')''"
  using tok_of_cases [of s] tok_words by auto

lemma tok_of_EOI: "tok_of s \<noteq> EOI"
  using check_operator_EOI [of "Some s" S] by (simp add: check_operator_Some)

section \<open>Reading an expression\<close>

definition after :: "string set \<Rightarrow> string list \<Rightarrow> bool" where
  "after A r \<longleftrightarrow> r = [] \<or> hd r \<in> A"

text \<open>The outcome is a value and the pointer is left on the word \<open>w\<close> with \<open>r\<close> after it, or both fail alike.\<close>

definition reads :: "(bool \<times> test_statics) outcome \<Rightarrow> bool outcome \<Rightarrow> string \<Rightarrow> string list \<Rightarrow> bool" where
  "reads res v w r \<longleftrightarrow>
     (case v of Value b \<Rightarrow> (\<exists>S. res = Value (b, S) \<and> args S = w # r) | Syntax m \<Rightarrow> res = Syntax m | _ \<Rightarrow> False)"

lemma reads_bind:
  assumes "reads res v w r" "\<And>b S. args S = w # r \<Longrightarrow> reads (f (b, S)) (g b) w' r'"
  shows "reads (obind res f) (obind v g) w' r'"
proof (cases v)
  case (Value b)
  then obtain S where "res = Value (b, S)" "args S = w # r" using assms(1) by (auto simp: reads_def)
  then show ?thesis using Value assms(2) by simp
qed (use assms(1) in \<open>auto simp: reads_def\<close>)

lemma reads_Value: "args S = w # r \<Longrightarrow> reads (Value (b, S)) (Value b) w r"
  by (simp add: reads_def)

abbreviation nexpr_at :: "kernel \<Rightarrow> nat \<Rightarrow> string list \<Rightarrow> (bool \<times> test_statics) outcome" where
  "nexpr_at k f ws \<equiv> nexpr k f (start_tok ws) (start ws)"

abbreviation aexpr_at :: "kernel \<Rightarrow> nat \<Rightarrow> string list \<Rightarrow> (bool \<times> test_statics) outcome" where
  "aexpr_at k f ws \<equiv> aexpr k f (start_tok ws) (start ws)"

abbreviation oexpr_at :: "kernel \<Rightarrow> nat \<Rightarrow> string list \<Rightarrow> (bool \<times> test_statics) outcome" where
  "oexpr_at k f ws \<equiv> oexpr k f (start_tok ws) (start ws)"

definition parses2 :: "kernel \<Rightarrow> texp \<Rightarrow> bool" where
  "parses2 k e \<longleftrightarrow> (\<forall>r f. after {''-a'', ''-o'', '')''} r \<longrightarrow> 4 * length (words e @ r) + 2 \<le> f \<longrightarrow>
     reads (nexpr_at k f (words e @ r)) (tval k e) (last (words e)) r)"

definition parses1 :: "kernel \<Rightarrow> texp \<Rightarrow> bool" where
  "parses1 k e \<longleftrightarrow> (\<forall>r f. after {''-o'', '')''} r \<longrightarrow> 4 * length (words e @ r) + 3 \<le> f \<longrightarrow>
     reads (aexpr_at k f (words e @ r)) (tval k e) (last (words e)) r)"

definition parses0 :: "kernel \<Rightarrow> texp \<Rightarrow> bool" where
  "parses0 k e \<longleftrightarrow> (\<forall>r f. after {'')''} r \<longrightarrow> 4 * length (words e @ r) + 4 \<le> f \<longrightarrow>
     reads (oexpr_at k f (words e @ r)) (tval k e) (last (words e)) r)"

lemma words_not_Nil [simp]: "words e \<noteq> []"
  by (induction e) simp_all

lemma args_start [simp]: "args (start ws) = ws"
  by (simp add: start_def)

lemma start_tok_after: "after A r \<Longrightarrow> ''-a'' \<notin> A \<Longrightarrow> start_tok r \<noteq> BAND" "after A r \<Longrightarrow> ''-o'' \<notin> A \<Longrightarrow> start_tok r \<noteq> BOR"
  by (auto simp: start_tok_def after_def tok_of_neq)

lemma parses21: "parses2 k e \<Longrightarrow> parses1 k e"
  unfolding parses1_def
proof (intro allI impI)
  fix r f
  assume p: "parses2 k e" and a: "after {''-o'', '')''} r" and f: "4 * length (words e @ r) + 3 \<le> f"
  obtain g where g: "f = Suc g" "4 * length (words e @ r) + 2 \<le> g" using f by (cases f) auto
  have "reads (nexpr_at k g (words e @ r)) (tval k e) (last (words e)) r"
    using p a g(2) by (auto simp: parses2_def after_def)
  then have "reads (aexpr_at k f (words e @ r)) (obind (tval k e) Value) (last (words e)) r"
    unfolding g(1) aexpr.simps
    by (rule reads_bind) (use start_tok_after(1) [OF a] in \<open>simp add: check_next_start reads_Value\<close>)
  then show "reads (aexpr_at k f (words e @ r)) (tval k e) (last (words e)) r" by simp
qed

lemma parses10: "parses1 k e \<Longrightarrow> parses0 k e"
  unfolding parses0_def
proof (intro allI impI)
  fix r f
  assume p: "parses1 k e" and a: "after {'')''} r" and f: "4 * length (words e @ r) + 4 \<le> f"
  obtain g where g: "f = Suc g" "4 * length (words e @ r) + 3 \<le> g" using f by (cases f) auto
  have "reads (aexpr_at k g (words e @ r)) (tval k e) (last (words e)) r"
    using p a g(2) by (auto simp: parses1_def after_def)
  then have "reads (oexpr_at k f (words e @ r)) (obind (tval k e) Value) (last (words e)) r"
    unfolding g(1) oexpr.simps
    by (rule reads_bind) (use start_tok_after(2) [OF a] in \<open>simp add: check_next_start reads_Value\<close>)
  then show "reads (oexpr_at k f (words e @ r)) (tval k e) (last (words e)) r" by simp
qed

lemma parses_And:
  assumes "parses2 k a" "parses1 k b"
  shows "parses1 k (And a b)"
  unfolding parses1_def
proof (intro allI impI)
  fix r f
  assume r: "after {''-o'', '')''} r" and f: "4 * length (words (And a b) @ r) + 3 \<le> f"
  let ?r = "''-a'' # words b @ r"
  obtain g where g: "f = Suc g" using f by (cases f) auto
  have "reads (nexpr_at k g (words a @ ?r)) (tval k a) (last (words a)) ?r"
    using assms(1) f g unfolding parses2_def after_def by simp
  moreover have "reads (aexpr_at k g (words b @ r)) (tval k b) (last (words b)) r"
    using assms(2) f g r unfolding parses1_def by simp
  ultimately show "reads (aexpr_at k f (words (And a b) @ r)) (tval k (And a b)) (last (words (And a b))) r"
    unfolding g aexpr.simps tval.simps
    by (auto intro!: reads_bind reads_Value simp: check_next_start start_tok_def tok_words)
qed

lemma parses_Or:
  assumes "parses1 k a" "parses0 k b"
  shows "parses0 k (Or a b)"
  unfolding parses0_def
proof (intro allI impI)
  fix r f
  assume r: "after {'')''} r" and f: "4 * length (words (Or a b) @ r) + 4 \<le> f"
  let ?r = "''-o'' # words b @ r"
  obtain g where g: "f = Suc g" using f by (cases f) auto
  have "reads (aexpr_at k g (words a @ ?r)) (tval k a) (last (words a)) ?r"
    using assms(1) f g unfolding parses1_def after_def by simp
  moreover have "reads (oexpr_at k g (words b @ r)) (tval k b) (last (words b)) r"
    using assms(2) f g r unfolding parses0_def by simp
  ultimately show "reads (oexpr_at k f (words (Or a b) @ r)) (tval k (Or a b)) (last (words (Or a b))) r"
    unfolding g oexpr.simps tval.simps
    by (auto intro!: reads_bind reads_Value simp: check_next_start start_tok_def tok_words)
qed

lemma parses_Not:
  assumes "parses2 k e"
  shows "parses2 k (Not e)"
  unfolding parses2_def
proof (intro allI impI)
  fix r f
  assume r: "after {''-a'', ''-o'', '')''} r" and f: "4 * length (words (Not e) @ r) + 2 \<le> f"
  obtain g where g: "f = Suc g" using f by (cases f) auto
  have "reads (nexpr_at k g (words e @ r)) (tval k e) (last (words e)) r"
    using assms f g r unfolding parses2_def by simp
  then show "reads (nexpr_at k f (words (Not e) @ r)) (tval k (Not e)) (last (words (Not e))) r"
    unfolding g nexpr.simps tval.simps
    by (auto intro!: reads_bind reads_Value simp: check_next_start start_tok_def tok_words tok_of_EOI)
qed

lemma parses_primary:
  assumes "words e = w # ws" "w \<noteq> ''!''"
    and "\<And>r f. after {''-a'', ''-o'', '')''} r \<Longrightarrow> 4 * length (words e @ r) + 1 \<le> f \<Longrightarrow>
      reads (primary k f (tok_of w) (start (words e @ r))) (tval k e) (last (words e)) r"
  shows "parses2 k e"
  unfolding parses2_def
proof (intro allI impI)
  fix r f
  assume r: "after {''-a'', ''-o'', '')''} r" and f: "4 * length (words e @ r) + 2 \<le> f"
  obtain g where g: "f = Suc g" "4 * length (words e @ r) + 1 \<le> g" using f by (cases f) auto
  have "start_tok (words e @ r) = tok_of w" by (simp add: start_tok_def assms(1))
  then show "reads (nexpr_at k f (words e @ r)) (tval k e) (last (words e)) r"
    using assms(3) [OF r g(2)] assms(2) unfolding g(1) by (simp add: tok_of_neq)
qed

lemma parses_Paren:
  assumes "parses0 k e"
  shows "parses2 k (Paren e)"
proof (rule parses_primary [of _ "''(''" "words e @ ['')'']"])
  fix r f
  assume "after {''-a'', ''-o'', '')''} r" and f: "4 * length (words (Paren e) @ r) + 1 \<le> f"
  obtain g where g: "f = Suc g" using f by (cases f) auto
  have "reads (oexpr_at k g (words e @ '')'' # r)) (tval k e) (last (words e)) ('')'' # r)"
    using assms f g unfolding parses0_def after_def by simp
  then have "reads (primary k f (tok_of ''('') (start (words (Paren e) @ r))) (obind (tval k e) Value) '')'' r"
    unfolding g primary.simps
    by (auto intro!: reads_bind reads_Value simp del: obind_simps(1) simp: check_next_start start_tok_def tok_words)
  then show "reads (primary k f (tok_of ''('') (start (words (Paren e) @ r))) (tval k (Paren e)) (last (words (Paren e))) r"
    by simp
qed simp_all

lemma primary_at: "w \<noteq> ''('' \<Longrightarrow> 0 < f \<Longrightarrow> primary k f (tok_of w) S = primary_operand k (tok_of w) S"
  by (cases f) (simp_all add: tok_of_EOI tok_of_neq)

lemma check_operator_1: "check_operator (arg_at S 1) S
    = (if 1 < length (args S) then (tok_of (args S ! 1), S\<lparr>last_operator := op_of (args S ! 1)\<rparr>) else (EOI, S\<lparr>last_operator := None\<rparr>))"
  by (simp add: arg_at_def check_operator_Some check_operator_def [of None])

lemma reads_obind_Value: "v \<noteq> Beyond \<Longrightarrow> v \<noteq> No_fuel \<Longrightarrow> args S = w # r \<Longrightarrow> reads (obind v (\<lambda>b. Value (b, S))) v w r"
  by (cases v) (simp_all add: reads_def)

lemma getn_returns: "getn s \<noteq> Beyond" "getn s \<noteq> No_fuel"
  by (auto simp: getn_def syntax_err_def split: prod.split option.split list.split)

lemma binop_result_returns: "binop_result k op a b \<noteq> Beyond" "binop_result k op a b \<noteq> No_fuel"
  using getn_returns [of a] getn_returns [of b] by (cases "getn a"; cases "getn b"; simp add: binop_result_def)+

lemma unop_result_returns: "unop_result k op a \<noteq> Beyond" "unop_result k op a \<noteq> No_fuel"
  using getn_returns [of a] by (cases "getn a"; simp add: unop_result_def)+

lemma binop_at: "args S = a # op # b # r \<Longrightarrow> reads (binop k S) (binop_result k (tok_of op) a b) b r"
  by (simp add: binop_def arg_at_def next_arg_def check_operator_Some reads_obind_Value binop_result_returns)

lemma primary_operand_one:
  "args S = [w] \<Longrightarrow> primary_operand k n S = Value (w \<noteq> [], S\<lparr>last_operator := None\<rparr>)"
  unfolding primary_operand_def check_operator_1 Let_def by (simp add: arg_at_def op_type_of_def)

lemma primary_operand_more:
  assumes "args S = w # x # r"
  shows "primary_operand k n S =
    (let S1 = S\<lparr>last_operator := op_of x\<rparr>
     in if r \<noteq> [] \<and> op_type_of (op_of x) = Some BINOP then binop k S1
        else if op_type_of (last_operator S) = Some UNOP then obind (unop_result k n x) (\<lambda>b. Value (b, S1\<lparr>args := x # r\<rparr>))
        else if op_type_of (op_of x) = Some BINOP then binop k S1
        else Value (w \<noteq> [], S1))"
  using assms unfolding primary_operand_def check_operator_1 Let_def
  by (auto simp: arg_at_def next_arg_def unop_result_def tok_of_EOI)

lemma parses_Binary:
  assumes "wft (Binary a op b)"
  shows "parses2 k (Binary a op b)"
proof (rule parses_primary [of _ a "[op, b]"])
  fix r f
  assume "4 * length (words (Binary a op b) @ r) + 1 \<le> f"
  then have "0 < f" by simp
  then show "reads (primary k f (tok_of a) (start (words (Binary a op b) @ r))) (tval k (Binary a op b)) (last (words (Binary a op b))) r"
    using assms by (simp add: primary_at primary_operand_more Let_def binop_at)
qed (use assms in simp_all)

lemma unop_word: "op_type_of (op_of op) = Some UNOP \<Longrightarrow> op \<noteq> ''!'' \<and> op \<noteq> ''(''"
  using typ_words by (auto simp: op_type_of_def)

lemma parses_Unary:
  assumes "wft (Unary op s)"
  shows "parses2 k (Unary op s)"
proof (rule parses_primary [of _ op "[s]"])
  fix r f
  assume "4 * length (words (Unary op s) @ r) + 1 \<le> f"
  then have f: "0 < f" by simp
  have "reads (primary_operand k (tok_of op) (start (op # s # r))) (unop_result k (tok_of op) s) s r"
    using assms by (simp add: primary_operand_more Let_def start_def reads_obind_Value unop_result_returns)
  then show "reads (primary k f (tok_of op) (start (words (Unary op s) @ r))) (tval k (Unary op s)) (last (words (Unary op s))) r"
    using assms unop_word [of op] by (simp add: primary_at f)
qed (use assms unop_word [of op] in simp_all)

lemma parses_Opnd:
  assumes "s \<notin> set ops_texts"
  shows "parses2 k (Opnd s)"
proof (rule parses_primary [of _ s "[]"])
  fix r f
  assume r: "after {''-a'', ''-o'', '')''} r" and "4 * length (words (Opnd s) @ r) + 1 \<le> f"
  then have f: "0 < f" by simp
  have n: "op_of s = None" "s \<noteq> ''(''" using assms op_of_None [of s] by (auto simp: ops_texts_def)
  have "r \<noteq> [] \<Longrightarrow> op_type_of (op_of (hd r)) = Some BBINOP \<or> op_type_of (op_of (hd r)) = Some PAREN"
    using r by (auto simp: after_def op_type_of_def typ_words)
  then have "reads (primary_operand k (tok_of s) (start (s # r))) (Value (s \<noteq> [])) s r"
    using n(1) by (cases r)
      (auto simp: primary_operand_one primary_operand_more Let_def start_def op_type_of_def intro!: reads_Value)
  then show "reads (primary k f (tok_of s) (start (words (Opnd s) @ r))) (tval k (Opnd s)) (last (words (Opnd s))) r"
    using n(2) by (simp add: primary_at f)
qed (use assms in \<open>auto simp: ops_texts_def\<close>)

lemma parses: "wft e \<Longrightarrow> (2 \<le> level e \<longrightarrow> parses2 k e) \<and> (1 \<le> level e \<longrightarrow> parses1 k e) \<and> parses0 k e"
proof (induction e)
  case (Opnd s)
  then show ?case using parses_Opnd [of s k] parses21 parses10 by auto
next
  case (Unary op s)
  then show ?case using parses_Unary [of op s k] parses21 parses10 by blast
next
  case (Binary a op b)
  then show ?case using parses_Binary [of a op b k] parses21 parses10 by blast
next
  case (Not e)
  then show ?case using parses_Not [of k e] parses21 parses10 by auto
next
  case (And a b)
  then show ?case using parses_And [of k a b] parses10 by auto
next
  case (Or a b)
  then show ?case using parses_Or [of k a b] by auto
next
  case (Paren e)
  then show ?case using parses_Paren [of k e] parses21 parses10 by auto
qed

lemma test_general_words:
  assumes "wft e"
  shows "test_general k (4 * length (words e) + 4) (words e) = obind (tval k e) (\<lambda>b. Value (of_bool (\<not> b), []))"
proof -
  have "reads (oexpr_at k (4 * length (words e) + 4) (words e)) (tval k e) (last (words e)) []"
    using parses [OF assms, of k] unfolding parses0_def after_def
    by (metis append_Nil2 order_refl)
  moreover have "check_operator (arg_at \<lparr>args = words e, last_operator = None\<rparr> 0) \<lparr>args = words e, last_operator = None\<rparr>
      = (start_tok (words e), start (words e))"
    by (simp add: arg_at_def check_operator_Some start_def start_tok_def hd_conv_nth)
  ultimately show ?thesis
    by (cases "tval k e") (auto simp: test_general_def reads_def next_arg_def arg_at_def)
qed

section \<open>The special cases agree with the parser\<close>

lemma ops_texts_no_nul: "s \<in> set ops_texts \<Longrightarrow> no_nul s"
  by (auto simp: ops_texts_def)

lemma hd_no_nul: "wft e \<Longrightarrow> no_nul (hd (words e))"
proof (induction e)
  case (Unary op s)
  then have "op \<in> set ops_texts" using op_of_None [of op] by (auto simp: op_type_of_def)
  then show ?case using ops_texts_no_nul by simp
qed simp_all

lemma LONE_CHAR_iff: "no_nul s \<Longrightarrow> c \<noteq> NUL \<Longrightarrow> LONE_CHAR s c \<longleftrightarrow> s = [c]"
  by (cases s; cases "tl s") (auto simp: LONE_CHAR_def)

lemma length_words: "1 \<le> length (words e)"
  using words_not_Nil [of e] by (cases "words e") auto

lemma one_word: "length (words e) = 1 \<Longrightarrow> \<exists>s. e = Opnd s"
  using length_words by (cases e) (auto simp: le_Suc_eq)

lemma two_words: "length (words e) = 2 \<Longrightarrow> (\<exists>op s. e = Unary op s) \<or> (\<exists>s. e = Not (Opnd s))"
proof (cases e)
  case (And a b) then show "length (words e) = 2 \<Longrightarrow> ?thesis" using length_words [of a] length_words [of b] by simp
next
  case (Or a b) then show "length (words e) = 2 \<Longrightarrow> ?thesis" using length_words [of a] length_words [of b] by simp
qed (use one_word in auto)

lemma three_words:
  assumes "wft e" "length (words e) = 3" "op_type_of (op_of (words e ! 1)) = Some BINOP"
  shows "\<exists>a op b. e = Binary a op b"
proof (cases e)
  case (Not e')
  then have "length (words e') = 2" using assms(2) by simp
  then show ?thesis using two_words [of e'] assms Not by (auto simp: op_type_of_def typ_words)
next
  case (And a b)
  then have "length (words a) = 1" "length (words b) = 1" using assms(2) length_words [of a] length_words [of b] by simp_all
  then show ?thesis using assms And by (auto simp: nth_append op_type_of_def typ_words)
next
  case (Or a b)
  then have "length (words a) = 1" "length (words b) = 1" using assms(2) length_words [of a] length_words [of b] by simp_all
  then show ?thesis using assms Or by (auto simp: nth_append op_type_of_def typ_words)
next
  case (Paren e')
  then obtain s where "e' = Opnd s" using assms(2) one_word [of e'] by auto
  then show ?thesis using assms Paren op_of_None [of s] by (auto simp: op_type_of_def)
qed (use assms(2) in auto)

lemma paren_words: "wft e \<Longrightarrow> hd (words e) = ''('' \<Longrightarrow> length (words e) \<noteq> 4 \<and> 3 \<le> length (words e)"
proof -
  have sub: "hd (words e) = ''('' \<Longrightarrow> wft e \<Longrightarrow> 3 \<le> length (words e)" for e
  proof (induction e)
    case (Opnd s) then show ?case by (simp add: ops_texts_def)
  next
    case (Unary op s) then show ?case using unop_word [of op] by simp
  next
    case (Paren e) then show ?case using length_words [of e] by simp
  qed simp_all
  show "wft e \<Longrightarrow> hd (words e) = ''('' \<Longrightarrow> ?thesis"
  proof (cases e)
    case (And a b)
    assume "wft e" "hd (words e) = ''(''"
    then show ?thesis using And sub [of a] length_words [of b] by simp
  next
    case (Or a b)
    assume "wft e" "hd (words e) = ''(''"
    then show ?thesis using Or sub [of a] length_words [of b] by simp
  next
    case (Paren a)
    assume "wft e"
    then show ?thesis using Paren length_words [of a] by simp
  qed (use sub [of e] in auto)
qed

lemma not_head: "wft e \<Longrightarrow> 2 \<le> level e \<Longrightarrow> hd (words e) = ''!'' \<Longrightarrow> \<exists>e'. e = Not e'"
  using unop_word by (cases e) (auto simp: ops_texts_def)

lemma strip_not:
  "wft e \<Longrightarrow> hd (words e) = ''!'' \<Longrightarrow> level e < 2 \<Longrightarrow> \<exists>e'. wft e' \<and> words e' = tl (words e) \<and> level e' = level e"
proof (induction e)
  case (And a b)
  then obtain a' where a: "a = Not a'" using not_head [of a] by auto
  then show ?case using And by (intro exI [of _ "And a' b"]) simp
next
  case (Or a b)
  show ?case
  proof (cases "level a < 2")
    case True
    then obtain a' where "wft a'" "words a' = tl (words a)" "level a' = level a" using Or by auto
    then show ?thesis using Or by (intro exI [of _ "Or a' b"]) simp
  next
    case False
    then obtain a' where a: "a = Not a'" using Or not_head [of a] by auto
    then show ?thesis using Or by (intro exI [of _ "Or a' b"]) simp
  qed
qed simp_all

definition answer :: "bool \<Rightarrow> bool outcome \<Rightarrow> special" where
  "answer neg v = (case v of Value b \<Rightarrow> Status (of_bool ((\<not> b) \<noteq> neg)) | Syntax m \<Rightarrow> Failed m | _ \<Rightarrow> Outside)"

lemma special_step:
  assumes "wft e" "2 \<le> length (words e)" "\<not> (\<exists>a op b. e = Binary a op b)"
  shows "special_cases k neg args1 (words e)
    = (if hd (words e) = ''!'' then special_cases k (\<not> neg) args1 (tl (words e)) else General args1)"
proof -
  have b: "\<not> (length (words e) = 3 \<and> op_type_of (op_of (words e ! 1)) = Some BINOP)"
    using three_words [OF assms(1)] assms(3) by blast
  have h: "LONE_CHAR (words e ! 0) c \<longleftrightarrow> hd (words e) = [c]" if "c \<noteq> NUL" for c
    using LONE_CHAR_iff [OF hd_no_nul [OF assms(1)] that] by (simp add: hd_conv_nth)
  have c: "\<not> (length (words e) = 4 \<and> LONE_CHAR (words e ! 0) (CHR ''('') \<and> LONE_CHAR (words e ! 3) (CHR '')''))"
    using paren_words [OF assms(1)] h by auto
  have "length (words e) \<noteq> 1" using assms(2) by simp
  then show ?thesis
    using b c h [of "CHR ''!''"] by (subst special_cases.simps) (simp only: check_operator_Some snd_conv test_statics.simps
        Let_def if_False words_not_Nil simp_thms char.inject)
qed

lemma special_words:
  "wft e \<Longrightarrow> special_cases k neg args1 (words e) = General args1
    \<or> 2 \<le> level e \<and> special_cases k neg args1 (words e) = answer neg (tval k e)"
proof (induction "length (words e)" arbitrary: e neg rule: less_induct)
  case less
  show ?case
  proof (cases "length (words e) = 1 \<or> (\<exists>a op b. e = Binary a op b)")
    case True
    then consider s where "e = Opnd s" | a op b where "e = Binary a op b" using one_word [of e] by blast
    then show ?thesis
    proof cases
      case 1
      then show ?thesis by (simp add: special_cases.simps answer_def)
    next
      case 2
      then have w: "op_type_of (op_of op) = Some BINOP" using less.prems by simp
      have "reads (binop k \<lparr>args = words e, last_operator = None\<rparr>) (tval k e) b []" using 2 binop_at by simp
      then have "binop_special k neg (words e) = answer neg (tval k e)"
        by (cases "tval k e") (auto simp: reads_def binop_special_def answer_def)
      then show ?thesis using 2 w by (simp add: special_cases.simps check_operator_Some)
    qed
  next
    case False
    then have st: "special_cases k neg args1 (words e)
        = (if hd (words e) = ''!'' then special_cases k (\<not> neg) args1 (tl (words e)) else General args1)"
      using special_step [OF less.prems] length_words [of e] by auto
    show ?thesis
    proof (cases "hd (words e) = ''!''")
      case True
      show ?thesis
      proof (cases "level e < 2")
        case lv: True
        then obtain e' where e': "wft e'" "words e' = tl (words e)" "level e' = level e"
          using strip_not [OF less.prems True] by blast
        have "length (words e') < length (words e)" using e'(2) length_words [of e] by simp
        then show ?thesis using less.hyps [OF _ e'(1), of "\<not> neg"] e' st True lv by auto
      next
        case False
        then obtain e' where e: "e = Not e'" using not_head [OF less.prems] True by auto
        have "answer neg (tval k e) = answer (\<not> neg) (tval k e')" by (cases "tval k e'") (auto simp: e answer_def)
        then show ?thesis using less.hyps [of e' "\<not> neg"] less.prems st True e by auto
      qed
    qed (use st in simp)
  qed
qed

lemma test_args_words:
  assumes "wft e"
  shows "test_args k (words e) = (case tval k e of Value b \<Rightarrow> Value (of_bool (\<not> b), []) | Syntax m \<Rightarrow> Value (2, m) | v \<Rightarrow> Beyond)"
proof -
  have "tval k e \<noteq> Beyond \<and> tval k e \<noteq> No_fuel"
    using parses [OF assms, of k] unfolding parses0_def after_def reads_def by (auto split: outcome.splits dest!: spec [of _ "[]"])
  then show ?thesis
    using special_words [OF assms, of k False "words e"] test_general_words [OF assms, of k]
    by (cases "tval k e") (auto simp: test_args_def answer_def)
qed

section \<open>Properties\<close>


definition no_files :: kernel where
  "no_files = \<lparr>stat_of = \<lambda>_. None, lstat_of = \<lambda>_. None, isatty = \<lambda>_. False, getgid = 0, getegid = 0, geteuid = 0, getgroups = []\<rparr>"


text \<open>C34. \<open>test\<close> comes to an end for every argument vector with a status of at most 2, a message exactly with a status
  of 2 only, and its parser never moves past the end of the arguments.\<close>

theorem test_main_returns: "\<exists>n m. test_main k (arg0 # argv) = Value (n, m) \<and> n \<le> 2 \<and> (m = [] \<or> n = 2)"
  using test_args_returns [of k argv] test_args_returns [of k "butlast argv"]
  unfolding test_main_def list.case Let_def by auto



end
