(* ===== verification/Awk_Hash.thy ===== *)
theory Awk_Hash
  imports Prelude "HOL-Library.Multiset"
begin

text \<open>
  The associative arrays of awk, \<^verbatim>\<open>editors/awk.c\<close>: the chained hash table with its growth, removal and
  clearing, and the walk over the names of an array that a for-in loop takes.  A chain is the list of its
  items; the data behind the pointer that \<open>hash_search\<close> and \<open>hash_find\<close> return are written with \<open>hash_store\<close>.
  The interface that the rest of awk relies on is the locale \<open>assoc_array\<close>.
\<close>

section \<open>The table\<close>

type_synonym 'v hash_item = "string \<times> 'v"

record 'v xhash =
  nel :: u32
  csize :: u32
  nprime :: nat
  glen :: u32
  items :: "'v hash_item list list"

definition FIRST_PRIME :: u32 where
  "FIRST_PRIME = 61"

definition PRIMES :: "u32 list" where
  "PRIMES = [251, 1021, 4093, 16381, 65521]"

text \<open>\<^verbatim>\<open>char\<close> is signed.\<close>

definition hashidx :: "string \<Rightarrow> u32" where
  "hashidx name = foldl (\<lambda>idx c. scast (of_nat (code c) :: u8) + shl idx 6 - idx) 0 name"

definition bucket :: "u32 \<Rightarrow> string \<Rightarrow> nat" where
  "bucket csize1 name = unat (hashidx name mod csize1)"

definition hash_init :: "'v xhash" where
  "hash_init = \<lparr>nel = 0, csize = FIRST_PRIME, nprime = 0, glen = 0, items = replicate (unat FIRST_PRIME) []\<rparr>"

fun chain_search :: "'v hash_item list \<Rightarrow> string \<Rightarrow> 'v option" where
  "chain_search [] name = None"
| "chain_search (hi # rest) name = (if fst hi = name then Some (snd hi) else chain_search rest name)"

definition hash_search :: "'v xhash \<Rightarrow> string \<Rightarrow> 'v option" where
  "hash_search hash name = chain_search (items hash ! bucket (csize hash) name) name"

definition push_item :: "u32 \<Rightarrow> 'v hash_item list list \<Rightarrow> 'v hash_item \<Rightarrow> 'v hash_item list list" where
  "push_item newsize newitems thi =
     (let idx = bucket newsize (fst thi) in newitems[idx := thi # newitems ! idx])"

definition hash_rebuild :: "'v xhash \<Rightarrow> 'v xhash" where
  "hash_rebuild hash =
     (if nprime hash = length PRIMES then hash
      else
        (let newsize = PRIMES ! nprime hash;
             newitems = foldl (foldl (push_item newsize)) (replicate (unat newsize) []) (items hash)
         in hash\<lparr>nprime := nprime hash + 1, csize := newsize, items := newitems\<rparr>))"

definition hash_find :: "'v \<Rightarrow> 'v xhash \<Rightarrow> string \<Rightarrow> 'v xhash" where
  "hash_find zero hash name =
     (if hash_search hash name \<noteq> None then hash
      else
        (let hash = hash\<lparr>nel := nel hash + 1\<rparr>;
             hash = (if nel hash div csize hash > 10 then hash_rebuild hash else hash);
             l = of_nat (length name) + 1
         in hash\<lparr>items := push_item (csize hash) (items hash) (name, zero), glen := glen hash + l\<rparr>))"

fun chain_store :: "'v hash_item list \<Rightarrow> string \<Rightarrow> 'v \<Rightarrow> 'v hash_item list" where
  "chain_store [] name v = []"
| "chain_store (hi # rest) name v = (if fst hi = name then (fst hi, v) # rest else hi # chain_store rest name v)"

definition hash_store :: "'v \<Rightarrow> 'v xhash \<Rightarrow> string \<Rightarrow> 'v \<Rightarrow> 'v xhash" where
  "hash_store zero hash name v =
     (let hash = hash_find zero hash name;
          idx = bucket (csize hash) name
      in hash\<lparr>items := (items hash)[idx := chain_store (items hash ! idx) name v]\<rparr>)"

fun chain_remove :: "'v hash_item list \<Rightarrow> string \<Rightarrow> 'v hash_item list" where
  "chain_remove [] name = []"
| "chain_remove (hi # rest) name = (if fst hi = name then rest else hi # chain_remove rest name)"

definition hash_remove :: "'v xhash \<Rightarrow> string \<Rightarrow> 'v xhash" where
  "hash_remove hash name =
     (let idx = bucket (csize hash) name
      in if chain_search (items hash ! idx) name = None then hash
         else hash\<lparr>items := (items hash)[idx := chain_remove (items hash ! idx) name],
                   glen := glen hash - (of_nat (length name) + 1), nel := nel hash - 1\<rparr>)"

definition clear_array :: "'v xhash \<Rightarrow> 'v xhash" where
  "clear_array array = array\<lparr>items := map (\<lambda>_. []) (items array), glen := 0, nel := 0\<rparr>"

section \<open>The walk\<close>

text \<open>\<open>walker\<close> is the linked list of the walkers of the loop variable, the innermost loop first.  The buffer of a walker
  has its declared byte and the \<^verbatim>\<open>glen + 1\<close> allocated ones; copying past it, and stepping with no walker, is \<open>None\<close>.
  \<open>wbuf\<close> is the text up to \<^verbatim>\<open>end\<close>.\<close>

record walker_list =
  wbuf :: string
  cur :: nat

record var =
  vf_walk :: bool
  string_val :: string
  walker :: "walker_list list"

definition hashwalk_init :: "var \<Rightarrow> 'v xhash \<Rightarrow> var option" where
  "hashwalk_init v array =
     (let prev_walker = (if vf_walk v then walker v else []);
          text = concat (map (\<lambda>hi. fst hi @ [NUL]) (concat (items array)))
      in if length text > unat (glen array) + 2 then None
         else Some (v\<lparr>vf_walk := True, walker := \<lparr>wbuf = text, cur = 0\<rparr> # prev_walker\<rparr>))"

definition nextword :: "string \<Rightarrow> nat \<Rightarrow> string \<times> nat" where
  "nextword s p = (let w = takeWhile (\<lambda>c. c \<noteq> NUL) (drop p s) in (w, p + length w + 1))"

definition hashwalk_next :: "var \<Rightarrow> (bool \<times> var) option" where
  "hashwalk_next v =
     (case walker v of
        [] \<Rightarrow> None
      | w # prev_walker \<Rightarrow>
          if cur w \<ge> length (wbuf w) then Some (False, v\<lparr>walker := prev_walker\<rparr>)
          else case nextword (wbuf w) (cur w) of
            (s, p) \<Rightarrow> Some (True, v\<lparr>string_val := s, walker := w\<lparr>cur := p\<rparr> # prev_walker\<rparr>))"

text \<open>The loop of \<^verbatim>\<open>OC_WALKNEXT\<close> over a body that leaves the variable alone: the values it sees, and the variable
  after it.\<close>

function walk :: "var \<Rightarrow> (string list \<times> var) option" where
  "walk v =
     (case hashwalk_next v of
        None \<Rightarrow> None
      | Some (False, v') \<Rightarrow> Some ([], v')
      | Some (True, v') \<Rightarrow> (case walk v' of None \<Rightarrow> None | Some (names, v'') \<Rightarrow> Some (string_val v' # names, v'')))"
  by pat_completeness auto
termination
  by (relation "measure (\<lambda>v. length (wbuf (hd (walker v))) - cur (hd (walker v)))")
    (auto simp: hashwalk_next_def nextword_def Let_def split: if_splits list.splits)

declare walk.simps [simp del]

section \<open>The invariant\<close>

text \<open>Every item is in the chain of its name, no name occurs twice, and the two counters are those of the items, up to
  the width of \<^verbatim>\<open>unsigned\<close>.\<close>

definition placed :: "u32 \<Rightarrow> 'v hash_item list list \<Rightarrow> bool" where
  "placed cs its \<longleftrightarrow> length its = unat cs \<and> cs \<noteq> 0 \<and> (\<forall>i < length its. \<forall>hi \<in> set (its ! i). bucket cs (fst hi) = i)"

definition entries :: "'v xhash \<Rightarrow> 'v hash_item list" where
  "entries h = concat (items h)"

definition item_len :: "'v hash_item \<Rightarrow> nat" where
  "item_len hi = length (fst hi) + 1"

definition hash_inv :: "'v xhash \<Rightarrow> bool" where
  "hash_inv h \<longleftrightarrow> placed (csize h) (items h) \<and> distinct (map fst (entries h)) \<and> nprime h \<le> length PRIMES
     \<and> nel h = of_nat (length (entries h)) \<and> glen h = of_nat (sum_list (map item_len (entries h)))"

lemma chain_search_map_of: "chain_search ch n = map_of ch n"
  by (induction ch) auto

lemma bucket_less: "placed cs its \<Longrightarrow> bucket cs n < length its"
  unfolding placed_def bucket_def by (simp add: unat_mod unat_gt_0)

lemma mset_concat_update:
  assumes "i < length its"
  shows "mset (concat (its[i := ch])) + mset (its ! i) = mset (concat its) + mset ch"
proof -
  have "concat its = concat (take i its) @ its ! i @ concat (drop (Suc i) its)"
    using id_take_nth_drop [OF assms] by (metis concat.simps(2) concat_append)
  moreover have "concat (its[i := ch]) = concat (take i its) @ ch @ concat (drop (Suc i) its)"
    using assms by (simp add: upd_conv_take_nth_drop)
  ultimately show ?thesis by simp
qed

lemma placed_update:
  assumes "placed cs its" "\<And>hi. hi \<in> set ch \<Longrightarrow> bucket cs (fst hi) = i"
  shows "placed cs (its[i := ch])"
proof -
  have "bucket cs (fst hi) = j" if "j < length its" "hi \<in> set (its[i := ch] ! j)" for j hi
    using assms that unfolding placed_def by (cases "j = i") auto
  then show ?thesis using assms(1) by (simp add: placed_def)
qed

lemma placed_chain: "placed cs its \<Longrightarrow> hi \<in> set (its ! bucket cs n) \<Longrightarrow> bucket cs (fst hi) = bucket cs n"
  using bucket_less [of cs its n] by (auto simp: placed_def)

lemma push_item_placed: "placed cs its \<Longrightarrow> placed cs (push_item cs its hi)"
  unfolding push_item_def Let_def by (rule placed_update) (auto dest: placed_chain)

lemma push_item_mset: "placed cs its \<Longrightarrow> mset (concat (push_item cs its hi)) = add_mset hi (mset (concat its))"
  using mset_concat_update [OF bucket_less [of cs its "fst hi"], of "hi # its ! bucket cs (fst hi)"]
  by (simp add: push_item_def Let_def)

lemma foldl_push: "placed cs its \<Longrightarrow> placed cs (foldl (push_item cs) its his)
    \<and> mset (concat (foldl (push_item cs) its his)) = mset (concat its) + mset his"
  by (induction his arbitrary: its) (auto simp: push_item_placed push_item_mset)

lemma foldl_push_all: "placed cs its \<Longrightarrow> placed cs (foldl (foldl (push_item cs)) its old)
    \<and> mset (concat (foldl (foldl (push_item cs)) its old)) = mset (concat its) + mset (concat old)"
  by (induction old arbitrary: its) (auto simp: foldl_push)

text \<open>In a table where every item is in its chain, searching the chain is searching everything.\<close>

lemma placed_member:
  assumes "placed cs its"
  shows "(n, d) \<in> set (its ! bucket cs n) \<longleftrightarrow> (n, d) \<in> set (concat its)"
proof
  assume "(n, d) \<in> set (concat its)"
  then obtain i where "i < length its" "(n, d) \<in> set (its ! i)"
    unfolding set_concat by (metis UN_E in_set_conv_nth)
  moreover from this have "bucket cs n = i" using assms by (force simp: placed_def)
  ultimately show "(n, d) \<in> set (its ! bucket cs n)" by simp
qed (use bucket_less [OF assms, of n] in \<open>auto\<close>)

lemma distinct_chain: "distinct (map fst (concat its)) \<Longrightarrow> i < length its \<Longrightarrow> distinct (map fst (its ! i))"
  by (induction its arbitrary: i) (auto simp: nth_Cons split: nat.splits)

lemma map_of_eqI: "distinct (map fst xs) \<Longrightarrow> distinct (map fst ys) \<Longrightarrow> (\<And>d. (n, d) \<in> set xs \<longleftrightarrow> (n, d) \<in> set ys) \<Longrightarrow> map_of xs n = map_of ys n"
  by (metis map_of_eq_Some_iff not_Some_eq)

lemma hash_search_entries: "hash_inv h \<Longrightarrow> hash_search h n = map_of (entries h) n"
  unfolding hash_search_def chain_search_map_of entries_def hash_inv_def
  by (rule map_of_eqI) (simp_all add: placed_member distinct_chain bucket_less del: set_concat)

text \<open>The entries as a multiset determine the map and the counters.\<close>

lemma distinct_mset_keys: "mset xs = mset ys \<Longrightarrow> distinct (map fst xs) = distinct (map fst ys)"
  by (metis mset_eq_imp_distinct_iff mset_map)

lemma map_of_mset: "mset xs = mset ys \<Longrightarrow> distinct (map fst xs) \<Longrightarrow> map_of xs = map_of ys"
  using distinct_mset_keys [of xs ys] by (intro ext map_of_eqI) (auto dest: mset_eq_setD)

lemma counters_mset: "mset xs = mset ys \<Longrightarrow> length xs = length ys \<and> sum_list (map item_len xs) = sum_list (map item_len ys)"
  by (metis mset_map size_mset sum_mset_sum_list)

lemma hash_invI:
  assumes "placed (csize h) (items h)" "nprime h \<le> length PRIMES" "mset (entries h) = mset xs" "distinct (map fst xs)"
    and "nel h = of_nat (length xs)" "glen h = of_nat (sum_list (map item_len xs))"
  shows "hash_inv h \<and> hash_search h = map_of xs"
proof
  show i: "hash_inv h" unfolding hash_inv_def
    using assms distinct_mset_keys [OF assms(3)] counters_mset [OF assms(3)] by simp
  show "hash_search h = map_of xs"
    using hash_search_entries [OF i] map_of_mset [OF assms(3)] i by (auto simp: hash_inv_def)
qed

section \<open>The operations on the map\<close>

lemma placed_empty: "cs \<noteq> 0 \<Longrightarrow> placed cs (replicate (unat cs) [])"
  by (simp add: placed_def)

lemma hash_init_map: "hash_inv (hash_init :: 'v xhash) \<and> hash_search (hash_init :: 'v xhash) = map_of []"
proof (rule hash_invI)
  show "placed (csize (hash_init :: 'v xhash)) (items (hash_init :: 'v xhash))"
    unfolding hash_init_def xhash.simps by (rule placed_empty) (simp add: FIRST_PRIME_def)
qed (simp_all add: hash_init_def entries_def)

lemma hash_rebuild_keeps:
  assumes "placed (csize h) (items h)" "nprime h \<le> length PRIMES"
  shows "placed (csize (hash_rebuild h)) (items (hash_rebuild h)) \<and> nprime (hash_rebuild h) \<le> length PRIMES
    \<and> mset (entries (hash_rebuild h)) = mset (entries h) \<and> nel (hash_rebuild h) = nel h \<and> glen (hash_rebuild h) = glen h"
proof (cases "nprime h = length PRIMES")
  case True
  then show ?thesis using assms by (simp add: hash_rebuild_def)
next
  case False
  have "0 \<notin> set PRIMES" by (simp add: PRIMES_def)
  then have "PRIMES ! nprime h \<noteq> 0" using False assms(2) by (metis le_neq_implies_less nth_mem)
  from foldl_push_all [OF placed_empty [OF this], of "items h"] False assms show ?thesis
    by (simp add: hash_rebuild_def Let_def entries_def)
qed

lemma hash_find_map:
  assumes h: "hash_inv h"
  shows "hash_inv (hash_find zero h n)
    \<and> hash_search (hash_find zero h n) = (if hash_search h n = None then (hash_search h)(n \<mapsto> zero) else hash_search h)"
proof (cases "hash_search h n = None")
  case True
  define h1 where "h1 = (let h = h\<lparr>nel := nel h + 1\<rparr> in if nel h div csize h > 10 then hash_rebuild h else h)"
  have i: "placed (csize h) (items h)" "nprime h \<le> length PRIMES" "distinct (map fst (entries h))"
    "nel h = of_nat (length (entries h))" "glen h = of_nat (sum_list (map item_len (entries h)))"
    using h by (simp_all add: hash_inv_def)
  have h1: "placed (csize h1) (items h1)" "nprime h1 \<le> length PRIMES" "mset (entries h1) = mset (entries h)"
    "nel h1 = nel h + 1" "glen h1 = glen h"
    using i(1,2) hash_rebuild_keeps [of "h\<lparr>nel := nel h + 1\<rparr>"] by (auto simp: h1_def Let_def entries_def)
  have new: "n \<notin> set (map fst (entries h))" using True hash_search_entries [OF h, of n] by (simp add: map_of_eq_None_iff)
  let ?h2 = "h1\<lparr>items := push_item (csize h1) (items h1) (n, zero), glen := glen h1 + (of_nat (length n) + 1)\<rparr>"
  have "hash_find zero h n = ?h2" using True by (simp add: hash_find_def h1_def Let_def)
  moreover have "hash_inv ?h2 \<and> hash_search ?h2 = map_of ((n, zero) # entries h)"
  proof (rule hash_invI)
    show "mset (entries ?h2) = mset ((n, zero) # entries h)"
      using push_item_mset [OF h1(1), of "(n, zero)"] h1(3) by (simp add: entries_def)
  qed (use h1(1,2,4,5) i new in \<open>simp_all add: push_item_placed item_len_def\<close>)
  ultimately show ?thesis using True hash_search_entries [OF h] by auto
qed (auto simp: hash_find_def h)

lemma chain_remove_mset: "chain_search ch n = Some d \<Longrightarrow> add_mset (n, d) (mset (chain_remove ch n)) = mset ch"
  by (induction ch) (auto split: if_splits)

lemma chain_store_mset: "chain_search ch n = Some d \<Longrightarrow> add_mset (n, d) (mset (chain_store ch n v)) = add_mset (n, v) (mset ch)"
  by (induction ch) (auto split: if_splits)

lemma mset_exchange:
  assumes "e' + b = e + c" "add_mset x c = y + b"
  shows "add_mset x e' = y + e"
proof -
  have "add_mset x e' + b = e + add_mset x c" using assms(1) by simp
  also have "\<dots> = y + e + b" using assms(2) by (simp add: ac_simps)
  finally show ?thesis by simp
qed

text \<open>Replacing the chain of a name.\<close>

lemma replace_chain:
  assumes h: "hash_inv h" and "set (map fst ch) \<subseteq> set (map fst (items h ! bucket (csize h) n))"
    and "add_mset (n, d) (mset ch) = mset xs + mset (items h ! bucket (csize h) n)"
    and "h' = h\<lparr>items := (items h)[bucket (csize h) n := ch], glen := g, nel := k\<rparr>"
  shows "placed (csize h') (items h') \<and> add_mset (n, d) (mset (entries h')) = mset xs + mset (entries h)"
proof
  have p: "placed (csize h) (items h)" using h by (simp add: hash_inv_def)
  have "bucket (csize h) (fst hi) = bucket (csize h) n" if "hi \<in> set ch" for hi
  proof -
    have "fst hi \<in> set (map fst (items h ! bucket (csize h) n))" using that assms(2) by auto
    then obtain hi' where "hi' \<in> set (items h ! bucket (csize h) n)" "fst hi' = fst hi" by auto
    then show ?thesis using placed_chain [OF p, of hi' n] by simp
  qed
  then show "placed (csize h') (items h')" using p by (simp add: assms(4) placed_update)
  have "mset (entries h') + mset (items h ! bucket (csize h) n) = mset (entries h) + mset ch"
    using mset_concat_update [OF bucket_less [OF p]] by (simp add: assms(4) entries_def)
  then show "add_mset (n, d) (mset (entries h')) = mset xs + mset (entries h)"
    using assms(3) by (rule mset_exchange)
qed

lemma chain_remove_names: "set (map fst (chain_remove ch n)) \<subseteq> set (map fst ch)"
  by (induction ch) auto

lemma chain_store_names: "map fst (chain_store ch n v) = map fst ch"
  by (induction ch) auto

lemma hash_search_Some:
  assumes "hash_inv h" "hash_search h n = Some d"
  obtains rest where "mset (entries h) = add_mset (n, d) (mset rest)" "distinct (map fst rest)" "n \<notin> fst ` set rest"
proof -
  have "(n, d) \<in> set (entries h)" using assms hash_search_entries [OF assms(1), of n] by (simp add: map_of_SomeD)
  then obtain us vs where e: "entries h = us @ (n, d) # vs" by (auto simp: in_set_conv_decomp)
  moreover have "distinct (map fst (entries h))" using assms(1) by (simp add: hash_inv_def)
  ultimately show thesis using that [of "us @ vs"] by auto
qed

lemma hash_remove_map:
  assumes h: "hash_inv h"
  shows "hash_inv (hash_remove h n) \<and> hash_search (hash_remove h n) = (hash_search h)(n := None)"
proof (cases "hash_search h n")
  case None
  then show ?thesis using h by (auto simp: hash_remove_def hash_search_def Let_def)
next
  case (Some d)
  let ?i = "bucket (csize h) n" and ?h = "hash_remove h n"
  obtain rest where rest: "mset (entries h) = add_mset (n, d) (mset rest)" "distinct (map fst rest)" "n \<notin> fst ` set rest"
    by (rule hash_search_Some [OF h Some])
  have r: "?h = h\<lparr>items := (items h)[?i := chain_remove (items h ! ?i) n], glen := glen h - (of_nat (length n) + 1), nel := nel h - 1\<rparr>"
    using Some by (simp add: hash_remove_def hash_search_def Let_def)
  have "placed (csize ?h) (items ?h) \<and> add_mset (n, d) (mset (entries ?h)) = mset [] + mset (entries h)"
    by (rule replace_chain [OF h chain_remove_names _ r])
      (use Some chain_remove_mset in \<open>simp add: hash_search_def\<close>)
  then have new: "placed (csize ?h) (items ?h)" "mset (entries ?h) = mset rest" using rest(1) by simp_all
  have c: "length (entries h) = Suc (length rest)" "sum_list (map item_len (entries h)) = item_len (n, d) + sum_list (map item_len rest)"
    using counters_mset [of "entries h" "(n, d) # rest"] rest(1) by simp_all
  have "hash_inv ?h \<and> hash_search ?h = map_of rest"
  proof (rule hash_invI [OF new(1) _ new(2) rest(2)])
    show "nprime ?h \<le> length PRIMES" "nel ?h = of_nat (length rest)" "glen ?h = of_nat (sum_list (map item_len rest))"
      using h c by (simp_all add: r hash_inv_def item_len_def)
  qed
  moreover have "hash_search h = map_of ((n, d) # rest)"
    using hash_search_entries [OF h] map_of_mset [of "entries h" "(n, d) # rest"] rest(1) h by (auto simp: hash_inv_def)
  ultimately show ?thesis using rest(3) by (simp add: map_of_eq_None_iff fun_upd_idem)
qed

lemma hash_write_map:
  assumes h: "hash_inv h" and d: "hash_search h n = Some d"
    and h': "h' = h\<lparr>items := (items h)[bucket (csize h) n := chain_store (items h ! bucket (csize h) n) n v]\<rparr>"
  shows "hash_inv h' \<and> hash_search h' = (hash_search h)(n \<mapsto> v)"
proof -
  obtain rest where rest: "mset (entries h) = add_mset (n, d) (mset rest)" "distinct (map fst rest)" "n \<notin> fst ` set rest"
    by (rule hash_search_Some [OF h d])
  have "placed (csize h') (items h') \<and> add_mset (n, d) (mset (entries h')) = mset [(n, v)] + mset (entries h)"
  proof (rule replace_chain [OF h])
    show "h' = h\<lparr>items := (items h)[bucket (csize h) n := chain_store (items h ! bucket (csize h) n) n v],
        glen := glen h, nel := nel h\<rparr>"
      by (simp add: h')
  qed (use d chain_store_mset in \<open>simp_all add: hash_search_def chain_store_names\<close>)
  then have new: "placed (csize h') (items h')" "mset (entries h') = mset ((n, v) # rest)"
    using rest(1) by (simp_all add: add_mset_commute)
  have c: "length (entries h) = Suc (length rest)" "sum_list (map item_len (entries h)) = item_len (n, d) + sum_list (map item_len rest)"
    using counters_mset [of "entries h" "(n, d) # rest"] rest(1) by simp_all
  have "hash_inv h' \<and> hash_search h' = map_of ((n, v) # rest)"
  proof (rule hash_invI [OF new(1) _ new(2)])
    show "nprime h' \<le> length PRIMES" "nel h' = of_nat (length ((n, v) # rest))"
      "glen h' = of_nat (sum_list (map item_len ((n, v) # rest)))"
      using h c by (simp_all add: h' hash_inv_def item_len_def)
  qed (use rest in auto)
  moreover have "hash_search h = map_of ((n, d) # rest)"
    using hash_search_entries [OF h] map_of_mset [of "entries h" "(n, d) # rest"] rest(1) h by (auto simp: hash_inv_def)
  ultimately show ?thesis by simp
qed

lemma hash_store_map:
  assumes "hash_inv h"
  shows "hash_inv (hash_store zero h n v) \<and> hash_search (hash_store zero h n v) = (hash_search h)(n \<mapsto> v)"
proof -
  have f: "hash_inv (hash_find zero h n)"
    "hash_search (hash_find zero h n) = (if hash_search h n = None then (hash_search h)(n \<mapsto> zero) else hash_search h)"
    using hash_find_map [OF assms] by blast+
  then obtain d where "hash_search (hash_find zero h n) n = Some d" by (cases "hash_search h n") auto
  from hash_write_map [OF f(1) this, of "hash_store zero h n v" v] f(2) show ?thesis
    by (simp add: hash_store_def Let_def split: if_splits)
qed

lemma clear_array_map: "hash_inv h \<Longrightarrow> hash_inv (clear_array h) \<and> hash_search (clear_array h) = map_of []"
  by (rule hash_invI) (auto simp: clear_array_def hash_inv_def placed_def entries_def)

section \<open>The interface\<close>

datatype 'v array_op = Find string | Store string 'v | Remove string | Clear

fun map_op :: "'v \<Rightarrow> (string \<rightharpoonup> 'v) \<Rightarrow> 'v array_op \<Rightarrow> (string \<rightharpoonup> 'v)" where
  "map_op zero m (Find n) = (if m n = None then m(n \<mapsto> zero) else m)"
| "map_op zero m (Store n v) = m(n \<mapsto> v)"
| "map_op zero m (Remove n) = m(n := None)"
| "map_op zero m Clear = Map.empty"

fun hash_op :: "'v \<Rightarrow> 'v xhash \<Rightarrow> 'v array_op \<Rightarrow> 'v xhash" where
  "hash_op zero h (Find n) = hash_find zero h n"
| "hash_op zero h (Store n v) = hash_store zero h n v"
| "hash_op zero h (Remove n) = hash_remove h n"
| "hash_op zero h Clear = clear_array h"

text \<open>An implementation of the arrays: a first state, operations that keep the invariant, and a search that returns what
  the map of the operations so far returns.\<close>

locale assoc_array =
  fixes invar :: "'s \<Rightarrow> bool"
    and init :: 's
    and op :: "'s \<Rightarrow> 'v array_op \<Rightarrow> 's"
    and search :: "'s \<Rightarrow> string \<rightharpoonup> 'v"
    and zero :: 'v
  assumes init: "invar init" "search init = Map.empty"
    and op_invar: "invar s \<Longrightarrow> invar (op s opn)"
    and op_search: "invar s \<Longrightarrow> search (op s opn) = map_op zero (search s) opn"
begin

lemma run_from: "invar s \<Longrightarrow> invar (foldl op s ops) \<and> search (foldl op s ops) = foldl (map_op zero) (search s) ops"
  by (induction ops arbitrary: s) (simp_all add: op_invar op_search)

lemma run: "invar (foldl op init ops) \<and> search (foldl op init ops) = foldl (map_op zero) Map.empty ops"
  using run_from [OF init(1)] by (simp add: init(2))

text \<open>A name that the operations never mention is not in the array.\<close>

lemma run_untouched:
  assumes "\<And>opn. opn \<in> set ops \<Longrightarrow> (case opn of Find m \<Rightarrow> m \<noteq> n | Store m v \<Rightarrow> m \<noteq> n | _ \<Rightarrow> True)"
  shows "search (foldl op init ops) n = None"
proof -
  have "foldl (map_op zero) m ops n = None" if "m n = None" for m
    using that assms
  proof (induction ops arbitrary: m)
    case (Cons opn ops)
    have "map_op zero m opn n = None" using Cons.prems(1) Cons.prems(2) [of opn] by (cases opn) auto
    then show ?case using Cons by simp
  qed simp
  then show ?thesis by (simp add: run)
qed

end

interpretation awk: assoc_array hash_inv hash_init "hash_op zero" hash_search zero for zero
proof
  fix h :: "'a xhash" and opn
  assume h: "hash_inv h"
  show "hash_inv (hash_op zero h opn)"
    using hash_find_map [OF h] hash_store_map [OF h] hash_remove_map [OF h] clear_array_map [OF h] by (cases opn) auto
  show "hash_search (hash_op zero h opn) = map_op zero (hash_search h) opn"
    using hash_find_map [OF h] hash_store_map [OF h] hash_remove_map [OF h] clear_array_map [OF h] by (cases opn) auto
qed (use hash_init_map in auto)

text \<open>C36. Whatever sequence of look-ups that create, assignments, deletions and clearings awk runs on a new array, through
  every growth of the table: each item is in the chain of its name, no name is there twice, the two counters are the
  number of items and the bytes of their names modulo \<open>2 ^ 32\<close>, and a search returns what the map of the same
  operations holds.\<close>

theorem awk_array_invariant:
  "hash_inv (foldl (hash_op zero) hash_init ops)
   \<and> hash_search (foldl (hash_op zero) hash_init ops) = foldl (map_op zero) Map.empty ops"
  by (rule awk.run)

section \<open>The walk sees every name once\<close>

lemma takeWhile_word: "NUL \<notin> set n \<Longrightarrow> takeWhile (\<lambda>c. c \<noteq> NUL) (n @ NUL # t) = n"
  by (induction n) auto

lemma nextword_first: "drop p s = n @ NUL # t \<Longrightarrow> NUL \<notin> set n \<Longrightarrow> nextword s p = (n, p + length n + 1)"
  by (simp add: nextword_def takeWhile_word del: takeWhile_append)

lemma walk_names:
  assumes "walker v = w # prev" "drop (cur w) (wbuf w) = concat (map (\<lambda>n. n @ [NUL]) names)" "NUL \<notin> \<Union> (set ` set names)"
  shows "\<exists>v'. walk v = Some (names, v') \<and> walker v' = prev \<and> vf_walk v' = vf_walk v"
  using assms
proof (induction names arbitrary: v w)
  case Nil
  then have "hashwalk_next v = Some (False, v\<lparr>walker := prev\<rparr>)" by (simp add: hashwalk_next_def)
  then show ?case by (subst walk.simps) simp
next
  case (Cons n names)
  let ?v = "v\<lparr>string_val := n, walker := w\<lparr>cur := cur w + length n + 1\<rparr> # prev\<rparr>"
  have d: "drop (cur w) (wbuf w) = n @ NUL # concat (map (\<lambda>n. n @ [NUL]) names)" using Cons.prems(2) by simp
  then have "cur w < length (wbuf w)" by (cases "cur w < length (wbuf w)") auto
  then have step: "hashwalk_next v = Some (True, ?v)"
    using nextword_first [OF d] Cons.prems(1,3) by (simp add: hashwalk_next_def)
  have "drop (cur w + length n + 1) (wbuf w) = drop (length n + 1) (drop (cur w) (wbuf w))" by (simp add: ac_simps)
  also have "\<dots> = concat (map (\<lambda>n. n @ [NUL]) names)" by (simp add: d)
  finally obtain v' where "walk ?v = Some (names, v')" "walker v' = prev" "vf_walk v' = vf_walk v"
    using Cons.IH [of ?v "w\<lparr>cur := cur w + length n + 1\<rparr>"] Cons.prems(3) by auto
  then show ?case using step by (subst walk.simps) simp
qed

lemma walk_text_length: "length (concat (map (\<lambda>hi. fst hi @ [NUL]) his)) = sum_list (map item_len his)"
  by (induction his) (simp_all add: item_len_def)

text \<open>C37. A for-in loop over an array in the invariant whose names are C strings of less than \<open>2 ^ 32\<close> bytes together:
  copying the names stays inside the buffer, the loop ends after having seen every name of the array exactly once,
  and the variable is back at the walker of the loop around it.\<close>

theorem awk_for_in:
  assumes "hash_inv array" "NUL \<notin> \<Union> (set ` dom (hash_search array))"
    and "sum_list (map item_len (entries array)) < 2 ^ 32"
  shows "\<exists>v1 names v2. hashwalk_init v array = Some v1 \<and> walk v1 = Some (names, v2)
    \<and> distinct names \<and> set names = dom (hash_search array) \<and> walker v2 = (if vf_walk v then walker v else [])"
proof -
  let ?text = "concat (map (\<lambda>hi. fst hi @ [NUL]) (entries array))"
  let ?v1 = "v\<lparr>vf_walk := True, walker := \<lparr>wbuf = ?text, cur = 0\<rparr> # (if vf_walk v then walker v else [])\<rparr>"
  have names: "dom (hash_search array) = fst ` set (entries array)"
    using hash_search_entries [OF assms(1)] by (metis dom_map_of_conv_image_fst ext)
  have "unat (glen array) = length ?text"
    using assms(1,3) by (simp add: hash_inv_def walk_text_length unat_of_nat)
  then have 1: "hashwalk_init v array = Some ?v1" by (simp add: hashwalk_init_def entries_def)
  have "NUL \<notin> \<Union> (set ` set (map fst (entries array)))" using assms(2) by (simp add: names)
  with walk_names [of ?v1 _ _ "map fst (entries array)"]
  obtain v2 where "walk ?v1 = Some (map fst (entries array), v2)" "walker v2 = (if vf_walk v then walker v else [])"
    by (auto simp: comp_def)
  then show ?thesis using 1 names assms(1) by (auto simp: hash_inv_def)
qed

theorem awk_for_in_witness:
  "\<exists>v1 names v2. hashwalk_init \<lparr>vf_walk = False, string_val = [], walker = []\<rparr> (hash_store 0 hash_init ''ab'' (7 :: int)) = Some v1
    \<and> walk v1 = Some (names, v2) \<and> distinct names \<and> set names = {''ab''} \<and> walker v2 = []"
proof -
  let ?h = "hash_store 0 hash_init ''ab'' (7 :: int)"
  have h: "hash_inv ?h" "hash_search ?h = [''ab'' \<mapsto> 7]"
    using hash_store_map [of "hash_init :: int xhash" 0 "''ab''" 7] hash_init_map [where 'v = int] by simp_all
  have e: "entries ?h = [(''ab'', 7)]" by code_simp
  show ?thesis using awk_for_in [of ?h "\<lparr>vf_walk = False, string_val = [], walker = []\<rparr>"] h
    by (simp add: e item_len_def split: if_splits)
qed

end
