(* ===== verification/Bc_Num.thy ===== *)
theory Bc_Num
  imports Prelude
begin

text \<open>
  The numbers of bc and dc, \<^verbatim>\<open>miscutils/bc.c\<close>: decimal digits, least significant first, of which the
  first \<open>rdx\<close> are behind the decimal point.  \<open>num\<close> holds the \<^verbatim>\<open>len\<close> digits of the C array; its capacity and
  the memory management are left out, sizes are unbounded, and no interrupt arrives during a calculation.  A
  function that fills in a result returns it, so the copies that \<open>zbc_num_binary\<close> makes when the result is also an
  operand are not needed.  Running off the digits is the outcome \<open>Bounds\<close>; loops whose end is not evident take fuel, and
  \<open>Loop\<close> is its exhaustion.
\<close>

section \<open>Outcomes\<close>

datatype bc_fail = Bc_error string | Bounds | Loop

type_synonym 'a bc = "bc_fail + 'a"

fun bc_bind :: "'a bc \<Rightarrow> ('a \<Rightarrow> 'b bc) \<Rightarrow> 'b bc" where
  "bc_bind (Inl e) f = Inl e"
| "bc_bind (Inr x) f = f x"

section \<open>Numbers\<close>

record BcNum =
  num :: "int list"
  rdx :: nat
  neg :: bool

abbreviation len :: "BcNum \<Rightarrow> nat" where
  "len n \<equiv> length (num n)"

definition BC_NUM_KARATSUBA_LEN :: nat where
  "BC_NUM_KARATSUBA_LEN = 32"

definition BC_MAX_NUM :: nat where
  "BC_MAX_NUM = 2 ^ 32 - 1 - 1"

definition bc_num_setToZero :: "nat \<Rightarrow> BcNum" where
  "bc_num_setToZero scale = \<lparr>num = [], rdx = scale, neg = False\<rparr>"

definition bc_num_zero :: BcNum where
  "bc_num_zero = bc_num_setToZero 0"

definition bc_num_one :: BcNum where
  "bc_num_one = (bc_num_setToZero 0)\<lparr>num := [1]\<rparr>"

fun ulong_abs_loop :: "u64 \<Rightarrow> int list \<Rightarrow> u64 bc" where
  "ulong_abs_loop result [] = Inr result"
| "ulong_abs_loop prev (d # ds) =
     (let result = prev * 10 + of_int d
      in if result div 8 < prev then Inl (Bc_error ''overflow'') else ulong_abs_loop result ds)"

definition zbc_num_ulong_abs :: "BcNum \<Rightarrow> u64 bc" where
  "zbc_num_ulong_abs n = ulong_abs_loop 0 (rev (drop (rdx n) (num n)))"

definition zbc_num_ulong :: "BcNum \<Rightarrow> u64 bc" where
  "zbc_num_ulong n = (if neg n then Inl (Bc_error ''negative number'') else zbc_num_ulong_abs n)"

fun ulong_digits :: "nat \<Rightarrow> int list" where
  "ulong_digits val = int (val mod 10) # (if val div 10 = 0 then [] else ulong_digits (val div 10))"

declare ulong_digits.simps [simp del]

definition bc_num_ulong2num :: "u64 \<Rightarrow> BcNum" where
  "bc_num_ulong2num val = (if val = 0 then bc_num_zero else bc_num_zero\<lparr>num := ulong_digits (unat val)\<rparr>)"

text \<open>Subtracting in place; \<open>borrow\<close> is the inner loop, which moves up from the digit just changed.\<close>

fun borrow :: "int list \<Rightarrow> int list bc" where
  "borrow [] = Inl Bounds"
| "borrow (x # xs) =
     (if x < 0
      then (case xs of [] \<Rightarrow> Inl Bounds | y # ys \<Rightarrow> bc_bind (borrow ((y - 1) # ys)) (\<lambda>r. Inr ((x + 10) # r)))
      else Inr (x # xs))"

fun bc_num_subArrays :: "int list \<Rightarrow> int list \<Rightarrow> int list bc" where
  "bc_num_subArrays a [] = Inr a"
| "bc_num_subArrays [] (y # ys) = Inl Bounds"
| "bc_num_subArrays (x # xs) (y # ys) =
     bc_bind (borrow ((x - y) # xs)) (\<lambda>r. bc_bind (bc_num_subArrays (tl r) ys) (\<lambda>t. Inr (hd r # t)))"

fun bc_num_compare :: "int list \<Rightarrow> int list \<Rightarrow> nat \<Rightarrow> int" where
  "bc_num_compare a b 0 = 0"
| "bc_num_compare a b (Suc i) =
     (let c = a ! i - b ! i
      in if c \<noteq> 0 then if c < 0 then - int (i + 1) else int (i + 1) else bc_num_compare a b i)"

definition BC_NUM_NEG :: "int \<Rightarrow> bool \<Rightarrow> int" where
  "BC_NUM_NEG n neg1 = (if neg1 then - n else n)"

definition BC_NUM_ONE :: "BcNum \<Rightarrow> bool" where
  "BC_NUM_ONE n \<longleftrightarrow> len n = 1 \<and> rdx n = 0 \<and> num n ! 0 = 1"

definition BC_NUM_INT :: "BcNum \<Rightarrow> nat" where
  "BC_NUM_INT n = len n - rdx n"

definition bc_num_cmp :: "BcNum \<Rightarrow> BcNum \<Rightarrow> int" where
  "bc_num_cmp a b =
     (if len a = 0 then BC_NUM_NEG (of_bool (len b \<noteq> 0)) (\<not> neg b)
      else if len b = 0 then BC_NUM_NEG 1 (neg a)
      else if neg a \<noteq> neg b then of_bool (neg b) - of_bool (neg a)
      else
        (let a_int = int (BC_NUM_INT a) - int (BC_NUM_INT b)
         in if a_int \<noteq> 0 then (if neg a then - a_int else a_int)
            else
              (let a_max = rdx a > rdx b;
                   (min1, diff, max_num, min_num, neg1) =
                     (if a_max then (rdx b, rdx a - rdx b, num a, num b, neg a)
                      else (rdx a, rdx b - rdx a, num b, num a, \<not> neg a));
                   cmp = bc_num_compare (drop diff max_num) min_num (BC_NUM_INT b + min1)
               in if cmp \<noteq> 0 then BC_NUM_NEG cmp neg1
                  else if list_ex (\<lambda>d. d \<noteq> 0) (take diff max_num) then BC_NUM_NEG 1 neg1
                  else 0)))"

definition bc_num_truncate :: "BcNum \<Rightarrow> nat \<Rightarrow> BcNum" where
  "bc_num_truncate n places =
     (if places = 0 then n
      else
        (let n = n\<lparr>rdx := rdx n - places\<rparr>
         in if len n \<noteq> 0 then n\<lparr>num := drop places (num n)\<rparr> else n))"

definition bc_num_extend :: "BcNum \<Rightarrow> nat \<Rightarrow> BcNum" where
  "bc_num_extend n places =
     (if places \<noteq> 0 then n\<lparr>num := replicate places 0 @ num n, rdx := rdx n + places\<rparr> else n)"

definition bc_num_clean :: "BcNum \<Rightarrow> BcNum" where
  "bc_num_clean n =
     (let digits = rev (dropWhile (\<lambda>d. d = 0) (rev (num n)))
      in if digits = [] then n\<lparr>num := [], neg := False\<rparr>
         else if length digits < rdx n then n\<lparr>num := take (rdx n) (num n)\<rparr>
         else n\<lparr>num := digits\<rparr>)"

definition bc_num_retireMul :: "BcNum \<Rightarrow> nat \<Rightarrow> bool \<Rightarrow> bool \<Rightarrow> BcNum" where
  "bc_num_retireMul n scale neg1 neg2 =
     (let n = (if rdx n < scale then bc_num_extend n (scale - rdx n) else bc_num_truncate n (rdx n - scale));
          n = bc_num_clean n
      in if len n \<noteq> 0 then n\<lparr>neg := (neg1 \<noteq> neg2)\<rparr> else n)"

definition bc_num_split :: "BcNum \<Rightarrow> nat \<Rightarrow> BcNum \<times> BcNum" where
  "bc_num_split n idx =
     (let (a, b) =
        (if idx < len n then (\<lparr>num = take idx (num n), rdx = 0, neg = False\<rparr>, \<lparr>num = drop idx (num n), rdx = 0, neg = False\<rparr>)
         else (n, bc_num_zero))
      in (bc_num_clean a, bc_num_clean b))"

definition zbc_num_shift :: "BcNum \<Rightarrow> nat \<Rightarrow> BcNum bc" where
  "zbc_num_shift n places =
     (if places = 0 \<or> len n = 0 then Inr n
      else if places + len n > BC_MAX_NUM then Inl (Bc_error ''number too long: must be [1,4294967294]'')
      else
        (let n = (if rdx n \<ge> places then n\<lparr>rdx := rdx n - places\<rparr>
                  else (bc_num_extend n (places - rdx n))\<lparr>rdx := 0\<rparr>)
         in Inr (bc_num_clean n)))"

section \<open>Addition and subtraction\<close>

fun add_loop :: "int list \<Rightarrow> int list \<Rightarrow> int \<Rightarrow> int list \<times> int" where
  "add_loop (x # xs) (y # ys) carry =
     (let in1 = x + y + carry; (r, carry) = add_loop xs ys (in1 div 10) in (in1 mod 10 # r, carry))"
| "add_loop xs ys carry = ([], carry)"

fun carry_loop :: "int list \<Rightarrow> int \<Rightarrow> int list \<times> int" where
  "carry_loop (x # xs) carry =
     (let in1 = x + carry; (r, carry) = carry_loop xs (in1 div 10) in (in1 mod 10 # r, carry))"
| "carry_loop [] carry = ([], carry)"

definition zbc_num_a :: "BcNum \<Rightarrow> BcNum \<Rightarrow> bool \<Rightarrow> BcNum bc" where
  "zbc_num_a a b sub =
     (if len a = 0 then Inr (if sub \<and> len b \<noteq> 0 then b\<lparr>neg := \<not> neg b\<rparr> else b)
      else if len b = 0 then Inr a
      else
        (let min_rdx = min (rdx a) (rdx b);
             (diff, ptr, ptr_a, ptr_b) =
               (if rdx a > rdx b then (rdx a - rdx b, num a, drop (rdx a - rdx b) (num a), num b)
                else (rdx b - rdx a, num b, num a, drop (rdx b - rdx a) (num b)));
             (min_int, max1, longer) =
               (if BC_NUM_INT a > BC_NUM_INT b then (BC_NUM_INT b, BC_NUM_INT a, ptr_a)
                else (BC_NUM_INT a, BC_NUM_INT b, ptr_b));
             i = min_rdx + min_int;
             (low, carry) = add_loop (take i ptr_a) (take i ptr_b) 0;
             (high, carry) = carry_loop (drop i (take (max1 + min_rdx) longer)) carry
         in Inr \<lparr>num = take diff ptr @ low @ high @ (if carry \<noteq> 0 then [carry] else []),
                 rdx = max (rdx a) (rdx b), neg = neg a\<rparr>))"

definition zbc_num_s :: "BcNum \<Rightarrow> BcNum \<Rightarrow> bool \<Rightarrow> BcNum bc" where
  "zbc_num_s a b sub =
     (if len a = 0 then Inr (if sub \<and> len b \<noteq> 0 then b\<lparr>neg := \<not> neg b\<rparr> else b)
      else if len b = 0 then Inr a
      else
        (let cmp = bc_num_cmp (a\<lparr>neg := False\<rparr>) (b\<lparr>neg := False\<rparr>)
         in if cmp = 0 then Inr (bc_num_setToZero (max (rdx a) (rdx b)))
            else
              (let (neg1, minuend, subtrahend) =
                     (if cmp > 0 then (neg a, a, b) else (if sub then \<not> neg b else neg b, b, a));
                   c = minuend\<lparr>neg := neg1\<rparr>;
                   (c, start) = (if rdx c < rdx subtrahend then (bc_num_extend c (rdx subtrahend - rdx c), 0)
                                 else (c, rdx c - rdx subtrahend))
               in bc_bind (bc_num_subArrays (drop start (num c)) (num subtrahend))
                    (\<lambda>r. Inr (bc_num_clean (c\<lparr>num := take start (num c) @ r\<rparr>))))))"

definition zbc_num_add :: "BcNum \<Rightarrow> BcNum \<Rightarrow> BcNum bc" where
  "zbc_num_add a b = (if neg a = neg b then zbc_num_a a b False else zbc_num_s a b False)"

definition zbc_num_sub :: "BcNum \<Rightarrow> BcNum \<Rightarrow> BcNum bc" where
  "zbc_num_sub a b = (if neg a = neg b then zbc_num_s a b True else zbc_num_a a b True)"

section \<open>Multiplication\<close>

text \<open>One row: the digits of \<open>a\<close> times \<open>d\<close> are added to the result from its position on; the last carry goes to the
  digit behind.\<close>

fun mul_row :: "int list \<Rightarrow> int \<Rightarrow> int list \<Rightarrow> int \<Rightarrow> int list \<times> int" where
  "mul_row (x # xs) d (c # cs) carry =
     (let in1 = c + x * d + carry; (r, carry) = mul_row xs d cs (in1 div 10) in (in1 mod 10 # r, carry))"
| "mul_row [] d (c # cs) carry = ((c + carry) # cs, carry)"
| "mul_row xs d [] carry = ([], carry)"

fun mul_rows :: "int list \<Rightarrow> int list \<Rightarrow> nat \<Rightarrow> int list \<Rightarrow> nat \<Rightarrow> int list \<times> nat" where
  "mul_rows a [] i cs len1 = (cs, len1)"
| "mul_rows a (d # ds) i cs len1 =
     (let (r, carry) = mul_row a d cs 0;
          (t, len1) = mul_rows a ds (i + 1) (tl r) (max len1 (i + length a + of_bool (carry \<noteq> 0)))
      in (hd r # t, len1))"

fun zbc_num_k :: "nat \<Rightarrow> BcNum \<Rightarrow> BcNum \<Rightarrow> BcNum bc" where
  "zbc_num_k 0 a b = Inl Loop"
| "zbc_num_k (Suc fuel) a b =
     (if len a = 0 \<or> len b = 0 then Inr bc_num_zero
      else if BC_NUM_ONE a then Inr b
      else if BC_NUM_ONE b then Inr a
      else if len a + len b < BC_NUM_KARATSUBA_LEN \<or> len a < BC_NUM_KARATSUBA_LEN \<or> len b < BC_NUM_KARATSUBA_LEN
      then
        (let (cs, len1) = mul_rows (num a) (num b) 0 (replicate (len a + len b + 1) 0) 0
         in Inr (bc_num_zero\<lparr>num := take len1 cs\<rparr>))
      else
        (let max2 = (max (len a) (len b) + 1) div 2;
             (l1, h1) = bc_num_split a max2;
             (l2, h2) = bc_num_split b max2
         in bc_bind (zbc_num_add h1 l1) (\<lambda>m1.
            bc_bind (zbc_num_add h2 l2) (\<lambda>m2.
            bc_bind (zbc_num_k fuel h1 h2) (\<lambda>z0.
            bc_bind (zbc_num_k fuel m1 m2) (\<lambda>z1.
            bc_bind (zbc_num_k fuel l1 l2) (\<lambda>z2.
            bc_bind (zbc_num_sub z1 z0) (\<lambda>temp.
            bc_bind (zbc_num_sub temp z2) (\<lambda>z1.
            bc_bind (zbc_num_shift z0 (max2 * 2)) (\<lambda>z0.
            bc_bind (zbc_num_shift z1 max2) (\<lambda>z1.
            bc_bind (zbc_num_add z0 z1) (\<lambda>temp.
            zbc_num_add temp z2))))))))))))"

declare zbc_num_k.simps [simp del]

definition zbc_num_m :: "BcNum \<Rightarrow> BcNum \<Rightarrow> nat \<Rightarrow> BcNum bc" where
  "zbc_num_m a b scale =
     (let maxrdx = max (rdx a) (rdx b);
          scale = max scale (rdx a);
          scale = max scale (rdx b);
          scale = min (rdx a + rdx b) scale;
          maxrdx = max maxrdx scale
      in bc_bind (zbc_num_shift (a\<lparr>neg := False\<rparr>) maxrdx) (\<lambda>cpa.
         bc_bind (zbc_num_shift (b\<lparr>neg := False\<rparr>) maxrdx) (\<lambda>cpb.
         bc_bind (zbc_num_k (len cpa + len cpb + 1) cpa cpb) (\<lambda>c.
           let maxrdx = maxrdx + scale;
               c = (if len c < maxrdx then c\<lparr>num := num c @ replicate maxrdx 0\<rparr> else c);
               c = c\<lparr>rdx := maxrdx\<rparr>
           in Inr (bc_num_retireMul c scale (neg a) (neg b))))))"

definition zbc_num_mul :: "BcNum \<Rightarrow> BcNum \<Rightarrow> nat \<Rightarrow> BcNum bc" where
  "zbc_num_mul a b scale = zbc_num_m a b scale"

section \<open>Division\<close>

text \<open>One digit of the quotient: \<open>n\<close> are the digits of the remainder from the current position on.\<close>

fun div_digit :: "nat \<Rightarrow> int list \<Rightarrow> int list \<Rightarrow> nat \<Rightarrow> int \<Rightarrow> (int list \<times> int) bc" where
  "div_digit 0 n b len1 q = Inl Loop"
| "div_digit (Suc fuel) n b len1 q =
     (if n ! len1 \<noteq> 0 \<or> bc_num_compare n b len1 \<ge> 0
      then bc_bind (bc_num_subArrays n (take len1 b)) (\<lambda>n. div_digit fuel n b len1 (q + 1))
      else Inr (n, q))"

fun div_loop :: "nat \<Rightarrow> int list \<Rightarrow> int list \<Rightarrow> nat \<Rightarrow> int list \<Rightarrow> int list bc" where
  "div_loop 0 cp b len1 c = Inr c"
| "div_loop (Suc i) cp b len1 c =
     bc_bind (div_digit 10 (drop i cp) b len1 0) (\<lambda>(n, q). div_loop i (take i cp @ n) b len1 (q # c))"

text \<open>The number of digits of \<open>b\<close> up to its first one, for a \<open>b\<close> without an integer part.\<close>

fun top_digit :: "int list \<Rightarrow> nat \<Rightarrow> nat" where
  "top_digit b 0 = 0"
| "top_digit b (Suc i) = (if b ! i \<noteq> 0 then i else top_digit b i)"

definition zbc_num_d :: "BcNum \<Rightarrow> BcNum \<Rightarrow> nat \<Rightarrow> BcNum bc" where
  "zbc_num_d a b scale =
     (if len b = 0 then Inl (Bc_error ''divide by zero'')
      else if len a = 0 then Inr (bc_num_setToZero scale)
      else if BC_NUM_ONE b then Inr (bc_num_retireMul a scale (neg a) (neg b))
      else
        (let cp = a;
             len1 = len b;
             cp = (if len1 > len cp then bc_num_extend cp (len1 - len cp) else cp);
             cp = (if rdx b > rdx cp then bc_num_extend cp (rdx b - rdx cp) else cp);
             cp = cp\<lparr>rdx := rdx cp - rdx b\<rparr>;
             cp = (if scale > rdx cp then bc_num_extend cp (scale - rdx cp) else cp);
             len1 = (if rdx b = len b then top_digit (num b) len1 + 1 else len1);
             cp = cp\<lparr>num := num cp @ [0]\<rparr>;
             end1 = len cp - len1
         in bc_bind (div_loop end1 (num cp) (num b) len1 (replicate (len cp - end1) 0)) (\<lambda>c.
              Inr (bc_num_retireMul \<lparr>num = c, rdx = rdx cp, neg = False\<rparr> scale (neg a) (neg b)))))"

definition zbc_num_div :: "BcNum \<Rightarrow> BcNum \<Rightarrow> nat \<Rightarrow> BcNum bc" where
  "zbc_num_div a b scale = zbc_num_d a b scale"

definition zbc_num_inv :: "BcNum \<Rightarrow> nat \<Rightarrow> BcNum bc" where
  "zbc_num_inv a scale = zbc_num_div bc_num_one a scale"

text \<open>Quotient and remainder; the quotient is left alone when the dividend is zero.\<close>

definition zbc_num_r :: "BcNum \<Rightarrow> BcNum \<Rightarrow> BcNum \<Rightarrow> nat \<Rightarrow> nat \<Rightarrow> (BcNum \<times> BcNum) bc" where
  "zbc_num_r a b c scale ts =
     (if len b = 0 then Inl (Bc_error ''divide by zero'')
      else if len a = 0 then Inr (c, bc_num_setToZero ts)
      else
        bc_bind (zbc_num_d a b scale) (\<lambda>c.
          let scale = (if scale \<noteq> 0 then ts else scale)
          in bc_bind (zbc_num_m c b scale) (\<lambda>temp.
             bc_bind (zbc_num_sub a temp) (\<lambda>d.
               let d = (if ts > rdx d \<and> len d \<noteq> 0 then bc_num_extend d (ts - rdx d) else d);
                   neg1 = neg d;
                   d = (bc_num_retireMul d ts (neg a) (neg b))\<lparr>neg := neg1\<rparr>
               in Inr (c, d)))))"

definition zbc_num_rem :: "BcNum \<Rightarrow> BcNum \<Rightarrow> nat \<Rightarrow> BcNum bc" where
  "zbc_num_rem a b scale =
     (let ts = max (scale + rdx b) (rdx a)
      in bc_bind (zbc_num_r a b bc_num_zero scale ts) (\<lambda>(c1, c). Inr c))"

definition zbc_num_mod :: "BcNum \<Rightarrow> BcNum \<Rightarrow> nat \<Rightarrow> BcNum bc" where
  "zbc_num_mod a b scale = zbc_num_rem a b scale"

definition zbc_num_divmod :: "BcNum \<Rightarrow> BcNum \<Rightarrow> BcNum \<Rightarrow> nat \<Rightarrow> (BcNum \<times> BcNum) bc" where
  "zbc_num_divmod a b c scale =
     (let ts = max (scale + rdx b) (rdx a)
      in zbc_num_r a b c scale ts)"

section \<open>Powers\<close>

text \<open>The test for an integer reads \<open>rdx\<close> digits, however many there are.\<close>

fun int_check :: "int list \<Rightarrow> nat \<Rightarrow> unit bc" where
  "int_check ds 0 = Inr ()"
| "int_check [] (Suc i) = Inl Bounds"
| "int_check (d # ds) (Suc i) = (if d \<noteq> 0 then Inl (Bc_error ''not an integer'') else int_check ds i)"

fun square_loop :: "nat \<Rightarrow> u64 \<Rightarrow> nat \<Rightarrow> BcNum \<Rightarrow> (u64 \<times> nat \<times> BcNum) bc" where
  "square_loop 0 pow powrdx copy = Inl Loop"
| "square_loop (Suc fuel) pow powrdx copy =
     (if pow AND 1 \<noteq> 0 then Inr (pow, powrdx, copy)
      else
        (let powrdx = powrdx * 2
         in bc_bind (zbc_num_mul copy copy powrdx) (\<lambda>copy. square_loop fuel (shr pow 1) powrdx copy)))"

fun power_loop :: "nat \<Rightarrow> u64 \<Rightarrow> nat \<Rightarrow> nat \<Rightarrow> BcNum \<Rightarrow> BcNum \<Rightarrow> BcNum bc" where
  "power_loop 0 pow powrdx resrdx copy c = Inl Loop"
| "power_loop (Suc fuel) pow powrdx resrdx copy c =
     (if pow = 0 then Inr c
      else
        (let powrdx = powrdx * 2
         in bc_bind (zbc_num_mul copy copy powrdx) (\<lambda>copy.
              if pow AND 1 \<noteq> 0
              then bc_bind (zbc_num_mul c copy (resrdx + powrdx)) (\<lambda>c.
                     power_loop fuel (shr pow 1) powrdx (resrdx + powrdx) copy c)
              else power_loop fuel (shr pow 1) powrdx resrdx copy c)))"

definition zbc_num_p :: "BcNum \<Rightarrow> BcNum \<Rightarrow> nat \<Rightarrow> BcNum bc" where
  "zbc_num_p a b scale =
     bc_bind (int_check (num b) (rdx b)) (\<lambda>_.
       if len b = 0 then Inr bc_num_one
       else if len a = 0 then Inr (bc_num_setToZero scale)
       else if BC_NUM_ONE b then (if \<not> neg b then Inr a else zbc_num_inv a scale)
       else
         bc_bind (zbc_num_ulong_abs b) (\<lambda>pow.
           let scale =
                 (if \<not> neg b
                  then (let scale = (if rdx a > scale then rdx a else scale)
                        in if unat (of_nat (rdx a) * pow) < scale then unat (of_nat (rdx a) * pow) else scale)
                  else scale)
           in bc_bind (square_loop 65 pow (rdx a) a) (\<lambda>(pow, powrdx, copy).
              bc_bind (power_loop 65 (shr pow 1) powrdx powrdx copy copy) (\<lambda>c.
              bc_bind (if neg b then zbc_num_inv c scale else Inr c) (\<lambda>c.
                let c = (if rdx c > scale then bc_num_truncate c (rdx c - scale) else c)
                in Inr (if list_ex (\<lambda>d. d \<noteq> 0) (num c) then c else bc_num_setToZero scale))))))"

definition zbc_num_pow :: "BcNum \<Rightarrow> BcNum \<Rightarrow> nat \<Rightarrow> BcNum bc" where
  "zbc_num_pow a b scale = zbc_num_p a b scale"

fun modexp_loop :: "nat \<Rightarrow> BcNum \<Rightarrow> BcNum \<Rightarrow> BcNum \<Rightarrow> BcNum \<Rightarrow> BcNum bc" where
  "modexp_loop 0 c base exp d = Inl Loop"
| "modexp_loop (Suc fuel) c base exp d =
     (if len exp = 0 then Inr d
      else
        (let two = bc_num_one\<lparr>num := [2]\<rparr>
         in bc_bind (zbc_num_divmod exp two bc_num_zero 0) (\<lambda>(exp, temp).
            bc_bind (if BC_NUM_ONE temp
                     then bc_bind (zbc_num_mul d base 0) (\<lambda>temp. zbc_num_rem temp c 0)
                     else Inr d) (\<lambda>d.
            bc_bind (zbc_num_mul base base 0) (\<lambda>temp.
            bc_bind (zbc_num_rem temp c 0) (\<lambda>base.
              modexp_loop fuel c base exp d))))))"

definition zdc_num_modexp :: "BcNum \<Rightarrow> BcNum \<Rightarrow> BcNum \<Rightarrow> BcNum bc" where
  "zdc_num_modexp a b c =
     (if len c = 0 then Inl (Bc_error ''divide by zero'')
      else if rdx a \<noteq> 0 \<or> rdx b \<noteq> 0 \<or> rdx c \<noteq> 0 then Inl (Bc_error ''not an integer'')
      else if neg b then Inl (Bc_error ''negative number'')
      else bc_bind (zbc_num_rem a c 0) (\<lambda>base. modexp_loop (4 * len b + 1) c base b bc_num_one))"

end
