(* ===== verification/Bc_Text.thy ===== *)
theory Bc_Text
  imports Bc_Num Hex
begin

text \<open>
  Numbers as text in \<^verbatim>\<open>bc.c\<close>: the scanner for numbers, the conversion of their digits in any input base,
  and printing in any output base with lines broken at the line length.  The input is the text from the current position
  on, over all lines; \<open>line\<close> is the line length \<^verbatim>\<open>G.prog.len\<close>.
\<close>

section \<open>Scanning\<close>

text \<open>The scanner after the first character: the characters of the number, the rest of the input and the line number.\<close>

fun lex_loop :: "char \<Rightarrow> bool \<Rightarrow> string \<Rightarrow> string \<Rightarrow> nat \<Rightarrow> string \<times> string \<times> nat" where
  "lex_loop last_valid_ch pt buf [] lex_line = (buf, [], lex_line)"
| "lex_loop last_valid_ch pt buf (c # rest) lex_line =
     (if c = CHR 0x5C \<and> peek rest = CHR 0x0A then lex_loop last_valid_ch pt buf (tl rest) (lex_line + 1)
      else if \<not> isdigit c \<and> (code c < code (CHR ''A'') \<or> code c > code last_valid_ch)
      then
        if c \<noteq> CHR ''.'' then (buf, c # rest, lex_line)
        else if pt then (buf, c # rest, lex_line)
        else lex_loop last_valid_ch True (buf @ [c]) rest lex_line
      else lex_loop last_valid_ch pt (buf @ [c]) rest lex_line)"

definition zxc_lex_number :: "bool \<Rightarrow> char \<Rightarrow> string \<Rightarrow> nat \<Rightarrow> string \<times> string \<times> nat" where
  "zxc_lex_number is_bc last1 lex_inbuf lex_line =
     (case lex_loop (if is_bc then CHR ''Z'' else CHR ''F'') (last1 = CHR ''.'') [last1] lex_inbuf lex_line of
        (buf, rest, lex_line) \<Rightarrow> (if List.last buf = CHR ''.'' then butlast buf else buf, rest, lex_line))"

section \<open>Reading\<close>

fun strValid_loop :: "bool \<Rightarrow> string \<Rightarrow> bool" where
  "strValid_loop radix [] = True"
| "strValid_loop radix (c # val) =
     (if c = CHR ''.'' then (if radix then False else strValid_loop True val)
      else if (code c < code (CHR ''0'') \<or> code c > code (CHR ''9'')) \<and> (code c < code (CHR ''A'') \<or> code c > code (CHR ''Z''))
      then False
      else strValid_loop radix val)"

definition xc_num_strValid :: "string \<Rightarrow> bool" where
  "xc_num_strValid val = strValid_loop False val"

text \<open>The digits from the last character to the first; the last one is taken even if it is a dot.\<close>

definition decimal_digit :: "char \<Rightarrow> int" where
  "decimal_digit ch = (let c = int (code ch) - int (code (CHR ''0'')) in if c > 9 then 9 else c)"

definition bc_num_parseDecimal :: "string \<Rightarrow> BcNum" where
  "bc_num_parseDecimal val =
     (let n = bc_num_zero\<lparr>rdx := (if CHR ''.'' \<in> set val then length (tl (dropWhile (\<lambda>c. c \<noteq> CHR ''.'') val)) else 0)\<rparr>
      in if val = [] then bc_num_zero
         else if list_ex (\<lambda>c. c \<noteq> CHR ''0'' \<and> c \<noteq> CHR ''.'') val then
           if length val = 1 then
             (let c = int (code (hd val)) - int (code (CHR ''0''))
              in if c > 9 then (let c = c - 7 in n\<lparr>num := [c mod 10, c div 10]\<rparr>) else n\<lparr>num := [c]\<rparr>)
           else n\<lparr>num := map decimal_digit (List.last val # filter (\<lambda>c. c \<noteq> CHR ''.'') (rev (butlast val)))\<rparr>
         else n)"

definition parse_digit :: "u32 \<Rightarrow> char \<Rightarrow> u32" where
  "parse_digit base_t c =
     (let v = of_int (if code c \<le> code (CHR ''9'') then int (code c) - int (code (CHR ''0''))
                      else int (code c) - int (code (CHR ''A'')) + 10)
      in if v > base_t then base_t else v)"

text \<open>The two loops of \<open>bc_num_parseBase\<close>.  A failing operation ends the conversion with what has been read, without an
  error.  The first returns the text behind the point, if it came to one.\<close>

fun parse_int :: "BcNum \<Rightarrow> u32 \<Rightarrow> BcNum \<Rightarrow> string \<Rightarrow> BcNum \<times> string option" where
  "parse_int base base_t n [] = (n, None)"
| "parse_int base base_t n (c # val) =
     (if c = CHR ''.'' then (n, Some val)
      else
        case bc_bind (zbc_num_mul n base 0) (\<lambda>mult. zbc_num_add mult (bc_num_ulong2num (ucast (parse_digit base_t c)))) of
          Inl err \<Rightarrow> (n, None)
        | Inr n' \<Rightarrow> parse_int base base_t n' val)"

fun parse_frac :: "BcNum \<Rightarrow> u32 \<Rightarrow> BcNum \<Rightarrow> BcNum \<Rightarrow> nat \<Rightarrow> string \<Rightarrow> (BcNum \<times> BcNum \<times> nat) bc" where
  "parse_frac base base_t result mult digits [] = Inr (result, mult, digits)"
| "parse_frac base base_t result mult digits (c # val) =
     bc_bind (zbc_num_mul result base 0) (\<lambda>result.
     bc_bind (zbc_num_add result (bc_num_ulong2num (ucast (parse_digit base_t c)))) (\<lambda>result.
     bc_bind (zbc_num_mul mult base 0) (\<lambda>mult.
       parse_frac base base_t result mult (digits + 1) val)))"

definition bc_num_parseBase :: "string \<Rightarrow> u32 \<Rightarrow> BcNum" where
  "bc_num_parseBase val base_t =
     (let base = bc_num_ulong2num (ucast base_t);
          base_t = base_t - 1
      in case parse_int base base_t bc_num_zero val of
           (n, None) \<Rightarrow> n
         | (n, Some val) \<Rightarrow>
             (case bc_bind (parse_frac base base_t bc_num_zero bc_num_one 0 val) (\<lambda>(result, mult, digits).
                   bc_bind (zbc_num_div result mult digits) (\<lambda>result.
                   bc_bind (zbc_num_add n result) (\<lambda>n.
                     Inr (if len n \<noteq> 0 then (if rdx n < digits then bc_num_extend n (digits - rdx n) else n)
                          else bc_num_zero)))) of
                Inl err \<Rightarrow> n
              | Inr n \<Rightarrow> n))"

definition zxc_num_parse :: "string \<Rightarrow> u32 \<Rightarrow> BcNum bc" where
  "zxc_num_parse val base_t =
     (if \<not> xc_num_strValid val then Inl (Bc_error ''bad number string'')
      else
        (let val = dropWhile (\<lambda>c. c = CHR ''0'') val
         in if \<not> list_ex (\<lambda>c. c \<noteq> CHR ''.'' \<and> c \<noteq> CHR ''0'') val then Inr bc_num_zero
            else if base_t = 10 \<or> length val = 1 then Inr (bc_num_parseDecimal val)
            else Inr (bc_num_parseBase val base_t)))"

section \<open>Printing\<close>

record printer =
  out :: string
  nchars :: nat

definition bb_putchar :: "char \<Rightarrow> printer \<Rightarrow> printer" where
  "bb_putchar c s = s\<lparr>out := out s @ [c]\<rparr>"

definition bc_num_printNewline :: "nat \<Rightarrow> printer \<Rightarrow> printer" where
  "bc_num_printNewline line s =
     (if nchars s = line - 1 then (bb_putchar (CHR 0x0A) (bb_putchar (CHR 0x5C) s))\<lparr>nchars := 0\<rparr> else s)"

definition count_char :: "nat \<Rightarrow> printer \<Rightarrow> printer" where
  "count_char width s = s\<lparr>nchars := nchars s + width\<rparr>"

fun print_digits_loop :: "nat \<Rightarrow> nat \<Rightarrow> nat \<Rightarrow> nat \<Rightarrow> printer \<Rightarrow> printer" where
  "print_digits_loop line 0 num1 pow s = s"
| "print_digits_loop line (Suc width) num1 pow s =
     (let s = bc_num_printNewline line s;
          dig = num1 div pow;
          s = bb_putchar (char_of (dig + code (CHR ''0''))) s
      in print_digits_loop line width (num1 - dig * pow) (pow div 10) (count_char 1 s))"

definition bc_num_printDigits :: "nat \<Rightarrow> nat \<Rightarrow> nat \<Rightarrow> bool \<Rightarrow> printer \<Rightarrow> printer" where
  "bc_num_printDigits line num1 width radix s =
     (let s = bc_num_printNewline line s;
          s = count_char 1 (bb_putchar (if radix then CHR ''.'' else CHR '' '') s);
          s = bc_num_printNewline line s
      in print_digits_loop line width num1 (10 ^ (width - 1)) s)"

definition bc_num_printHex :: "nat \<Rightarrow> nat \<Rightarrow> nat \<Rightarrow> bool \<Rightarrow> printer \<Rightarrow> printer" where
  "bc_num_printHex line num1 width radix s =
     (let s = (if radix then count_char 1 (bb_putchar (CHR ''.'') (bc_num_printNewline line s)) else s)
      in count_char width (bb_putchar (bb_hexdigits_upcase ! num1) (bc_num_printNewline line s)))"

definition bc_num_printDecimal :: "nat \<Rightarrow> BcNum \<Rightarrow> printer \<Rightarrow> printer" where
  "bc_num_printDecimal line n s =
     (let s = (if neg n then count_char 1 (bb_putchar (CHR ''-'') s) else s)
      in fold (\<lambda>i. bc_num_printHex line (nat (num n ! i)) 1 (i + 1 = rdx n)) (rev [0..<len n]) s)"

text \<open>The digits of the integer part, the first one on top of the stack.\<close>

fun print_stack :: "nat \<Rightarrow> BcNum \<Rightarrow> BcNum \<Rightarrow> u64 list \<Rightarrow> u64 list bc" where
  "print_stack 0 base intp stack = Inl Loop"
| "print_stack (Suc fuel) base intp stack =
     (if len intp = 0 then Inr stack
      else
        bc_bind (zbc_num_divmod intp base bc_num_zero 0) (\<lambda>(intp, digit).
        bc_bind (zbc_num_ulong digit) (\<lambda>dig.
          print_stack fuel base intp (dig # stack))))"

fun print_frac :: "nat \<Rightarrow> (nat \<Rightarrow> bool \<Rightarrow> printer \<Rightarrow> printer) \<Rightarrow> nat \<Rightarrow> BcNum \<Rightarrow> BcNum \<Rightarrow> BcNum \<Rightarrow> bool \<Rightarrow> printer \<Rightarrow> printer \<times> unit bc" where
  "print_frac 0 print1 scale base fracp frac_len radix s = (s, Inl Loop)"
| "print_frac (Suc fuel) print1 scale base fracp frac_len radix s =
     (if len frac_len \<le> scale then
        (case bc_bind (zbc_num_mul fracp base scale) (\<lambda>fracp.
              bc_bind (zbc_num_ulong fracp) (\<lambda>dig.
              bc_bind (zbc_num_sub fracp (bc_num_ulong2num dig)) (\<lambda>fracp. Inr (fracp, dig)))) of
           Inl err \<Rightarrow> (s, Inl err)
         | Inr (fracp, dig) \<Rightarrow>
             (let s = print1 (unat dig) radix s
              in case zbc_num_mul frac_len base 0 of
                   Inl err \<Rightarrow> (s, Inl err)
                 | Inr frac_len \<Rightarrow> print_frac fuel print1 scale base fracp frac_len False s))
      else (s, Inr ()))"

definition zxc_num_printNum :: "BcNum \<Rightarrow> u32 \<Rightarrow> (nat \<Rightarrow> bool \<Rightarrow> printer \<Rightarrow> printer) \<Rightarrow> printer \<Rightarrow> printer \<times> unit bc" where
  "zxc_num_printNum n base_t print1 s =
     (if len n = 0 then (print1 0 False s, Inr ())
      else
        (let base = bc_num_ulong2num (ucast base_t);
             intp = bc_num_truncate n (rdx n)
         in case zbc_num_sub n intp of
              Inl err \<Rightarrow> (s, Inl err)
            | Inr fracp \<Rightarrow>
                (case print_stack (4 * len n + 1) base intp [] of
                   Inl err \<Rightarrow> (s, Inl err)
                 | Inr stack \<Rightarrow>
                     (let s = fold (\<lambda>dig. print1 (unat dig) False) stack s
                      in if rdx n = 0 then (s, Inr ())
                         else print_frac (4 * rdx n + 2) print1 (rdx n) base fracp bc_num_one True s))))"

fun print_width :: "nat \<Rightarrow> nat" where
  "print_width i = (if i div 10 = 0 then 1 else 1 + print_width (i div 10))"

declare print_width.simps [simp del]

definition zxc_num_printBase :: "nat \<Rightarrow> u32 \<Rightarrow> BcNum \<Rightarrow> printer \<Rightarrow> printer \<times> unit bc" where
  "zxc_num_printBase line ob_t n s =
     (let s = (if neg n then count_char 1 (bb_putchar (CHR ''-'') s) else s);
          n = n\<lparr>neg := False\<rparr>
      in if ob_t \<le> 16 then zxc_num_printNum n ob_t (\<lambda>d. bc_num_printHex line d 1) s
         else zxc_num_printNum n ob_t (\<lambda>d. bc_num_printDigits line d (print_width (unat (ob_t - 1)))) s)"

definition zxc_num_print :: "nat \<Rightarrow> u32 \<Rightarrow> BcNum \<Rightarrow> bool \<Rightarrow> printer \<Rightarrow> printer \<times> unit bc" where
  "zxc_num_print line ob_t n newline s =
     (let s = bc_num_printNewline line s;
          (s, status) =
            (if len n = 0 then (count_char 1 (bb_putchar (CHR ''0'') s), Inr ())
             else if ob_t = 10 then (bc_num_printDecimal line n s, Inr ())
             else zxc_num_printBase line ob_t n s);
          s = (if newline then (bb_putchar (CHR 0x0A) s)\<lparr>nchars := 0\<rparr> else s)
      in (s, status))"

end
