(* ===== verification/Bc_Digits.thy ===== *)
theory Bc_Digits
  imports Bc_Num Complex_Main
begin

text \<open>
  What the loops over decimal digits in \<^verbatim>\<open>bc.c\<close> compute: comparison, subtraction with borrow, addition with
  carry, the rows of the multiplication by hand and the digits of a quotient, as facts about the integer \<open>dval\<close> that
  a list of digits stands for.
\<close>

section \<open>Digits\<close>

primrec dval :: "int list \<Rightarrow> int" where
  "dval [] = 0"
| "dval (d # ds) = d + 10 * dval ds"

definition digits :: "int list \<Rightarrow> bool" where
  "digits ds \<longleftrightarrow> (\<forall>d \<in> set ds. 0 \<le> d \<and> d \<le> 9)"

lemma digits_simps [simp]:
  "digits []" "digits (d # ds) \<longleftrightarrow> 0 \<le> d \<and> d \<le> 9 \<and> digits ds" "digits (xs @ ys) \<longleftrightarrow> digits xs \<and> digits ys"
  by (auto simp: digits_def)

lemma digits_replicate [simp]: "digits (replicate n 0)"
  by (auto simp: digits_def)

lemma digits_take [simp]: "digits ds \<Longrightarrow> digits (take n ds)"
  by (auto simp: digits_def dest: in_set_takeD)

lemma digits_drop [simp]: "digits ds \<Longrightarrow> digits (drop n ds)"
  by (auto simp: digits_def dest: in_set_dropD)

lemma dval_append: "dval (xs @ ys) = dval xs + 10 ^ length xs * dval ys"
  by (induction xs) (simp_all add: algebra_simps)

lemma dval_replicate [simp]: "dval (replicate n 0) = 0"
  by (induction n) simp_all

lemma dval_nonneg [simp]: "digits ds \<Longrightarrow> 0 \<le> dval ds"
  by (induction ds) auto

lemma dval_less: "digits ds \<Longrightarrow> dval ds < 10 ^ length ds"
  by (induction ds) auto

lemma dval_split: "dval ds = dval (take n ds) + 10 ^ min n (length ds) * dval (drop n ds)"
  using dval_append [of "take n ds" "drop n ds"] by (simp add: min.commute)

lemma dval_0_iff: "digits ds \<Longrightarrow> dval ds = 0 \<longleftrightarrow> (\<forall>d \<in> set ds. d = 0)"
  by (induction ds) (auto simp: add_nonneg_eq_0_iff)

lemma dval_nonzero_top: "digits ds \<Longrightarrow> ds \<noteq> [] \<Longrightarrow> List.last ds \<noteq> 0 \<Longrightarrow> 10 ^ (length ds - 1) \<le> dval ds"
proof (induction ds)
  case (Cons d ds)
  show ?case
  proof (cases "ds = []")
    case False
    then have "10 ^ (length ds - 1) \<le> dval ds" using Cons by simp
    then have "10 * 10 ^ (length ds - 1) \<le> dval (d # ds)" using Cons.prems(1) by simp
    then show ?thesis using False by (cases ds) simp_all
  qed (use Cons.prems in simp)
qed simp

section \<open>Comparison\<close>

lemma sgn_top:
  fixes c u v :: int
  assumes "0 \<le> u" "u < m" "0 \<le> v" "v < m" "c \<noteq> 0"
  shows "sgn (u - v + m * c) = sgn c"
proof (cases "0 < c")
  case True
  then have "m * 1 \<le> m * c" using assms by (intro mult_left_mono) auto
  then have "0 < u - v + m * c" using assms by linarith
  then show ?thesis using True by simp
next
  case False
  then have "m * c \<le> m * - 1" using assms by (intro mult_left_mono) auto
  then have "u - v + m * c < 0" using assms by linarith
  then show ?thesis using False assms(5) by simp
qed

lemma compare_sgn:
  "digits a \<Longrightarrow> digits b \<Longrightarrow> n \<le> length a \<Longrightarrow> n \<le> length b \<Longrightarrow>
    sgn (bc_num_compare a b n) = sgn (dval (take n a) - dval (take n b))"
proof (induction n)
  case (Suc i)
  have t: "take (Suc i) a = take i a @ [a ! i]" "take (Suc i) b = take i b @ [b ! i]"
    using Suc.prems by (simp_all add: take_Suc_conv_app_nth)
  have e: "dval (take (Suc i) a) - dval (take (Suc i) b) = dval (take i a) - dval (take i b) + 10 ^ i * (a ! i - b ! i)"
    using Suc.prems by (simp add: t dval_append algebra_simps)
  show ?case
  proof (cases "a ! i = b ! i")
    case False
    have "sgn (dval (take i a) - dval (take i b) + 10 ^ i * (a ! i - b ! i)) = sgn (a ! i - b ! i)"
      using Suc.prems False dval_less [of "take i a"] dval_less [of "take i b"] by (intro sgn_top) simp_all
    then show ?thesis unfolding e using False by (simp add: Let_def)
  qed (use Suc e in simp)
qed simp

section \<open>Subtraction\<close>

lemma borrow_correct:
  "\<lbrakk>digits xs; - 10 \<le> x; x \<le> 9; 0 \<le> dval (x # xs)\<rbrakk> \<Longrightarrow>
    \<exists>r. borrow (x # xs) = Inr r \<and> digits r \<and> length r = Suc (length xs) \<and> dval r = dval (x # xs)"
proof (induction xs arbitrary: x)
  case Nil
  then show ?case by (simp split: if_splits)
next
  case (Cons y ys)
  show ?case
  proof (cases "x < 0")
    case True
    have "0 \<le> dval ((y - 1) # ys)" using Cons.prems True by (simp add: algebra_simps)
    then obtain r where "borrow ((y - 1) # ys) = Inr r" "digits r" "length r = Suc (length ys)" "dval r = dval ((y - 1) # ys)"
      using Cons.IH [of "y - 1"] Cons.prems(1) by auto
    then show ?thesis using True Cons.prems by simp
  qed (use Cons.prems in auto)
qed

lemma subArrays_correct:
  "\<lbrakk>digits a; digits b; length b \<le> length a; dval b \<le> dval a\<rbrakk> \<Longrightarrow>
    \<exists>r. bc_num_subArrays a b = Inr r \<and> digits r \<and> length r = length a \<and> dval r = dval a - dval b"
proof (induction b arbitrary: a)
  case (Cons y ys)
  then obtain x xs where a: "a = x # xs" by (cases a) auto
  have "0 \<le> dval ys" using Cons.prems by simp
  then have "0 \<le> dval ((x - y) # xs)" using Cons.prems(4) unfolding a dval.simps by linarith
  then obtain r where r: "borrow ((x - y) # xs) = Inr r" "digits r" "length r = Suc (length xs)" "dval r = dval ((x - y) # xs)"
    using borrow_correct [of xs "x - y"] Cons.prems a by (auto simp del: borrow.simps dval.simps)
  then obtain z zs where z: "r = z # zs" by (cases r) auto
  have "dval ys \<le> dval zs"
  proof (rule ccontr)
    assume "\<not> dval ys \<le> dval zs"
    then show False using r(2,4) Cons.prems(4) by (simp add: z a)
  qed
  then obtain t where "bc_num_subArrays zs ys = Inr t" "digits t" "length t = length zs" "dval t = dval zs - dval ys"
    using Cons.IH [of zs] r Cons.prems a z by auto
  then show ?case using r by (simp add: a z del: borrow.simps)
qed simp

section \<open>Addition\<close>

lemma carry_digit: "0 \<le> (x::int) \<Longrightarrow> x \<le> 19 \<Longrightarrow> 0 \<le> x div 10 \<and> x div 10 \<le> 1"
  by linarith

lemma carry_step:
  fixes s :: int
  assumes "r + m * c = t + s div 10"
  shows "s mod 10 + 10 * r + 10 * m * c = 10 * t + s"
proof -
  have "s mod 10 + 10 * (s div 10) = s" by simp
  moreover have "10 * (r + m * c) = 10 * t + 10 * (s div 10)" using assms by simp
  ultimately show ?thesis by (simp only: distrib_left mult.assoc)
qed

lemma add_loop_correct:
  "\<lbrakk>digits xs; digits ys; length xs = length ys; 0 \<le> c; c \<le> 1; add_loop xs ys c = (r, c')\<rbrakk> \<Longrightarrow>
    digits r \<and> length r = length xs \<and> 0 \<le> c' \<and> c' \<le> 1 \<and> dval r + 10 ^ length xs * c' = dval xs + dval ys + c"
proof (induction xs ys c arbitrary: r c' rule: add_loop.induct)
  case (1 x xs y ys c)
  obtain r1 c1 where e: "add_loop xs ys ((x + y + c) div 10) = (r1, c1)" by (metis surj_pair)
  have k: "0 \<le> (x + y + c) div 10 \<and> (x + y + c) div 10 \<le> 1" using 1(2-6) by (intro carry_digit) auto
  have i: "digits r1 \<and> length r1 = length xs \<and> 0 \<le> c1 \<and> c1 \<le> 1
      \<and> dval r1 + 10 ^ length xs * c1 = dval xs + dval ys + (x + y + c) div 10"
    using 1(1) [OF refl _ _ _ _ _ e] 1(2-6) k by simp
  have "r = (x + y + c) mod 10 # r1" "c' = c1" using 1(7) e by (simp_all add: Let_def)
  then show ?case using i carry_step [of "dval r1" "10 ^ length xs" c1 "dval xs + dval ys" "x + y + c"] by simp
qed simp_all

lemma carry_loop_correct:
  "\<lbrakk>digits xs; 0 \<le> c; c \<le> 1; carry_loop xs c = (r, c')\<rbrakk> \<Longrightarrow>
    digits r \<and> length r = length xs \<and> 0 \<le> c' \<and> c' \<le> 1 \<and> dval r + 10 ^ length xs * c' = dval xs + c"
proof (induction xs c arbitrary: r c' rule: carry_loop.induct)
  case (1 x xs c)
  obtain r1 c1 where e: "carry_loop xs ((x + c) div 10) = (r1, c1)" by (metis surj_pair)
  have k: "0 \<le> (x + c) div 10 \<and> (x + c) div 10 \<le> 1" using 1(2-4) by (intro carry_digit) auto
  have i: "digits r1 \<and> length r1 = length xs \<and> 0 \<le> c1 \<and> c1 \<le> 1 \<and> dval r1 + 10 ^ length xs * c1 = dval xs + (x + c) div 10"
    using 1(1) [OF refl _ _ _ e] 1(2-4) k by simp
  have "r = (x + c) mod 10 # r1" "c' = c1" using 1(5) e by (simp_all add: Let_def)
  then show ?case using i carry_step [of "dval r1" "10 ^ length xs" c1 "dval xs" "x + c"] by simp
qed simp

section \<open>Multiplication\<close>

text \<open>A row: with digits \<open>cs\<close> that end in a zero just behind the row, the result stays digits.\<close>

lemma row_carry:
  fixes c x d k :: int
  assumes "0 \<le> c" "c \<le> 9" "0 \<le> x" "x \<le> 9" "0 \<le> d" "d \<le> 9" "0 \<le> k" "k \<le> 9"
  shows "0 \<le> (c + x * d + k) div 10 \<and> (c + x * d + k) div 10 \<le> 9"
proof -
  have "0 \<le> x * d" "x * d \<le> 9 * 9" using assms mult_mono [of x 9 d 9] by simp_all
  then show ?thesis using assms by linarith
qed

lemma mul_row_correct:
  "\<lbrakk>digits xs; 0 \<le> d; d \<le> 9; digits cs; length xs < length cs; cs ! length xs = 0; 0 \<le> k; k \<le> 9; mul_row xs d cs k = (r, k')\<rbrakk> \<Longrightarrow>
    digits r \<and> length r = length cs \<and> dval r = dval cs + dval xs * d + k \<and> drop (Suc (length xs)) r = drop (Suc (length xs)) cs
    \<and> 0 \<le> k' \<and> k' \<le> 9 \<and> r ! length xs = k'"
proof (induction xs d cs k arbitrary: r k' rule: mul_row.induct)
  case (1 x xs d c cs k)
  obtain r1 k1 where e: "mul_row xs d cs ((c + x * d + k) div 10) = (r1, k1)" by (metis surj_pair)
  have k: "0 \<le> (c + x * d + k) div 10 \<and> (c + x * d + k) div 10 \<le> 9" using 1(2-10) by (intro row_carry) auto
  have i: "digits r1 \<and> length r1 = length cs \<and> dval r1 = dval cs + dval xs * d + (c + x * d + k) div 10
      \<and> drop (Suc (length xs)) r1 = drop (Suc (length xs)) cs \<and> 0 \<le> k1 \<and> k1 \<le> 9 \<and> r1 ! length xs = k1"
    using 1(1) [OF refl _ _ _ _ _ _ _ _ e] 1(2-10) k by simp
  have r: "r = (c + x * d + k) mod 10 # r1" "k' = k1" using 1(10) e by (simp_all add: Let_def)
  have "dval r = (c + x * d + k) mod 10 + 10 * ((c + x * d + k) div 10) + 10 * (dval cs + dval xs * d)"
    using i by (simp add: r)
  also have "\<dots> = dval (c # cs) + dval (x # xs) * d + k" by (simp add: algebra_simps)
  finally show ?case using i by (simp add: r)
qed auto

lemma mul_rows_step:
  assumes "digits a" "digits (d # ds)" "digits cs" "length cs = length a + length (d # ds) + 1" "dval (drop (length a) cs) = 0"
    and m: "mul_rows a (d # ds) i cs l = (r, l')"
  obtains c t t' where "r = c # t'" "digits (c # t)" "length t = length a + length ds + 1" "dval (c # t) = dval cs + dval a * d"
    "dval (drop (length a) t) = 0" "mul_rows a ds (i + 1) t (max l (i + length a + of_bool ((c # t) ! length a \<noteq> 0))) = (t', l')"
proof -
  obtain r1 k where e: "mul_row a d cs 0 = (r1, k)" by (metis surj_pair)
  have z: "\<forall>c \<in> set (drop (length a) cs). c = 0" using assms by (simp flip: dval_0_iff)
  have "drop (length a) cs = cs ! length a # drop (Suc (length a)) cs" using assms(4) by (simp add: Cons_nth_drop_Suc)
  with z have z: "cs ! length a = 0" "\<forall>c \<in> set (drop (Suc (length a)) cs). c = 0" by auto
  have r1: "digits r1 \<and> length r1 = length cs \<and> dval r1 = dval cs + dval a * d + 0
      \<and> drop (Suc (length a)) r1 = drop (Suc (length a)) cs \<and> 0 \<le> k \<and> k \<le> 9 \<and> r1 ! length a = k"
    using mul_row_correct [OF _ _ _ _ _ _ _ _ e] assms z(1) by simp
  obtain c t where c: "r1 = c # t" using r1 assms(4) by (cases r1) auto
  obtain t' l1 where t': "mul_rows a ds (i + 1) t (max l (i + length a + of_bool (k \<noteq> 0))) = (t', l1)" by (metis surj_pair)
  have "(r, l') = (c # t', l1)" using m unfolding mul_rows.simps e prod.case Let_def c list.sel t' by simp
  moreover have "dval (drop (length a) t) = 0"
    using z(2) r1 assms(3) by (subst dval_0_iff) (simp_all add: c)
  ultimately show thesis using that [of c t' t] r1 t' c assms(4) by simp
qed

lemma mul_rows_correct:
  "\<lbrakk>digits a; digits b; digits cs; length cs = length a + length b + 1; dval (drop (length a) cs) = 0;
    mul_rows a b i cs l = (r, l')\<rbrakk> \<Longrightarrow> digits r \<and> length r = length cs \<and> dval r = dval cs + dval a * dval b"
proof (induction b arbitrary: i cs l r l')
  case (Cons d ds)
  obtain c t t' where s: "r = c # t'" "digits (c # t)" "length t = length a + length ds + 1" "dval (c # t) = dval cs + dval a * d"
    "dval (drop (length a) t) = 0" "mul_rows a ds (i + 1) t (max l (i + length a + of_bool ((c # t) ! length a \<noteq> 0))) = (t', l')"
    by (rule mul_rows_step [OF Cons.prems])
  have "digits t' \<and> length t' = length t \<and> dval t' = dval t + dval a * dval ds"
    using Cons.IH [OF _ _ _ _ _ s(6)] Cons.prems s(2,3,5) by simp
  then show ?case using s(1-4) Cons.prems(4) by (simp add: algebra_simps)
qed simp

text \<open>The length that is computed with the rows: one digit more when the last carry is not zero.\<close>

lemma mul_rows_len:
  "\<lbrakk>digits a; digits b; digits cs; length cs = length a + length b + 1; dval (drop (length a) cs) = 0; b \<noteq> [];
    mul_rows a b i cs l = (r, l')\<rbrakk> \<Longrightarrow>
    l' = max l (i + length b - 1 + length a + of_bool (r ! (length a + length b - 1) \<noteq> 0))"
proof (induction b arbitrary: i cs l r l')
  case (Cons d ds)
  obtain c t t' where s: "r = c # t'" "digits (c # t)" "length t = length a + length ds + 1" "dval (c # t) = dval cs + dval a * d"
    "dval (drop (length a) t) = 0" "mul_rows a ds (i + 1) t (max l (i + length a + of_bool ((c # t) ! length a \<noteq> 0))) = (t', l')"
    by (rule mul_rows_step [OF Cons.prems(1-5,7)])
  show ?case
  proof (cases "ds = []")
    case True
    then show ?thesis using s(1,6) by auto
  next
    case False
    let ?l = "max l (i + length a + of_bool ((c # t) ! length a \<noteq> 0))"
    have "l' = max ?l (i + 1 + length ds - 1 + length a + of_bool (t' ! (length a + length ds - 1) \<noteq> 0))"
      using Cons.IH [OF _ _ _ _ _ False s(6)] Cons.prems s(2,3,5) by simp
    moreover have "r ! (length a + length (d # ds) - 1) = t' ! (length a + length ds - 1)"
      using False by (simp add: s(1) nth_Cons')
    moreover have "i + length a + of_bool ((c # t) ! length a \<noteq> 0) \<le> i + 1 + length ds - 1 + length a"
      using False by (cases ds) auto
    ultimately show ?thesis unfolding length_Cons by (simp only: add_Suc_right diff_Suc_1 add_Suc Suc_eq_plus1) linarith
  qed
qed simp

section \<open>Division\<close>

text \<open>The test of the inner loop, for a remainder below ten times the divisor.\<close>

lemma div_test:
  assumes "digits n" "digits b" "l < length n" "l \<le> length b" "dval n < 10 * dval (take l b)"
  shows "(n ! l \<noteq> 0 \<or> bc_num_compare n b l \<ge> 0) \<longleftrightarrow> dval (take l b) \<le> dval n"
proof -
  let ?B = "dval (take l b)" and ?T = "dval (take l n)"
  have B: "?B < 10 ^ l" using dval_less [of "take l b"] assms by simp
  have "n = take l n @ n ! l # drop (Suc l) n" using assms(3) by (simp add: id_take_nth_drop)
  then have e: "dval n = ?T + 10 ^ l * (n ! l + 10 * dval (drop (Suc l) n))"
    using assms(3) by (metis dval.simps(2) dval_append length_take min.absorb4)
  have nl: "0 \<le> n ! l" using assms(1,3) by (auto simp: digits_def)
  have z: "0 \<le> dval (drop (Suc l) n)" "0 \<le> ?T" using assms(1) by simp_all
  have "dval (drop (Suc l) n) = 0"
  proof (rule ccontr)
    assume "dval (drop (Suc l) n) \<noteq> 0"
    then have "10 ^ l * 10 \<le> 10 ^ l * (n ! l + 10 * dval (drop (Suc l) n))" using z nl by (intro mult_left_mono) auto
    then show False using e z B assms(5) by linarith
  qed
  then have e: "dval n = ?T + 10 ^ l * n ! l" using e by simp
  have c: "bc_num_compare n b l \<ge> 0 \<longleftrightarrow> ?B \<le> ?T"
    using compare_sgn [OF assms(1,2), of l] assms(3,4) by (simp add: sgn_if split: if_splits)
  show ?thesis
  proof (cases "n ! l = 0")
    case False
    then have "10 ^ l * 1 \<le> 10 ^ l * n ! l" using nl by (intro mult_left_mono) auto
    then show ?thesis using False e z B by linarith
  qed (use c e in simp)
qed

lemma div_digit_correct:
  assumes "digits b" "l \<le> length b" "0 < dval (take l b)"
  shows "\<lbrakk>digits n; l < length n; dval n < 10 * dval (take l b); dval n < int f * dval (take l b)\<rbrakk> \<Longrightarrow>
    \<exists>n'. div_digit f n b l q = Inr (n', q + dval n div dval (take l b)) \<and> digits n' \<and> length n' = length n
      \<and> dval n' = dval n mod dval (take l b)"
proof (induction f arbitrary: n q)
  case 0
  then have "dval n < 0" "0 \<le> dval n" by simp_all
  then show ?case by linarith
next
  case (Suc f)
  let ?B = "dval (take l b)"
  note t = div_test [OF Suc.prems(1) assms(1) Suc.prems(2) assms(2) Suc.prems(3)]
  show ?case
  proof (cases "?B \<le> dval n")
    case True
    obtain r where r: "bc_num_subArrays n (take l b) = Inr r" "digits r" "length r = length n" "dval r = dval n - ?B"
      using subArrays_correct [OF Suc.prems(1), of "take l b"] True assms Suc.prems(2) by auto
    have "dval r < int f * ?B" using Suc.prems(4) by (simp add: r algebra_simps)
    then obtain n' where n': "div_digit f r b l (q + 1) = Inr (n', q + 1 + dval r div ?B)" "digits n'" "length n' = length r"
      "dval n' = dval r mod ?B"
      using Suc.IH [of r "q + 1"] Suc.prems r assms(3) by auto
    have "dval n = dval r + ?B" by (simp add: r)
    then have "dval r div ?B = dval n div ?B - 1" "dval r mod ?B = dval n mod ?B" using assms(3) by simp_all
    then show ?thesis using n' r True t by simp
  next
    case False
    then have "dval n div ?B = 0" "dval n mod ?B = dval n" using Suc.prems(1) by (simp_all add: div_pos_pos_trivial mod_pos_pos_trivial)
    then show ?thesis using False t Suc.prems(1) by simp
  qed
qed

lemma div_loop_correct:
  assumes b: "digits b" "l \<le> length b" "0 < dval (take l b)"
  shows "\<lbrakk>digits cp; i + l \<le> length cp; dval (drop i cp) < dval (take l b)\<rbrakk> \<Longrightarrow>
    \<exists>qs. div_loop i cp b l c = Inr (qs @ c) \<and> digits qs \<and> length qs = i \<and> dval qs = dval cp div dval (take l b)"
proof (induction i arbitrary: cp c)
  case 0
  then show ?case by (simp add: div_pos_pos_trivial)
next
  case (Suc i)
  let ?B = "dval (take l b)" and ?n = "drop i cp"
  have n: "?n = cp ! i # drop (Suc i) cp" using Suc.prems(2) by (simp add: Cons_nth_drop_Suc)
  have d: "0 \<le> cp ! i \<and> cp ! i \<le> 9" using Suc.prems(1,2) by (auto simp: digits_def)
  have small: "dval ?n < 10 * ?B" using Suc.prems(3) d by (simp add: n)
  then obtain n' where n': "div_digit 10 ?n b l 0 = Inr (n', 0 + dval ?n div ?B)" "digits n'" "length n' = length ?n"
    "dval n' = dval ?n mod ?B"
    using div_digit_correct [OF b, of ?n 10 0] Suc.prems(1,2) by (auto simp: less_diff_conv)
  let ?q = "dval ?n div ?B" and ?cp = "take i cp @ n'"
  have l: "length (take i cp) = i" using Suc.prems(2) by simp
  obtain qs where qs: "div_loop i ?cp b l (?q # c) = Inr (qs @ ?q # c)" "digits qs" "length qs = i" "dval qs = dval ?cp div ?B"
    using Suc.IH [of ?cp "?q # c"] n' b(3) Suc.prems l by auto
  have "dval cp = dval (take i cp) + 10 ^ i * dval ?n" using dval_append [of "take i cp" ?n] l by simp
  also have q: "dval ?n = ?q * ?B + dval n'" by (simp add: n'(4))
  finally have e: "dval cp = dval ?cp + 10 ^ i * ?q * ?B" using l by (simp add: dval_append algebra_simps)
  have "dval cp div ?B = dval ?cp div ?B + 10 ^ i * ?q" using b(3) by (simp add: e)
  moreover have "0 \<le> ?q" using b(3) Suc.prems(1) by (simp add: pos_imp_zdiv_nonneg_iff)
  moreover have "?q < 10"
  proof -
    have "?q * ?B < 10 * ?B" using q small dval_nonneg [OF n'(2)] by linarith
    then show ?thesis using b(3) by (simp add: mult_less_cancel_right)
  qed
  ultimately show ?case using n'(1) qs by (intro exI [of _ "qs @ [?q]"]) (simp add: dval_append)
qed

end
