(* ===== verification/Bc_Correct.thy ===== *)
theory Bc_Correct
  imports Bc_Digits
begin

text \<open>
  The numbers of \<^verbatim>\<open>bc.c\<close> as rationals: the form that every operation keeps (\<open>bc_ok\<close>), what cleaning, cutting
  and extending do to them, and what comparison, addition and subtraction compute.
\<close>

section \<open>Values\<close>

definition bc_ok :: "BcNum \<Rightarrow> bool" where
  "bc_ok n \<longleftrightarrow> digits (num n) \<and>
     (if num n = [] then \<not> neg n
      else rdx n \<le> len n \<and> dval (num n) \<noteq> 0 \<and> (rdx n < len n \<longrightarrow> List.last (num n) \<noteq> 0))"

definition bc_abs :: "BcNum \<Rightarrow> rat" where
  "bc_abs n = of_int (dval (num n)) / 10 ^ rdx n"

definition bc_value :: "BcNum \<Rightarrow> rat" where
  "bc_value n = (if neg n then - bc_abs n else bc_abs n)"

text \<open>Cutting a number behind \<open>s\<close> places.\<close>

definition bc_cut :: "nat \<Rightarrow> rat \<Rightarrow> rat" where
  "bc_cut s x = sgn x * of_int \<lfloor>\<bar>x\<bar> * 10 ^ s\<rfloor> / 10 ^ s"

text \<open>The numbers that the routines work on before the last \<open>bc_num_clean\<close>.\<close>

definition raw_ok :: "BcNum \<Rightarrow> bool" where
  "raw_ok n \<longleftrightarrow> digits (num n) \<and> (rdx n \<le> len n \<or> dval (num n) = 0)"

lemma bc_okI:
  "digits (num n) \<Longrightarrow> dval (num n) \<noteq> 0 \<Longrightarrow> rdx n \<le> len n \<Longrightarrow> (rdx n < len n \<Longrightarrow> List.last (num n) \<noteq> 0) \<Longrightarrow> bc_ok n \<and> num n \<noteq> []"
  by (auto simp: bc_ok_def)

lemma ok_raw: "bc_ok n \<Longrightarrow> raw_ok n"
  by (auto simp: bc_ok_def raw_ok_def split: if_splits)

lemma ok_digits: "bc_ok n \<Longrightarrow> digits (num n)"
  by (simp add: bc_ok_def)

lemma ok_rdx: "bc_ok n \<Longrightarrow> num n \<noteq> [] \<Longrightarrow> rdx n \<le> len n"
  by (simp add: bc_ok_def)

lemma ok_nonzero: "bc_ok n \<Longrightarrow> dval (num n) = 0 \<longleftrightarrow> num n = []"
  by (auto simp: bc_ok_def split: if_splits)

lemma bc_abs_nonneg: "raw_ok n \<Longrightarrow> 0 \<le> bc_abs n"
  by (simp add: bc_abs_def raw_ok_def)

lemma bc_abs_0: "bc_ok n \<Longrightarrow> bc_abs n = 0 \<longleftrightarrow> num n = []"
  by (simp add: bc_abs_def ok_nonzero)

lemma bc_value_0: "bc_ok n \<Longrightarrow> bc_value n = 0 \<longleftrightarrow> num n = []"
  by (simp add: bc_value_def bc_abs_0)

lemma bc_value_neg: "bc_ok n \<Longrightarrow> num n \<noteq> [] \<Longrightarrow> sgn (bc_value n) = (if neg n then - 1 else 1)"
  using bc_abs_nonneg [OF ok_raw, of n] bc_abs_0 [of n] by (auto simp: bc_value_def sgn_if)

lemma bc_value_abs: "raw_ok n \<Longrightarrow> \<bar>bc_value n\<bar> = bc_abs n"
  using bc_abs_nonneg [of n] by (simp add: bc_value_def)

section \<open>Changing the scale\<close>

definition strip :: "int list \<Rightarrow> int list" where
  "strip ds = rev (dropWhile (\<lambda>d. d = 0) (rev ds))"

lemma strip_snoc: "strip [] = []" "strip (xs @ [x]) = (if x = 0 then strip xs else xs @ [x])"
  by (simp_all add: strip_def)

lemma strip_append: "\<exists>k. ds = strip ds @ replicate k 0"
proof (induction ds rule: rev_induct)
  case (snoc x xs)
  then obtain k where "xs = strip xs @ replicate k 0" by blast
  then have "x = 0 \<Longrightarrow> xs @ [x] = strip (xs @ [x]) @ replicate (Suc k) 0"
    by (metis append_assoc replicate_Suc replicate_append_same strip_snoc(2))
  moreover have "x \<noteq> 0 \<Longrightarrow> xs @ [x] = strip (xs @ [x]) @ replicate 0 0" by (simp add: strip_snoc)
  ultimately show ?case by blast
qed (simp add: strip_snoc)

lemma strip_last: "strip ds \<noteq> [] \<Longrightarrow> List.last (strip ds) \<noteq> 0"
  unfolding strip_def using hd_dropWhile [of "\<lambda>d. d = 0" "rev ds"] by (simp add: last_rev)

lemma dval_strip: "dval (strip ds) = dval ds"
  using strip_append [of ds] by (metis add.right_neutral dval_append dval_replicate mult_zero_right)

lemma digits_strip: "digits ds \<Longrightarrow> digits (strip ds)"
  using strip_append [of ds] by (metis digits_simps(3))

lemma strip_Nil_iff: "digits ds \<Longrightarrow> strip ds = [] \<longleftrightarrow> dval ds = 0"
proof
  assume "digits ds" "dval ds = 0"
  then show "strip ds = []" by (simp add: dval_0_iff strip_def)
qed (metis dval.simps(1) dval_strip)

lemma clean_strip: "bc_num_clean n =
   (if strip (num n) = [] then n\<lparr>num := [], neg := False\<rparr>
    else if length (strip (num n)) < rdx n then n\<lparr>num := take (rdx n) (num n)\<rparr> else n\<lparr>num := strip (num n)\<rparr>)"
  by (simp add: bc_num_clean_def strip_def Let_def)

lemma take_strip:
  assumes "length (strip ds) \<le> k"
  shows "dval (take k ds) = dval ds"
proof -
  obtain j where "ds = strip ds @ replicate j 0" using strip_append by blast
  then have "take k ds = strip ds @ take (k - length (strip ds)) (replicate j 0)" using assms by (metis take_append take_all)
  then show ?thesis by (simp add: dval_append dval_strip)
qed

lemma clean_correct:
  assumes "raw_ok n"
  shows "bc_ok (bc_num_clean n) \<and> dval (num (bc_num_clean n)) = dval (num n) \<and> rdx (bc_num_clean n) = rdx n
    \<and> neg (bc_num_clean n) = (neg n \<and> dval (num n) \<noteq> 0)"
proof (cases "dval (num n) = 0")
  case True
  then show ?thesis using assms by (simp add: clean_strip raw_ok_def strip_Nil_iff bc_ok_def)
next
  case False
  have d: "digits (num n)" "rdx n \<le> len n" using assms False by (simp_all add: raw_ok_def)
  have s: "strip (num n) \<noteq> []" using d(1) False by (simp add: strip_Nil_iff)
  show ?thesis
  proof (cases "length (strip (num n)) < rdx n")
    case True
    then have "dval (take (rdx n) (num n)) = dval (num n)" by (intro take_strip) simp
    then show ?thesis using True s d False by (auto simp: clean_strip bc_ok_def)
  next
    case *: False
    then show ?thesis using s d False strip_last [OF s] by (simp add: clean_strip bc_ok_def dval_strip digits_strip)
  qed
qed

lemma clean_value: "raw_ok n \<Longrightarrow> bc_value (bc_num_clean n) = bc_value n"
  using clean_correct [of n] by (auto simp: bc_value_def bc_abs_def)

lemma extend_correct:
  "raw_ok n \<Longrightarrow> raw_ok (bc_num_extend n p) \<and> rdx (bc_num_extend n p) = rdx n + p \<and> neg (bc_num_extend n p) = neg n
    \<and> dval (num (bc_num_extend n p)) = 10 ^ p * dval (num n) \<and> len (bc_num_extend n p) = len n + p"
  by (auto simp: bc_num_extend_def raw_ok_def dval_append)

lemma extend_abs: "bc_abs (bc_num_extend n p) = bc_abs n"
  by (simp add: bc_num_extend_def bc_abs_def dval_append power_add)

lemma dval_drop: "digits ds \<Longrightarrow> p \<le> length ds \<Longrightarrow> dval (drop p ds) = dval ds div 10 ^ p"
  using dval_split [of ds p] dval_less [of "take p ds"] by (simp add: min_absorb1 div_pos_pos_trivial)

lemma truncate_correct:
  assumes "raw_ok n" "p \<le> rdx n"
  shows "raw_ok (bc_num_truncate n p) \<and> rdx (bc_num_truncate n p) = rdx n - p \<and> neg (bc_num_truncate n p) = neg n
    \<and> dval (num (bc_num_truncate n p)) = dval (num n) div 10 ^ p"
proof (cases "dval (num n) = 0")
  case True
  then have "dval (drop p (num n)) = 0" using assms by (auto simp: raw_ok_def dval_0_iff dest: in_set_dropD)
  then show ?thesis using assms True by (auto simp: bc_num_truncate_def raw_ok_def Let_def)
next
  case False
  then have "rdx n \<le> len n" using assms(1) by (simp add: raw_ok_def)
  then show ?thesis using assms dval_drop [of "num n" p] by (auto simp: bc_num_truncate_def raw_ok_def Let_def)
qed

lemma retireMul_correct:
  assumes "raw_ok n" "r = bc_num_retireMul n s n1 n2"
  shows "bc_ok r \<and> rdx r = s \<and> dval (num r) = dval (num n) * 10 ^ s div 10 ^ rdx n \<and> neg r = (n1 \<noteq> n2 \<and> num r \<noteq> [])"
proof -
  define m where "m = (if rdx n < s then bc_num_extend n (s - rdx n) else bc_num_truncate n (rdx n - s))"
  have m: "raw_ok m \<and> rdx m = s \<and> dval (num m) = dval (num n) * 10 ^ s div 10 ^ rdx n"
  proof (cases "rdx n < s")
    case True
    then have "(10::int) ^ s = 10 ^ (s - rdx n) * 10 ^ rdx n" by (simp flip: power_add)
    then show ?thesis using True extend_correct [OF assms(1), of "s - rdx n"] by (simp add: m_def)
  next
    case False
    then have "(10::int) ^ rdx n = 10 ^ (rdx n - s) * 10 ^ s" by (simp flip: power_add)
    then show ?thesis using False truncate_correct [OF assms(1), of "rdx n - s"] by (simp add: m_def)
  qed
  have "r = (if len (bc_num_clean m) \<noteq> 0 then (bc_num_clean m)\<lparr>neg := (n1 \<noteq> n2)\<rparr> else bc_num_clean m)"
    by (simp add: assms(2) bc_num_retireMul_def m_def Let_def)
  then show ?thesis using clean_correct [of m] m by (auto simp: bc_ok_def split: if_splits)
qed

lemma floor_scaled: "\<lfloor>bc_abs n * 10 ^ s\<rfloor> = dval (num n) * 10 ^ s div 10 ^ rdx n"
proof -
  have "bc_abs n * 10 ^ s = of_int (dval (num n) * 10 ^ s) / of_int (10 ^ rdx n)" by (simp add: bc_abs_def)
  then show ?thesis by (metis floor_divide_of_int_eq)
qed

lemma retireMul_floor:
  assumes "raw_ok n" "r = bc_num_retireMul n s n1 n2" "\<lfloor>\<bar>x\<bar> * 10 ^ s\<rfloor> = \<lfloor>bc_abs n * 10 ^ s\<rfloor>" "x \<noteq> 0 \<Longrightarrow> x < 0 \<longleftrightarrow> n1 \<noteq> n2"
  shows "bc_ok r \<and> rdx r = s \<and> bc_value r = bc_cut s x"
proof -
  note r = retireMul_correct [OF assms(1,2)]
  then have a: "bc_abs r = of_int \<lfloor>\<bar>x\<bar> * 10 ^ s\<rfloor> / 10 ^ s" unfolding assms(3) floor_scaled by (simp add: bc_abs_def)
  show ?thesis
  proof (cases "num r = []")
    case True
    then have "bc_abs r = 0" by (simp add: bc_abs_def)
    then show ?thesis using a r by (auto simp: bc_cut_def bc_value_def)
  next
    case False
    then have "x \<noteq> 0" using a bc_abs_0 [of r] r by auto
    then show ?thesis using a r False assms(4) by (auto simp: bc_cut_def bc_value_def sgn_if)
  qed
qed

lemma retireMul_value:
  assumes "raw_ok n" "r = bc_num_retireMul n s n1 n2" "\<bar>x\<bar> = bc_abs n" "x \<noteq> 0 \<Longrightarrow> x < 0 \<longleftrightarrow> n1 \<noteq> n2"
  shows "bc_ok r \<and> rdx r = s \<and> bc_value r = bc_cut s x"
  using assms by (intro retireMul_floor) simp_all

section \<open>Comparison\<close>

lemma int_part_bounds:
  assumes "bc_ok a" "num a \<noteq> []"
  shows "bc_abs a < 10 ^ BC_NUM_INT a" "BC_NUM_INT a > 0 \<Longrightarrow> 10 ^ (BC_NUM_INT a - 1) \<le> bc_abs a"
proof -
  have r: "rdx a \<le> len a" "digits (num a)" using assms ok_rdx ok_digits by blast+
  have "dval (num a) < 10 ^ BC_NUM_INT a * 10 ^ rdx a"
    using dval_less [OF r(2)] r(1) by (simp add: BC_NUM_INT_def flip: power_add)
  then have "(of_int (dval (num a)) :: rat) < of_int (10 ^ BC_NUM_INT a * 10 ^ rdx a)" by (simp only: of_int_less_iff)
  then show "bc_abs a < 10 ^ BC_NUM_INT a" by (simp add: bc_abs_def divide_less_eq)
  assume i: "BC_NUM_INT a > 0"
  then have "10 ^ (len a - 1) \<le> dval (num a)"
    using assms by (intro dval_nonzero_top) (auto simp: bc_ok_def BC_NUM_INT_def)
  moreover have "len a - 1 = (BC_NUM_INT a - 1) + rdx a" using i by (simp add: BC_NUM_INT_def)
  ultimately have "10 ^ (BC_NUM_INT a - 1) * 10 ^ rdx a \<le> dval (num a)" by (simp add: power_add)
  then have "(of_int (10 ^ (BC_NUM_INT a - 1) * 10 ^ rdx a) :: rat) \<le> of_int (dval (num a))" by (simp only: of_int_le_iff)
  then show "10 ^ (BC_NUM_INT a - 1) \<le> bc_abs a" by (simp add: bc_abs_def le_divide_eq)
qed

lemma int_part_less:
  assumes "bc_ok a" "num a \<noteq> []" "bc_ok b" "num b \<noteq> []" "BC_NUM_INT a < BC_NUM_INT b"
  shows "bc_abs a < bc_abs b"
proof -
  have "bc_abs a < 10 ^ BC_NUM_INT a" by (rule int_part_bounds [OF assms(1,2)])
  also have "\<dots> \<le> 10 ^ (BC_NUM_INT b - 1)" using assms(5) by (intro power_increasing) auto
  also have "\<dots> \<le> bc_abs b" using assms by (intro int_part_bounds) auto
  finally show ?thesis .
qed

lemma sgn_scaled: "sgn (of_int z / 10 ^ k :: rat) = of_int (sgn z)"
  by (auto simp: sgn_if divide_less_0_iff zero_less_divide_iff)

text \<open>The comparison of the digits when the integer parts have the same length: \<open>x\<close> is the number with more places.\<close>

lemma compare_same_int:
  assumes x: "digits (num x)" "rdx x \<le> len x" and y: "digits (num y)" "rdx y \<le> len y"
    and "rdx y \<le> rdx x" "BC_NUM_INT x = BC_NUM_INT y"
    and c: "c = bc_num_compare (drop (rdx x - rdx y) (num x)) (num y) (BC_NUM_INT y + rdx y)"
  shows "sgn (bc_abs x - bc_abs y) = of_int (sgn (if c \<noteq> 0 then c
     else of_bool (list_ex (\<lambda>d. d \<noteq> 0) (take (rdx x - rdx y) (num x)))))"
proof -
  let ?d = "rdx x - rdx y" and ?X = "dval (drop (rdx x - rdx y) (num x))" and ?Y = "dval (num y)"
  let ?L = "dval (take (rdx x - rdx y) (num x))"
  have l: "BC_NUM_INT y + rdx y = len y" "len x - ?d = len y" using assms by (simp_all add: BC_NUM_INT_def)
  have cs: "sgn c = sgn (?X - ?Y)"
    unfolding c using compare_sgn [of "drop ?d (num x)" "num y" "BC_NUM_INT y + rdx y"] x y l by simp
  have "dval (num x) = ?L + 10 ^ ?d * ?X" using dval_split [of "num x" ?d] x(2) by (simp add: min_absorb1)
  then have "bc_abs x - bc_abs y = (of_int (?L + 10 ^ ?d * ?X) - of_int ?Y * 10 ^ ?d) / 10 ^ rdx x"
    using assms(5) by (simp add: bc_abs_def diff_divide_distrib power_diff)
  also have "\<dots> = of_int (?L - 0 + 10 ^ ?d * (?X - ?Y)) / 10 ^ rdx x" by (simp add: algebra_simps)
  finally have s: "sgn (bc_abs x - bc_abs y) = of_int (sgn (?L - 0 + 10 ^ ?d * (?X - ?Y)))"
    by (simp only: sgn_scaled)
  have L: "0 \<le> ?L" "?L < 10 ^ ?d" using x dval_less [of "take ?d (num x)"] by simp_all
  show ?thesis
  proof (cases "?X = ?Y")
    case True
    then have "c = 0" using cs by (simp add: sgn_0_0)
    moreover have "list_ex (\<lambda>d. d \<noteq> 0) (take ?d (num x)) \<longleftrightarrow> ?L \<noteq> 0"
      using x(1) by (simp add: dval_0_iff list_ex_iff)
    ultimately show ?thesis using s True L by (simp add: sgn_if)
  next
    case False
    then have "sgn (?L - 0 + 10 ^ ?d * (?X - ?Y)) = sgn (?X - ?Y)" using L by (intro sgn_top) auto
    moreover have "c \<noteq> 0" using cs False by (metis right_minus_eq sgn_0 sgn_0_0)
    ultimately show ?thesis using s cs by simp
  qed
qed

lemma cmp_sgn:
  assumes a: "bc_ok a" and b: "bc_ok b"
  shows "sgn (bc_value a - bc_value b) = of_int (sgn (bc_num_cmp a b))"
proof -
  consider "num a = []" | "num a \<noteq> []" "num b = []" | "num a \<noteq> []" "num b \<noteq> []" "neg a \<noteq> neg b"
    | "num a \<noteq> []" "num b \<noteq> []" "neg a = neg b" by blast
  then show ?thesis
  proof cases
    case 1
    then have "bc_value a = 0" using a by (simp add: bc_value_0)
    then show ?thesis using 1 b bc_value_neg [OF b] bc_value_0 [OF b]
      by (cases "num b = []") (auto simp: bc_num_cmp_def BC_NUM_NEG_def sgn_minus)
  next
    case 2
    then have "bc_value b = 0" using b by (simp add: bc_value_0)
    then show ?thesis using 2 bc_value_neg [OF a] by (auto simp: bc_num_cmp_def BC_NUM_NEG_def)
  next
    case 3
    then show ?thesis using bc_abs_0 [OF a] bc_abs_0 [OF b] bc_abs_nonneg [OF ok_raw [OF a]] bc_abs_nonneg [OF ok_raw [OF b]]
      by (auto simp: bc_num_cmp_def bc_value_def sgn_if)
  next
    case 4
    have r: "rdx a \<le> len a" "rdx b \<le> len b" "digits (num a)" "digits (num b)"
      using 4 a b ok_rdx ok_digits by blast+
    let ?s = "\<lambda>x. if neg a then - x else (x :: rat)" and ?t = "\<lambda>x. if neg a then - x else (x :: int)"
    have v: "sgn (bc_value a - bc_value b) = ?s (sgn (bc_abs a - bc_abs b))"
      using 4 by (auto simp: bc_value_def sgn_if)
    have "sgn (bc_abs a - bc_abs b) = of_int (?t (sgn (bc_num_cmp a b)))"
    proof (cases "BC_NUM_INT a = BC_NUM_INT b")
      case False
      then have "sgn (bc_abs a - bc_abs b) = of_int (sgn (int (BC_NUM_INT a) - int (BC_NUM_INT b)))"
        using int_part_less [of a b] int_part_less [of b a] 4 a b by (cases "BC_NUM_INT a < BC_NUM_INT b") auto
      then show ?thesis using 4 False by (auto simp: bc_num_cmp_def Let_def sgn_if)
    next
      case i: True
      show ?thesis
      proof (cases "rdx b < rdx a")
        case True
        then show ?thesis using True i 4
          using compare_same_int [of a b, OF r(3,1,4,2) _ i refl]
          by (auto simp: bc_num_cmp_def Let_def BC_NUM_NEG_def sgn_minus)
      next
        case False
        have "sgn (bc_abs a - bc_abs b) = - sgn (bc_abs b - bc_abs a)" by (simp add: sgn_if)
        then show ?thesis using False i 4 compare_same_int [of b a, OF r(4,2,3,1) _ i [symmetric] refl]
          by (auto simp: bc_num_cmp_def Let_def BC_NUM_NEG_def sgn_minus)
      qed
    qed
    then show ?thesis using v by simp
  qed
qed

section \<open>Addition and subtraction\<close>

lemma last_nonzero: "digits ds \<Longrightarrow> ds \<noteq> [] \<Longrightarrow> 10 ^ (length ds - 1) \<le> dval ds \<Longrightarrow> List.last ds \<noteq> 0"
proof
  assume d: "digits ds" "ds \<noteq> []" "10 ^ (length ds - 1) \<le> dval ds" "List.last ds = 0"
  then have "ds = butlast ds @ [0]" by (metis append_butlast_last_id)
  then have "dval ds = dval (butlast ds)" by (metis dval.simps dval_append mult_zero_right add_0_right)
  moreover have "digits (butlast ds)" using d(1) by (simp add: butlast_conv_take)
  ultimately show False using dval_less [of "butlast ds"] d(3) by simp
qed

lemma aligned_add:
  assumes "digits xs" "digits ys" "i = min (length xs) (length ys)" "z = (if length ys < length xs then xs else ys)"
    and low: "add_loop (take i xs) (take i ys) 0 = (low, c1)" and high: "carry_loop (drop i z) c1 = (high, c2)"
  shows "digits (low @ high) \<and> length (low @ high) = length z \<and> dval (low @ high @ (if c2 \<noteq> 0 then [c2] else [])) = dval xs + dval ys
    \<and> 0 \<le> c2 \<and> c2 \<le> 1"
proof -
  have l: "digits low \<and> length low = i \<and> 0 \<le> c1 \<and> c1 \<le> 1 \<and> dval low + 10 ^ i * c1 = dval (take i xs) + dval (take i ys)"
    using add_loop_correct [OF _ _ _ _ _ low] assms(1-3) by simp
  have h: "digits high \<and> length high = length (drop i z) \<and> 0 \<le> c2 \<and> c2 \<le> 1 \<and> dval high + 10 ^ length (drop i z) * c2 = dval (drop i z) + c1"
    using carry_loop_correct [OF _ _ _ high] assms(1,2,4) l by auto
  have "dval xs + dval ys = dval (take i xs) + dval (take i ys) + 10 ^ i * dval (drop i z)"
    using dval_split [of xs i] dval_split [of ys i] assms(3,4) by (cases "length ys < length xs") (simp_all add: min_def)
  also have "\<dots> = dval low + 10 ^ i * (c1 + dval (drop i z))" using l by (simp add: algebra_simps)
  also have "c1 + dval (drop i z) = dval (high @ (if c2 \<noteq> 0 then [c2] else []))" using h by (auto simp: dval_append)
  also have "dval low + 10 ^ i * \<dots> = dval (low @ high @ (if c2 \<noteq> 0 then [c2] else []))" using l by (simp add: dval_append)
  finally show ?thesis using l h assms(3,4) by auto
qed

lemma aligned_last:
  assumes "digits xs" "digits ys" "z = (if length ys < length xs then xs else ys)" "z \<noteq> []" "List.last z \<noteq> 0"
    and r: "digits r" "dval r = dval xs + dval ys" "length r = length z"
  shows "List.last r \<noteq> 0"
proof (rule last_nonzero [OF r(1)])
  have "digits z" using assms by auto
  then have "10 ^ (length z - 1) \<le> dval z" using assms(4,5) by (rule dval_nonzero_top)
  also have "\<dots> \<le> dval xs + dval ys" using assms(1-3) dval_nonneg [of xs] dval_nonneg [of ys] by auto
  finally show "10 ^ (length r - 1) \<le> dval r" using r by simp
qed (use r assms(4) in auto)

lemma abs_low:
  "p \<le> rdx n \<Longrightarrow> rdx n \<le> len n \<Longrightarrow>
    bc_abs n = of_int (dval (take p (num n))) / 10 ^ rdx n + of_int (dval (drop p (num n))) / 10 ^ (rdx n - p)"
  using dval_split [of "num n" p] by (simp add: bc_abs_def min_absorb1 add_divide_distrib power_diff)

lemma num_a_nonzero:
  assumes a: "bc_ok a" "num a \<noteq> []" and b: "bc_ok b" "num b \<noteq> []"
  shows "\<exists>c. zbc_num_a a b sub = Inr c \<and> bc_ok c \<and> num c \<noteq> [] \<and> bc_abs c = bc_abs a + bc_abs b \<and> neg c = neg a
    \<and> rdx c = max (rdx a) (rdx b)"
proof -
  have r: "rdx a \<le> len a" "rdx b \<le> len b" "digits (num a)" "digits (num b)"
    using a b ok_rdx ok_digits by blast+
  let ?m = "min (rdx a) (rdx b)" and ?M = "max (rdx a) (rdx b)"
  let ?D = "?M - ?m" and ?xs = "drop (rdx a - rdx b) (num a)" and ?ys = "drop (rdx b - rdx a) (num b)"
  let ?p = "if rdx a > rdx b then num a else num b"
  have lx: "length ?xs = BC_NUM_INT a + ?m" "length ?ys = BC_NUM_INT b + ?m" using r by (auto simp: BC_NUM_INT_def)
  define i where "i = min (length ?xs) (length ?ys)"
  define z where "z = (if length ?ys < length ?xs then ?xs else ?ys)"
  obtain low c1 where low: "add_loop (take i ?xs) (take i ?ys) 0 = (low, c1)" by (metis surj_pair)
  obtain high c2 where high: "carry_loop (drop i z) c1 = (high, c2)" by (metis surj_pair)
  have s: "digits (low @ high) \<and> length (low @ high) = length z
      \<and> dval (low @ high @ (if c2 \<noteq> 0 then [c2] else [])) = dval ?xs + dval ?ys \<and> 0 \<le> c2 \<and> c2 \<le> 1"
    by (rule aligned_add [OF _ _ i_def z_def low high]) (use r in simp_all)
  let ?r = "low @ high @ (if c2 \<noteq> 0 then [c2] else [])"
  let ?c = "\<lparr>num = take ?D ?p @ ?r, rdx = ?M, neg = neg a\<rparr>"
  have c: "zbc_num_a a b sub = Inr ?c"
  proof -
    have i: "i = ?m + min (BC_NUM_INT a) (BC_NUM_INT b)" unfolding i_def lx by (simp add: min_def)
    have z: "z = (if BC_NUM_INT a > BC_NUM_INT b then ?xs else ?ys)" unfolding z_def lx by simp
    have lz: "take (max (BC_NUM_INT a) (BC_NUM_INT b) + ?m) z = z" using lx by (simp add: z)
    show ?thesis
    proof (cases "BC_NUM_INT a > BC_NUM_INT b")
      case True
      then show ?thesis using a(2) b(2) low high lz
        by (cases "rdx a > rdx b") (simp_all add: zbc_num_a_def i z Let_def add.commute)
    next
      case False
      then show ?thesis using a(2) b(2) low high lz
        by (cases "rdx a > rdx b") (simp_all add: zbc_num_a_def i z Let_def add.commute)
    qed
  qed
  have d: "digits ?r" using s by auto
  have D: "length (take ?D ?p) = ?D" using r by auto
  have "of_int (dval (num ?c)) = (of_int (dval (take ?D ?p)) + 10 ^ ?D * of_int (dval ?xs + dval ?ys) :: rat)"
    using s D by (simp add: dval_append)
  also have "\<dots> / 10 ^ ?M = bc_abs a + bc_abs b"
  proof (cases "rdx a > rdx b")
    case True
    then show ?thesis using abs_low [of "rdx a - rdx b" a] r(1) by (simp add: bc_abs_def [of b] add_divide_distrib power_diff)
  next
    case False
    then show ?thesis using abs_low [of "rdx b - rdx a" b] r(2) by (simp add: bc_abs_def [of a] add_divide_distrib power_diff)
  qed
  finally have v: "bc_abs ?c = bc_abs a + bc_abs b" by (simp add: bc_abs_def)
  have "0 < bc_abs a + bc_abs b" using bc_abs_nonneg [OF ok_raw] bc_abs_0 a b by (metis add_pos_pos le_less)
  then have nz: "dval (num ?c) \<noteq> 0" using v by (auto simp: bc_abs_def)
  have lz: "?m \<le> length z" unfolding z_def using lx by simp
  have last: "List.last (num ?c) \<noteq> 0" if "?M < len ?c"
  proof (cases "c2 = 0")
    case True
    have "len ?c = ?D + length z" using s D True by simp
    then have m: "?m < length z" using that by linarith
    have "List.last z \<noteq> 0"
    proof (cases "length ?ys < length ?xs")
      case True
      then have "BC_NUM_INT a > 0" using m lx by (simp add: z_def)
      then show ?thesis using a True by (auto simp: z_def bc_ok_def BC_NUM_INT_def last_drop)
    next
      case False
      then have "BC_NUM_INT b > 0" using m lx by (simp add: z_def)
      then show ?thesis using b False by (auto simp: z_def bc_ok_def BC_NUM_INT_def last_drop)
    qed
    then have "List.last ?r \<noteq> 0"
      using m s d True r by (intro aligned_last [OF _ _ z_def, of ?r]) auto
    moreover have "?r \<noteq> []" using m s True by auto
    ultimately show ?thesis by simp
  qed simp
  have "bc_ok ?c \<and> num ?c \<noteq> []"
  proof (rule bc_okI [OF _ nz _ last])
    show "digits (num ?c)" using d r by simp
    have "length z \<le> length ?r" using s by auto
    moreover have "len ?c = ?D + length ?r" unfolding BcNum.simps length_append D ..
    ultimately show "rdx ?c \<le> len ?c" using lz unfolding BcNum.simps by linarith
  qed simp
  then show ?thesis using c v by simp
qed

lemma sub_arrays_nonzero:
  assumes x: "bc_ok x" "num x \<noteq> []" and y: "bc_ok y" "num y \<noteq> []" and less: "bc_abs y < bc_abs x"
    and c: "(c, start) = (if rdx x < rdx y then (bc_num_extend (x\<lparr>neg := n\<rparr>) (rdx y - rdx x), 0)
        else (x\<lparr>neg := n\<rparr>, rdx x - rdx y))"
  shows "\<exists>r. bc_num_subArrays (drop start (num c)) (num y) = Inr r
    \<and> (let d = bc_num_clean (c\<lparr>num := take start (num c) @ r\<rparr>)
       in bc_ok d \<and> num d \<noteq> [] \<and> bc_abs d = bc_abs x - bc_abs y \<and> neg d = n \<and> rdx d = max (rdx x) (rdx y))"
proof -
  have r: "rdx x \<le> len x" "rdx y \<le> len y" "digits (num x)" "digits (num y)"
    using x y ok_rdx ok_digits by blast+
  have int: "BC_NUM_INT y \<le> BC_NUM_INT x" using int_part_less [OF x y] less by (meson not_le order_less_asym)
  have "raw_ok (x\<lparr>neg := n\<rparr>)" using r by (simp add: raw_ok_def)
  note e = extend_correct [OF this, of "rdx y - rdx x"]
  have c': "digits (num c)" "rdx c = max (rdx x) (rdx y)" "neg c = n" "start = rdx c - rdx y" "bc_abs c = bc_abs x"
    "len c = BC_NUM_INT x + rdx c"
    using c r e extend_abs [of "x\<lparr>neg := n\<rparr>" "rdx y - rdx x"]
    by (auto simp: raw_ok_def bc_abs_def BC_NUM_INT_def split: if_splits)
  have sl: "start \<le> len c" "rdx c = rdx y + start" using c' by auto
  have l: "len y \<le> length (drop start (num c))" using int r(2) by (simp add: c'(6) sl(2) BC_NUM_INT_def)
  have "of_int (dval (num y)) * 10 ^ start < (of_int (dval (num c)) :: rat)"
  proof -
    have "of_int (dval (num y)) / 10 ^ rdx y < (of_int (dval (num c)) / 10 ^ rdx c :: rat)"
      using less c'(5) by (simp add: bc_abs_def)
    then show ?thesis by (simp add: sl(2) power_add field_simps)
  qed
  then have "dval (num y) * 10 ^ start < dval (num c)" by (metis of_int_less_iff of_int_mult of_int_numeral of_int_power)
  then have "dval (num y) \<le> dval (drop start (num c))"
    using zdiv_mono1 [of "dval (num y) * 10 ^ start" "dval (num c)" "10 ^ start"] c'(1) sl(1) by (simp add: dval_drop)
  then obtain t where t: "bc_num_subArrays (drop start (num c)) (num y) = Inr t" "digits t"
      "length t = length (drop start (num c))" "dval t = dval (drop start (num c)) - dval (num y)"
    using subArrays_correct [OF _ r(4) l] c'(1) by auto
  let ?c = "c\<lparr>num := take start (num c) @ t\<rparr>"
  have v: "dval (num ?c) = dval (num c) - 10 ^ start * dval (num y)"
    using dval_split [of "num c" start] sl(1) t(4) by (simp add: dval_append min_absorb1 right_diff_distrib)
  have "len ?c = len c" using t(3) sl(1) by simp
  then have "rdx ?c \<le> len ?c" using c'(6) by simp
  then have raw: "raw_ok ?c" using c'(1) t(2) by (simp add: raw_ok_def del: length_append)
  have "bc_abs ?c = bc_abs c - bc_abs y"
    unfolding bc_abs_def v by (simp add: sl(2) power_add diff_divide_distrib)
  then have a: "bc_abs ?c = bc_abs x - bc_abs y" by (simp only: c'(5))
  then have nz: "dval (num ?c) \<noteq> 0" using less by (auto simp: bc_abs_def)
  then have d: "bc_ok (bc_num_clean ?c)" "dval (num (bc_num_clean ?c)) = dval (num ?c)" "rdx (bc_num_clean ?c) = max (rdx x) (rdx y)"
    "neg (bc_num_clean ?c) = n"
    using clean_correct [OF raw] c'(2,3) by simp_all
  moreover have "bc_abs (bc_num_clean ?c) = bc_abs x - bc_abs y" using a d(2,3) c'(2) by (simp add: bc_abs_def)
  moreover have "num (bc_num_clean ?c) \<noteq> []" using d(2) nz by (metis dval.simps(1))
  ultimately show ?thesis unfolding Let_def using t(1) by blast
qed

lemma num_s_nonzero:
  assumes a: "bc_ok a" "num a \<noteq> []" and b: "bc_ok b" "num b \<noteq> []" and s: "neg a \<noteq> (neg b \<noteq> sub)"
  shows "\<exists>c. zbc_num_s a b sub = Inr c \<and> bc_ok c \<and> rdx c = max (rdx a) (rdx b)
    \<and> bc_value c = bc_value a + (if sub then - bc_value b else bc_value b)"
proof -
  let ?cmp = "bc_num_cmp (a\<lparr>neg := False\<rparr>) (b\<lparr>neg := False\<rparr>)"
  have "sgn (bc_abs a - bc_abs b) = of_int (sgn ?cmp)"
    using cmp_sgn [of "a\<lparr>neg := False\<rparr>" "b\<lparr>neg := False\<rparr>"] a b by (simp add: bc_ok_def bc_value_def bc_abs_def)
  then consider "?cmp = 0" "bc_abs a = bc_abs b" | "?cmp > 0" "bc_abs b < bc_abs a" | "?cmp < 0" "bc_abs a < bc_abs b"
    by (auto simp: sgn_if split: if_splits)
  then show ?thesis
  proof cases
    case 1
    then have "zbc_num_s a b sub = Inr (bc_num_setToZero (max (rdx a) (rdx b)))"
      using a b by (simp add: zbc_num_s_def)
    then show ?thesis using 1 s by (auto simp: bc_num_setToZero_def bc_ok_def bc_value_def bc_abs_def)
  next
    case 2
    obtain c start where c: "(c, start) = (if rdx a < rdx b then (bc_num_extend (a\<lparr>neg := neg a\<rparr>) (rdx b - rdx a), 0)
        else (a\<lparr>neg := neg a\<rparr>, rdx a - rdx b))" by (metis surj_pair)
    from sub_arrays_nonzero [OF a b 2(2) c] obtain d where "zbc_num_s a b sub = Inr d" "bc_ok d" "bc_abs d = bc_abs a - bc_abs b"
      "neg d = neg a" "rdx d = max (rdx a) (rdx b)"
      using 2 a b c by (auto simp: zbc_num_s_def Let_def split: if_splits)
    then show ?thesis using s by (auto simp: bc_value_def)
  next
    case 3
    let ?n = "if sub then \<not> neg b else neg b"
    obtain c start where c: "(c, start) = (if rdx b < rdx a then (bc_num_extend (b\<lparr>neg := ?n\<rparr>) (rdx a - rdx b), 0)
        else (b\<lparr>neg := ?n\<rparr>, rdx b - rdx a))" by (metis surj_pair)
    from sub_arrays_nonzero [OF b a 3(2) c] obtain d where "zbc_num_s a b sub = Inr d" "bc_ok d" "bc_abs d = bc_abs b - bc_abs a"
      "neg d = ?n" "rdx d = max (rdx b) (rdx a)"
      using 3 a b c by (auto simp: zbc_num_s_def Let_def split: if_splits)
    then show ?thesis using s by (auto simp: bc_value_def max.commute)
  qed
qed

text \<open>Addition and subtraction are exact.  The result has the places of the operand with more of them, unless the other
  operand is zero.\<close>

definition sum_rdx :: "BcNum \<Rightarrow> BcNum \<Rightarrow> nat" where
  "sum_rdx a b = (if num a = [] then rdx b else if num b = [] then rdx a else max (rdx a) (rdx b))"

lemma ok_flip: "bc_ok b \<Longrightarrow> num b \<noteq> [] \<Longrightarrow> bc_ok (b\<lparr>neg := n\<rparr>)"
  by (simp add: bc_ok_def)

lemma add_correct:
  assumes "bc_ok a" "bc_ok b"
  shows "\<exists>c. zbc_num_add a b = Inr c \<and> bc_ok c \<and> bc_value c = bc_value a + bc_value b \<and> rdx c = sum_rdx a b"
proof (cases "num a = [] \<or> num b = []")
  case True
  then show ?thesis using assms bc_value_0 [OF assms(1)] bc_value_0 [OF assms(2)]
    by (auto simp: zbc_num_add_def zbc_num_a_def zbc_num_s_def sum_rdx_def)
next
  case False
  then have n: "num a \<noteq> []" "num b \<noteq> []" by auto
  show ?thesis
  proof (cases "neg a = neg b")
    case True
    obtain c where "zbc_num_a a b False = Inr c" "bc_ok c" "bc_abs c = bc_abs a + bc_abs b" "neg c = neg a" "rdx c = max (rdx a) (rdx b)"
      using num_a_nonzero [OF assms(1) n(1) assms(2) n(2)] by blast
    then show ?thesis using True n by (simp add: zbc_num_add_def sum_rdx_def bc_value_def)
  next
    case False
    then show ?thesis using num_s_nonzero [OF assms(1) n(1) assms(2) n(2), of False] n by (auto simp: zbc_num_add_def sum_rdx_def)
  qed
qed

lemma sub_correct:
  assumes "bc_ok a" "bc_ok b"
  shows "\<exists>c. zbc_num_sub a b = Inr c \<and> bc_ok c \<and> bc_value c = bc_value a - bc_value b \<and> rdx c = sum_rdx a b"
proof (cases "num a = [] \<or> num b = []")
  case True
  have "bc_value (b\<lparr>neg := \<not> neg b\<rparr>) = - bc_value b" by (simp add: bc_value_def bc_abs_def)
  then show ?thesis using True assms bc_value_0 [OF assms(1)] bc_value_0 [OF assms(2)] ok_flip [OF assms(2)]
    by (auto simp: zbc_num_sub_def zbc_num_a_def zbc_num_s_def sum_rdx_def)
next
  case False
  then have n: "num a \<noteq> []" "num b \<noteq> []" by auto
  show ?thesis
  proof (cases "neg a = neg b")
    case False
    obtain c where "zbc_num_a a b True = Inr c" "bc_ok c" "bc_abs c = bc_abs a + bc_abs b" "neg c = neg a" "rdx c = max (rdx a) (rdx b)"
      using num_a_nonzero [OF assms(1) n(1) assms(2) n(2)] by blast
    then show ?thesis using False n by (simp add: zbc_num_sub_def sum_rdx_def bc_value_def)
  next
    case True
    then show ?thesis using num_s_nonzero [OF assms(1) n(1) assms(2) n(2), of True] n by (auto simp: zbc_num_sub_def sum_rdx_def)
  qed
qed

end
