(* ===== verification/Bc_Mul.thy ===== *)
theory Bc_Mul
  imports Bc_Correct
begin

text \<open>
  Multiplication in \<^verbatim>\<open>bc.c\<close>: the rows by hand, Karatsuba's splitting above 32 digits, and the product cut to
  its scale.
\<close>

section \<open>Natural numbers\<close>

definition whole :: "BcNum \<Rightarrow> bool" where
  "whole n \<longleftrightarrow> bc_ok n \<and> rdx n = 0 \<and> \<not> neg n"

lemma whole_value: "whole n \<Longrightarrow> bc_value n = of_int (dval (num n))"
  by (simp add: whole_def bc_value_def bc_abs_def)

lemma whole_digits: "whole n \<Longrightarrow> digits (num n)"
  by (simp add: whole_def ok_digits)

lemma whole_from_value:
  assumes "bc_ok c" "rdx c = 0" "bc_value c = of_int z" "0 \<le> z"
  shows "whole c \<and> dval (num c) = z"
proof (cases "neg c")
  case True
  then have "num c \<noteq> []" using assms(1) by (auto simp: bc_ok_def)
  then have "sgn (bc_value c) = - 1" using bc_value_neg [OF assms(1)] True by simp
  then show ?thesis using assms(3,4) by (simp add: sgn_if split: if_splits)
next
  case False
  then show ?thesis using assms by (simp add: whole_def bc_value_def bc_abs_def)
qed

lemma whole_len:
  assumes "whole n" "dval (num n) < 10 ^ k"
  shows "len n \<le> k"
proof (cases "num n = []")
  case False
  then have "10 ^ (len n - 1) \<le> dval (num n)"
    using assms(1) by (intro dval_nonzero_top) (auto simp: whole_def bc_ok_def)
  then have "(10::int) ^ (len n - 1) < 10 ^ k" using assms(2) by linarith
  then show ?thesis by (simp add: power_strict_increasing_iff)
qed simp

lemma whole_add:
  assumes "whole a" "whole b"
  shows "\<exists>c. zbc_num_add a b = Inr c \<and> whole c \<and> dval (num c) = dval (num a) + dval (num b)"
proof -
  obtain c where "zbc_num_add a b = Inr c" "bc_ok c" "bc_value c = bc_value a + bc_value b" "rdx c = sum_rdx a b"
    using add_correct assms by (metis whole_def)
  then show ?thesis using whole_from_value [of c "dval (num a) + dval (num b)"] assms
    by (simp add: whole_value whole_digits sum_rdx_def whole_def split: if_splits)
qed

lemma whole_sub:
  assumes "whole a" "whole b" "dval (num b) \<le> dval (num a)"
  shows "\<exists>c. zbc_num_sub a b = Inr c \<and> whole c \<and> dval (num c) = dval (num a) - dval (num b)"
proof -
  obtain c where "zbc_num_sub a b = Inr c" "bc_ok c" "bc_value c = bc_value a - bc_value b" "rdx c = sum_rdx a b"
    using sub_correct assms by (metis whole_def)
  then show ?thesis using whole_from_value [of c "dval (num a) - dval (num b)"] assms
    by (simp add: whole_value sum_rdx_def whole_def split: if_splits)
qed

lemma shift_correct:
  assumes "bc_ok n" "\<not> neg n" "p + len n \<le> BC_MAX_NUM" "rdx n \<le> p \<or> num n = []"
  shows "\<exists>c. zbc_num_shift n p = Inr c \<and> dval (num c) = dval (num n) * 10 ^ (p - rdx n) \<and> (num n \<noteq> [] \<longrightarrow> whole c) \<and> (num n = [] \<longrightarrow> c = n)"
proof (cases "p = 0 \<or> num n = []")
  case True
  then show ?thesis using assms by (auto simp: zbc_num_shift_def whole_def)
next
  case False
  let ?m = "if rdx n \<ge> p then n\<lparr>rdx := rdx n - p\<rparr> else (bc_num_extend n (p - rdx n))\<lparr>rdx := 0\<rparr>"
  have "raw_ok ?m \<and> rdx ?m = 0 \<and> neg ?m = neg n \<and> dval (num ?m) = dval (num n) * 10 ^ (p - rdx n)"
    using False assms extend_correct [OF ok_raw [OF assms(1)], of "p - rdx n"] by (auto simp: raw_ok_def bc_ok_def)
  then show ?thesis using False assms clean_correct [of ?m] by (simp add: zbc_num_shift_def whole_def Let_def)
qed

lemma whole_shift:
  assumes "whole n" "p + len n \<le> BC_MAX_NUM"
  shows "\<exists>c. zbc_num_shift n p = Inr c \<and> whole c \<and> dval (num c) = dval (num n) * 10 ^ p"
  using shift_correct [of n p] assms by (cases "num n = []") (auto simp: whole_def)

lemma clean_whole: "digits ds \<Longrightarrow> m = bc_num_clean \<lparr>num = ds, rdx = 0, neg = False\<rparr> \<Longrightarrow> whole m \<and> dval (num m) = dval ds"
  using clean_correct [of "\<lparr>num = ds, rdx = 0, neg = False\<rparr>"] by (simp add: raw_ok_def whole_def)

lemma split_correct:
  assumes "whole n" "bc_num_split n i = (l, h)"
  shows "whole l \<and> whole h \<and> dval (num n) = dval (num l) + 10 ^ i * dval (num h)
    \<and> dval (num l) < 10 ^ i \<and> dval (num h) < 10 ^ (len n - i)"
proof (cases "i < len n")
  case True
  then have lh: "l = bc_num_clean \<lparr>num = take i (num n), rdx = 0, neg = False\<rparr>"
      "h = bc_num_clean \<lparr>num = drop i (num n), rdx = 0, neg = False\<rparr>"
    using assms(2) by (simp_all add: bc_num_split_def)
  have d: "digits (num n)" using assms(1) by (rule whole_digits)
  then have "whole l \<and> dval (num l) = dval (take i (num n))" "whole h \<and> dval (num h) = dval (drop i (num n))"
    using clean_whole lh by simp_all
  then show ?thesis
    using dval_split [of "num n" i] dval_less [of "take i (num n)"] dval_less [of "drop i (num n)"] d True by (simp add: min_absorb1)
next
  case False
  then have lh: "l = bc_num_clean n" "h = bc_num_clean bc_num_zero" using assms(2) by (simp_all add: bc_num_split_def)
  have "raw_ok n" using assms(1) ok_raw by (simp add: whole_def)
  then have "whole l \<and> dval (num l) = dval (num n)" using clean_correct [of n] assms(1) by (simp add: lh whole_def)
  moreover have "whole h \<and> dval (num h) = 0"
    using clean_correct [of bc_num_zero] by (simp add: lh whole_def raw_ok_def bc_num_zero_def bc_num_setToZero_def)
  moreover have "dval (num n) < 10 ^ i"
  proof -
    have "(10::int) ^ len n \<le> 10 ^ i" using False by (intro power_increasing) auto
    then show ?thesis using dval_less [OF whole_digits [OF assms(1)]] by linarith
  qed
  ultimately show ?thesis by simp
qed

section \<open>The product of natural numbers\<close>

lemma rows_correct:
  assumes "whole a" "num a \<noteq> []" "whole b" "num b \<noteq> []"
    and m: "mul_rows (num a) (num b) 0 (replicate (len a + len b + 1) 0) 0 = (cs, l)"
  shows "whole (bc_num_zero\<lparr>num := take l cs\<rparr>) \<and> dval (take l cs) = dval (num a) * dval (num b)"
proof -
  have d: "digits (num a)" "digits (num b)" using assms whole_digits by blast+
  let ?n = "len a + len b"
  have z0: "dval (drop (len a) (replicate (len a + len b + 1) 0)) = 0" by (simp only: drop_replicate dval_replicate)
  have cs: "digits cs" "length cs = ?n + 1" "dval cs = dval (num a) * dval (num b)"
    using mul_rows_correct [OF d digits_replicate _ z0 m] by simp_all
  have l: "l = ?n - 1 + of_bool (cs ! (?n - 1) \<noteq> 0)"
    using mul_rows_len [OF d digits_replicate _ z0 assms(4) m] assms(4) by (cases "num b") (simp_all add: add.commute)
  have up: "dval cs < 10 ^ ?n"
    unfolding cs(3) power_add using d by (intro mult_strict_mono dval_less) simp_all
  have lo: "10 ^ (?n - 2) \<le> dval cs"
  proof -
    have "(10::int) ^ (len a - 1) * 10 ^ (len b - 1) \<le> dval (num a) * dval (num b)"
      using assms d by (intro mult_mono dval_nonzero_top) (auto simp: whole_def bc_ok_def)
    moreover have "len a - 1 + (len b - 1) = ?n - 2" using assms(2,4) by (cases "num a"; cases "num b") auto
    ultimately show ?thesis by (simp add: cs(3) flip: power_add)
  qed
  have n: "2 \<le> ?n" using assms(2,4) by (cases "num a"; cases "num b") auto
  have top: "dval (drop k cs) = 0" if "?n \<le> k" for k
  proof -
    have "dval (drop ?n cs) = 0" using up cs(1,2) by (simp add: dval_drop div_pos_pos_trivial del: length_append)
    then show ?thesis using that cs(1) by (simp add: dval_0_iff set_drop_subset_set_drop subset_iff) (meson set_drop_subset_set_drop subset_iff)
  qed
  have z: "dval (drop l cs) = 0"
  proof (cases "cs ! (?n - 1) = 0")
    case True
    have "drop (?n - 1) cs = cs ! (?n - 1) # drop (Suc (?n - 1)) cs" using n cs(2) by (simp add: Cons_nth_drop_Suc del: Suc_pred)
    moreover have "Suc (?n - 1) = ?n" using n by simp
    ultimately have "drop (?n - 1) cs = cs ! (?n - 1) # drop ?n cs" by simp
    then show ?thesis using True l top [of ?n] by simp
  qed (use l n top [of l] in simp)
  have v: "dval (take l cs) = dval cs"
    using dval_split [of cs l] z by simp
  have nz: "take l cs \<noteq> []" using l n cs(2) by auto
  have len: "length (take l cs) = l" using l n cs(2) by simp
  have "List.last (take l cs) \<noteq> 0"
  proof (cases "cs ! (?n - 1) = 0")
    case True
    then show ?thesis using lo l cs(1) nz len v by (intro last_nonzero) (simp_all add: numeral_2_eq_2)
  next
    case False
    then have "List.last (take l cs) = cs ! (?n - 1)" using nz len l n cs(2) by (simp add: last_conv_nth)
    then show ?thesis using False by simp
  qed
  moreover have "dval (take l cs) \<noteq> 0" using lo v by (metis not_less power_eq_0_iff zero_less_power zero_neq_numeral zero_less_numeral)
  ultimately show ?thesis
    using bc_okI [of "bc_num_zero\<lparr>num := take l cs\<rparr>"] v cs by (simp add: whole_def bc_num_zero_def bc_num_setToZero_def)
qed

lemma one_correct: "whole a \<Longrightarrow> BC_NUM_ONE a \<longleftrightarrow> dval (num a) = 1"
proof
  assume "whole a" "dval (num a) = 1"
  moreover from this have "len a \<le> 1" by (intro whole_len) simp_all
  ultimately show "BC_NUM_ONE a" by (cases "num a") (auto simp: BC_NUM_ONE_def whole_def)
qed (auto simp: BC_NUM_ONE_def length_Suc_conv)

text \<open>Karatsuba's identity.\<close>

lemma karatsuba:
  fixes M :: int
  shows "h1 * h2 * (M * M) + ((h1 + l1) * (h2 + l2) - h1 * h2 - l1 * l2) * M + l1 * l2 = (l1 + M * h1) * (l2 + M * h2)"
  by (simp add: algebra_simps)

lemma cross_nonneg: "0 \<le> (h1::int) \<Longrightarrow> 0 \<le> l1 \<Longrightarrow> 0 \<le> h2 \<Longrightarrow> 0 \<le> l2 \<Longrightarrow>
    h1 * h2 \<le> (h1 + l1) * (h2 + l2) \<and> l1 * l2 \<le> (h1 + l1) * (h2 + l2) - h1 * h2"
  by (simp add: algebra_simps)

text \<open>One level of the recursion, on the halves: \<open>k\<close> multiplies numbers of at most \<open>p + 1\<close> digits.\<close>

lemma karatsuba_level:
  assumes l: "whole l1" "whole l2" "dval (num l1) < 10 ^ p" "dval (num l2) < 10 ^ p"
    and h: "whole h1" "whole h2" "dval (num h1) < 10 ^ q" "dval (num h2) < 10 ^ q" and q: "q \<le> p" "2 * (p + q) + 1 \<le> BC_MAX_NUM"
    and k: "\<And>x y. whole x \<Longrightarrow> whole y \<Longrightarrow> len x \<le> p + 1 \<Longrightarrow> len y \<le> p + 1 \<Longrightarrow>
        \<exists>c. k x y = Inr c \<and> whole c \<and> dval (num c) = dval (num x) * dval (num y)"
  shows "\<exists>c. bc_bind (zbc_num_add h1 l1) (\<lambda>m1.
            bc_bind (zbc_num_add h2 l2) (\<lambda>m2.
            bc_bind (k h1 h2) (\<lambda>z0.
            bc_bind (k m1 m2) (\<lambda>z1.
            bc_bind (k l1 l2) (\<lambda>z2.
            bc_bind (zbc_num_sub z1 z0) (\<lambda>temp.
            bc_bind (zbc_num_sub temp z2) (\<lambda>z1.
            bc_bind (zbc_num_shift z0 (p * 2)) (\<lambda>z0.
            bc_bind (zbc_num_shift z1 p) (\<lambda>z1.
            bc_bind (zbc_num_add z0 z1) (\<lambda>temp.
            zbc_num_add temp z2)))))))))) = Inr c
    \<and> whole c \<and> dval (num c) = (dval (num l1) + 10 ^ p * dval (num h1)) * (dval (num l2) + 10 ^ p * dval (num h2))"
proof -
  let ?h1 = "dval (num h1)" and ?h2 = "dval (num h2)" and ?l1 = "dval (num l1)" and ?l2 = "dval (num l2)"
  have n: "0 \<le> ?h1" "0 \<le> ?h2" "0 \<le> ?l1" "0 \<le> ?l2" using l h whole_digits by simp_all
  have hp: "?h1 < 10 ^ p" "?h2 < 10 ^ p" using h(3,4) power_increasing [OF q(1), of "10::int"] by linarith+
  have p1: "(10::int) ^ (p + 1) = 10 * 10 ^ p" by simp
  obtain m1 where m1: "zbc_num_add h1 l1 = Inr m1" "whole m1" "dval (num m1) = ?h1 + ?l1" using whole_add [OF h(1) l(1)] by auto
  obtain m2 where m2: "zbc_num_add h2 l2 = Inr m2" "whole m2" "dval (num m2) = ?h2 + ?l2" using whole_add [OF h(2) l(2)] by auto
  have len: "len l1 \<le> p + 1" "len l2 \<le> p + 1" "len h1 \<le> p + 1" "len h2 \<le> p + 1" "len m1 \<le> p + 1" "len m2 \<le> p + 1"
    using l h m1 m2 hp n by (auto intro!: whole_len simp only: p1)
  obtain z0 where z0: "k h1 h2 = Inr z0" "whole z0" "dval (num z0) = ?h1 * ?h2" using k [OF h(1,2)] len by auto
  obtain z1 where z1: "k m1 m2 = Inr z1" "whole z1" "dval (num z1) = (?h1 + ?l1) * (?h2 + ?l2)" using k [OF m1(2) m2(2)] len m1(3) m2(3) by auto
  obtain z2 where z2: "k l1 l2 = Inr z2" "whole z2" "dval (num z2) = ?l1 * ?l2" using k [OF l(1,2)] len by auto
  note cross = cross_nonneg [OF n(1,3,2,4)]
  obtain t where t: "zbc_num_sub z1 z0 = Inr t" "whole t" "dval (num t) = dval (num z1) - dval (num z0)"
    using whole_sub [OF z1(2) z0(2)] z0(3) z1(3) cross by auto
  obtain u where u: "zbc_num_sub t z2 = Inr u" "whole u" "dval (num u) = dval (num t) - dval (num z2)"
    using whole_sub [OF t(2) z2(2)] z0(3) z1(3) z2(3) t(3) cross by auto
  have uv: "dval (num u) = ?h1 * ?l2 + ?l1 * ?h2" by (simp add: u(3) t(3) z0(3) z1(3) z2(3) algebra_simps)
  have "len z0 \<le> q + q" using z0(2,3) h(3,4) n by (intro whole_len) (auto simp: power_add intro: mult_strict_mono)
  then obtain s0 where s0: "zbc_num_shift z0 (p * 2) = Inr s0" "whole s0" "dval (num s0) = dval (num z0) * 10 ^ (p * 2)"
    using whole_shift [OF z0(2), of "p * 2"] q(2) by auto
  have "?h1 * ?l2 \<le> 10 ^ q * 10 ^ p" "?l1 * ?h2 \<le> 10 ^ p * 10 ^ q" using h(3,4) l(3,4) n by (auto intro!: mult_mono)
  moreover have "0 < (10::int) ^ q * 10 ^ p" by simp
  moreover have "(10::int) ^ (q + p + 1) = 10 * (10 ^ q * 10 ^ p)" by (simp add: power_add)
  ultimately have "dval (num u) < 10 ^ (q + p + 1)" using uv mult.commute [of "10 ^ q" "10 ^ p :: int"] by linarith
  then have "len u \<le> q + p + 1" using u(2) by (intro whole_len)
  then obtain s1 where s1: "zbc_num_shift u p = Inr s1" "whole s1" "dval (num s1) = dval (num u) * 10 ^ p"
    using whole_shift [OF u(2), of p] q by auto
  obtain v where v: "zbc_num_add s0 s1 = Inr v" "whole v" "dval (num v) = dval (num s0) + dval (num s1)"
    using whole_add [OF s0(2) s1(2)] by auto
  obtain w where w: "zbc_num_add v z2 = Inr w" "whole w" "dval (num w) = dval (num v) + dval (num z2)"
    using whole_add [OF v(2) z2(2)] by auto
  have "dval (num w) = (?l1 + 10 ^ p * ?h1) * (?l2 + 10 ^ p * ?h2)"
    by (simp add: w(3) v(3) s0(3) s1(3) uv z0(3) z2(3) power_mult power2_eq_square algebra_simps)
  then show ?thesis using m1(1) m2(1) z0(1) z1(1) z2(1) t(1) u(1) s0(1) s1(1) v(1) w(1,2) by simp
qed

lemma k_correct:
  "\<lbrakk>whole a; whole b; 2 * max (len a) (len b) + 4 \<le> BC_MAX_NUM; max (len a) (len b) < fuel\<rbrakk> \<Longrightarrow>
    \<exists>c. zbc_num_k fuel a b = Inr c \<and> whole c \<and> dval (num c) = dval (num a) * dval (num b)"
proof (induction fuel arbitrary: a b)
  case (Suc f)
  consider "num a = [] \<or> num b = []" | "num a \<noteq> []" "num b \<noteq> []" "BC_NUM_ONE a \<or> BC_NUM_ONE b"
    | "num a \<noteq> []" "num b \<noteq> []" "\<not> BC_NUM_ONE a" "\<not> BC_NUM_ONE b"
      "len a + len b < BC_NUM_KARATSUBA_LEN \<or> len a < BC_NUM_KARATSUBA_LEN \<or> len b < BC_NUM_KARATSUBA_LEN"
    | "num a \<noteq> []" "num b \<noteq> []" "\<not> BC_NUM_ONE a" "\<not> BC_NUM_ONE b" "32 \<le> len a" "32 \<le> len b"
    unfolding BC_NUM_KARATSUBA_LEN_def by (meson not_le)
  then show ?case
  proof cases
    case 1
    then show ?thesis
      by (auto simp: zbc_num_k.simps whole_def bc_ok_def bc_num_zero_def bc_num_setToZero_def)
  next
    case 2
    then show ?thesis using Suc.prems(1,2) one_correct [of a] one_correct [of b] by (auto simp: zbc_num_k.simps)
  next
    case 3
    obtain cs l where m: "mul_rows (num a) (num b) 0 (replicate (len a + len b + 1) 0) 0 = (cs, l)" by (metis surj_pair)
    then show ?thesis using 3 rows_correct [OF Suc.prems(1) 3(1) Suc.prems(2) 3(2) m] by (simp add: zbc_num_k.simps)
  next
    case 4
    let ?m = "max (len a) (len b)"
    define p where "p = (?m + 1) div 2"
    have p: "p + 1 < ?m" "?m - p \<le> p" using 4(5) by (auto simp: p_def)
    obtain l1 h1 where s1: "bc_num_split a p = (l1, h1)" by (metis surj_pair)
    obtain l2 h2 where s2: "bc_num_split b p = (l2, h2)" by (metis surj_pair)
    note sa = split_correct [OF Suc.prems(1) s1] and sb = split_correct [OF Suc.prems(2) s2]
    have "(10::int) ^ (len a - p) \<le> 10 ^ (?m - p)" "(10::int) ^ (len b - p) \<le> 10 ^ (?m - p)" by (auto intro!: power_increasing)
    then have h: "dval (num h1) < 10 ^ (?m - p)" "dval (num h2) < 10 ^ (?m - p)" using sa sb by linarith+
    have k: "\<exists>c. zbc_num_k f x y = Inr c \<and> whole c \<and> dval (num c) = dval (num x) * dval (num y)"
      if "whole x" "whole y" "len x \<le> p + 1" "len y \<le> p + 1" for x y
      using that(3,4) p(1) Suc.prems(3,4) by (intro Suc.IH [OF that(1,2)]) linarith+
    have q: "2 * (p + (?m - p)) + 1 \<le> BC_MAX_NUM" using p Suc.prems(3) by simp
    have v: "dval (num l1) + 10 ^ p * dval (num h1) = dval (num a)" "dval (num l2) + 10 ^ p * dval (num h2) = dval (num b)"
      using sa sb by simp_all
    have w: "whole l1" "whole l2" "dval (num l1) < 10 ^ p" "dval (num l2) < 10 ^ p" "whole h1" "whole h2" using sa sb by simp_all
    have no: "(len a = 0 \<or> len b = 0) = False" "BC_NUM_ONE a = False" "BC_NUM_ONE b = False"
      "(len a + len b < BC_NUM_KARATSUBA_LEN \<or> len a < BC_NUM_KARATSUBA_LEN \<or> len b < BC_NUM_KARATSUBA_LEN) = False"
      using 4 by (simp_all add: BC_NUM_KARATSUBA_LEN_def)
    show ?thesis
      using karatsuba_level [OF w h p(2) q k, unfolded v]
      by (simp only: zbc_num_k.simps(2) no if_False Let_def p_def [symmetric] s1 s2 prod.case)
  qed
qed simp

section \<open>The product\<close>

definition mul_scale :: "BcNum \<Rightarrow> BcNum \<Rightarrow> nat \<Rightarrow> nat" where
  "mul_scale a b scale = min (rdx a + rdx b) (max scale (max (rdx a) (rdx b)))"

lemma shift_up:
  assumes "bc_ok a" "rdx a \<le> s" "s + len a \<le> BC_MAX_NUM"
  shows "\<exists>c. zbc_num_shift (a\<lparr>neg := False\<rparr>) s = Inr c \<and> dval (num c) = dval (num a) * 10 ^ (s - rdx a) \<and> len c \<le> len a + s
    \<and> (if num a = [] then num c = [] else whole c)"
proof -
  have "bc_ok (a\<lparr>neg := False\<rparr>)" using assms(1) by (simp add: bc_ok_def)
  then obtain c where c: "zbc_num_shift (a\<lparr>neg := False\<rparr>) s = Inr c" "dval (num c) = dval (num a) * 10 ^ (s - rdx a)"
      "num a \<noteq> [] \<longrightarrow> whole c" "num a = [] \<longrightarrow> c = a\<lparr>neg := False\<rparr>"
    using shift_correct [of "a\<lparr>neg := False\<rparr>" s] assms(2,3) by auto
  have "len c \<le> len a + s"
  proof (cases "num a = []")
    case False
    have "dval (num c) < 10 ^ len a * 10 ^ s"
      unfolding c(2) using dval_less [OF ok_digits [OF assms(1)]] power_increasing [of "s - rdx a" s "10::int"]
      by (intro mult_less_le_imp_less) (simp_all add: ok_digits [OF assms(1)])
    then show ?thesis using c(3) False by (intro whole_len) (simp_all add: power_add)
  qed (use c(4) in simp)
  then show ?thesis using c by auto
qed

lemma m_correct:
  assumes a: "bc_ok a" and b: "bc_ok b" and size: "2 * (max (len a) (len b) + rdx a + rdx b) + 4 \<le> BC_MAX_NUM"
  shows "\<exists>c. zbc_num_m a b scale = Inr c \<and> bc_ok c \<and> rdx c = mul_scale a b scale
    \<and> bc_value c = bc_cut (mul_scale a b scale) (bc_value a * bc_value b)"
proof -
  define s where "s = mul_scale a b scale"
  have s: "rdx a \<le> s" "rdx b \<le> s" "s \<le> rdx a + rdx b" by (auto simp: s_def mul_scale_def)
  define mx where "mx = max (len a) (len b) + rdx a + rdx b"
  have mx: "2 * mx + 4 \<le> BC_MAX_NUM" "len a + s \<le> mx" "len b + s \<le> mx" using size s(3) by (simp_all add: mx_def le_max_iff_disj add_mono)
  then have sz: "s + len a \<le> BC_MAX_NUM" "s + len b \<le> BC_MAX_NUM" by linarith+
  have sdef: "min (rdx a + rdx b) (max (max scale (rdx a)) (rdx b)) = s" "max (max (rdx a) (rdx b)) s = s"
    using s by (simp_all add: s_def mul_scale_def max.assoc)
  obtain x where x: "zbc_num_shift (a\<lparr>neg := False\<rparr>) s = Inr x" "dval (num x) = dval (num a) * 10 ^ (s - rdx a)"
      "len x \<le> len a + s" "if num a = [] then num x = [] else whole x"
    using shift_up [OF a s(1) sz(1)] by blast
  obtain y where y: "zbc_num_shift (b\<lparr>neg := False\<rparr>) s = Inr y" "dval (num y) = dval (num b) * 10 ^ (s - rdx b)"
      "len y \<le> len b + s" "if num b = [] then num y = [] else whole y"
    using shift_up [OF b s(2) sz(2)] by blast
  obtain z where z: "zbc_num_k (len x + len y + 1) x y = Inr z" "whole z" "dval (num z) = dval (num x) * dval (num y)"
  proof (cases "num a = [] \<or> num b = []")
    case True
    then show ?thesis using that [of bc_num_zero] x(4) y(4)
      by (auto simp: zbc_num_k.simps whole_def bc_ok_def bc_num_zero_def bc_num_setToZero_def)
  next
    case False
    have "max (len x) (len y) \<le> mx" using x(3) y(3) mx by simp
    then have "2 * max (len x) (len y) + 4 \<le> BC_MAX_NUM" using mx(1) by linarith
    then show ?thesis using k_correct [of x y "len x + len y + 1"] x(4) y(4) False that by auto
  qed
  define w where "w = (if len z < s + s then z\<lparr>num := num z @ replicate (s + s) 0\<rparr> else z)\<lparr>rdx := s + s\<rparr>"
  have w: "raw_ok w" "dval (num w) = dval (num z)" "rdx w = s + s"
    using z(2) by (auto simp: w_def raw_ok_def whole_digits dval_append)
  have m: "zbc_num_m a b scale = Inr (bc_num_retireMul w s (neg a) (neg b))"
    unfolding zbc_num_m_def Let_def sdef x(1) y(1) bc_bind.simps z(1) w_def ..
  have ab: "\<bar>bc_value a * bc_value b\<bar> = bc_abs w"
  proof -
    have "bc_abs w = of_int (dval (num a)) * 10 ^ (s - rdx a) / 10 ^ s * (of_int (dval (num b)) * 10 ^ (s - rdx b) / 10 ^ s)"
      by (simp add: bc_abs_def w(2,3) z(3) x(2) y(2) power_add)
    also have "\<dots> = bc_abs a * bc_abs b" using s by (simp add: bc_abs_def power_diff)
    finally show ?thesis using bc_value_abs ok_raw a b by (simp add: abs_mult)
  qed
  have sg: "bc_value a * bc_value b < 0 \<longleftrightarrow> neg a \<noteq> neg b" if "bc_value a * bc_value b \<noteq> 0"
    using that bc_value_neg [OF a] bc_value_neg [OF b] bc_value_0 [OF a] bc_value_0 [OF b]
    by (auto simp: mult_less_0_iff sgn_if split: if_splits)
  show ?thesis unfolding s_def [symmetric] using m retireMul_value [OF w(1) refl ab sg] by blast
qed

end
