(* ===== verification/Bc_Div.thy ===== *)
theory Bc_Div
  imports Bc_Mul
begin

text \<open>
  Division and remainder in \<^verbatim>\<open>bc.c\<close>.
\<close>

section \<open>The quotient\<close>

lemma sign_quotient:
  assumes "bc_ok a" "bc_ok b" "bc_value a / bc_value b \<noteq> 0"
  shows "bc_value a / bc_value b < 0 \<longleftrightarrow> neg a \<noteq> neg b"
  using assms bc_value_neg [OF assms(1)] bc_value_neg [OF assms(2)] bc_value_0 [OF assms(1)] bc_value_0 [OF assms(2)]
  by (auto simp: divide_less_0_iff sgn_if split: if_splits)

lemma top_digit_correct:
  "digits b \<Longrightarrow> n \<le> length b \<Longrightarrow> dval (take n b) \<noteq> 0 \<Longrightarrow>
    top_digit b n < n \<and> dval (take (Suc (top_digit b n)) b) = dval (take n b) \<and> b ! top_digit b n \<noteq> 0"
proof (induction n)
  case (Suc i)
  have "take (Suc i) b = take i b @ [b ! i]" using Suc.prems(2) by (simp add: take_Suc_conv_app_nth)
  then show ?case using Suc by (auto simp: dval_append less_SucI)
qed simp

text \<open>The divisor: its digits up to the first one.\<close>

definition div_len :: "BcNum \<Rightarrow> nat" where
  "div_len b = (if rdx b = len b then top_digit (num b) (len b) + 1 else len b)"

lemma div_len_correct:
  assumes "bc_ok b" "num b \<noteq> []"
  shows "0 < div_len b \<and> div_len b \<le> len b \<and> dval (take (div_len b) (num b)) = dval (num b) \<and> 10 ^ (div_len b - 1) \<le> dval (num b)"
proof -
  have d: "digits (num b)" "dval (num b) \<noteq> 0" using assms by (simp_all add: ok_digits ok_nonzero)
  show ?thesis
  proof (cases "rdx b = len b")
    case True
    let ?i = "top_digit (num b) (len b)"
    have t: "?i < len b \<and> dval (take (Suc ?i) (num b)) = dval (num b) \<and> num b ! ?i \<noteq> 0"
      using top_digit_correct [of "num b" "len b"] d by simp
    have "List.last (take (Suc ?i) (num b)) = num b ! ?i" using t by (simp add: take_Suc_conv_app_nth)
    then have "10 ^ (length (take (Suc ?i) (num b)) - 1) \<le> dval (take (Suc ?i) (num b))"
      using t d by (intro dval_nonzero_top) auto
    then show ?thesis using True t by (simp add: div_len_def)
  next
    case False
    then have "List.last (num b) \<noteq> 0" using assms by (auto simp: bc_ok_def)
    then show ?thesis using False assms(2) d dval_nonzero_top [of "num b"] by (simp add: div_len_def)
  qed
qed

text \<open>The dividend: the digits of \<open>a\<close> behind enough zeros.\<close>

lemma dividend:
  assumes c1_def: "c1 = (if len b > len a then bc_num_extend a (len b - len a) else a)"
    and c2_def: "c2 = (if rdx b > rdx c1 then bc_num_extend c1 (rdx b - rdx c1) else c1)"
    and c3_def: "c3 = c2\<lparr>rdx := rdx c2 - rdx b\<rparr>"
    and c4_def: "c4 = (if scale > rdx c3 then bc_num_extend c3 (scale - rdx c3) else c3)"
  shows "\<exists>e. num c4 = replicate e 0 @ num a \<and> rdx c4 + rdx b = rdx a + e \<and> scale \<le> rdx c4 \<and> len b \<le> len a + e"
proof -
  have ext: "num (bc_num_extend n p) = replicate p 0 @ num n" "rdx (bc_num_extend n p) = rdx n + p" for n p
    by (simp_all add: bc_num_extend_def)
  obtain e1 where e1: "num c1 = replicate e1 0 @ num a" "rdx c1 = rdx a + e1" "len b \<le> len a + e1"
    by (cases "len b > len a") (auto simp: c1_def ext)
  obtain e2 where e2: "num c2 = replicate e2 0 @ num c1" "rdx c2 = rdx c1 + e2" "rdx b \<le> rdx c2"
    by (cases "rdx b > rdx c1") (auto simp: c2_def ext)
  obtain e3 where e3: "num c4 = replicate e3 0 @ num c3" "rdx c4 = rdx c3 + e3" "scale \<le> rdx c4"
    by (cases "scale > rdx c3") (auto simp: c4_def ext)
  have "num c4 = replicate (e3 + e2 + e1) 0 @ num a" using e1 e2 e3 by (simp add: c3_def replicate_add)
  then show ?thesis using e1 e2 e3 by (intro exI [of _ "e3 + e2 + e1"]) (simp add: c3_def)
qed

lemma d_correct:
  assumes a: "bc_ok a" and b: "bc_ok b" "num b \<noteq> []"
  shows "\<exists>c. zbc_num_d a b scale = Inr c \<and> bc_ok c \<and> rdx c = scale \<and> bc_value c = bc_cut scale (bc_value a / bc_value b)"
proof -
  let ?x = "bc_value a / bc_value b"
  consider "num a = []" | "num a \<noteq> []" "BC_NUM_ONE b" | "num a \<noteq> []" "\<not> BC_NUM_ONE b" by blast
  then show ?thesis
  proof cases
    case 1
    then have "bc_value a = 0" using a by (simp add: bc_value_0)
    then show ?thesis using 1 b by (simp add: zbc_num_d_def bc_num_setToZero_def bc_ok_def bc_value_def bc_abs_def bc_cut_def)
  next
    case 2
    then have "bc_abs b = 1" by (auto simp: BC_NUM_ONE_def bc_abs_def length_Suc_conv)
    then have "\<bar>?x\<bar> = bc_abs a" using bc_value_abs [OF ok_raw [OF a]] bc_value_abs [OF ok_raw [OF b(1)]] by simp
    then show ?thesis using retireMul_value [OF ok_raw [OF a] refl _ sign_quotient [OF a b(1)]] 2 b(2) by (auto simp: zbc_num_d_def)
  next
    case 3
    let ?l = "div_len b" and ?B = "dval (num b)"
    note l = div_len_correct [OF b]
    define c1 where "c1 = (if len b > len a then bc_num_extend a (len b - len a) else a)"
    define c2 where "c2 = (if rdx b > rdx c1 then bc_num_extend c1 (rdx b - rdx c1) else c1)"
    define c3 where "c3 = c2\<lparr>rdx := rdx c2 - rdx b\<rparr>"
    define cp where "cp = (if scale > rdx c3 then bc_num_extend c3 (scale - rdx c3) else c3)"
    obtain e where e: "num cp = replicate e 0 @ num a" "rdx cp + rdx b = rdx a + e" "scale \<le> rdx cp" "len b \<le> len a + e"
      using dividend [OF c1_def c2_def c3_def cp_def] by blast
    define cs where "cs = num cp @ [0]"
    have d: "digits cs" "dval cs = 10 ^ e * dval (num a)" "length cs = len a + e + 1"
      using ok_digits [OF a] by (simp_all add: cs_def e(1) dval_append)
    define i where "i = length cs - ?l"
    have "len cp = e + len a" by (simp add: e(1))
    then have i: "i + ?l = length cs" "i \<le> len cp" using l e(4) d(3) unfolding i_def by linarith+
    have "dval (drop i cs) < ?B"
    proof -
      have "drop i cs = drop i (num cp) @ [0]" using i(2) by (simp add: cs_def)
      then have "dval (drop i cs) = dval (drop i (num cp))" by (simp add: dval_append)
      also have "\<dots> < 10 ^ length (drop i (num cp))" using ok_digits [OF a] by (intro dval_less digits_drop) (simp add: e(1))
      also have "length (drop i (num cp)) = ?l - 1" using i l by (simp add: cs_def)
      finally show ?thesis using l by linarith
    qed
    moreover have B: "dval (take ?l (num b)) = ?B" "0 < ?B"
      using l ok_nonzero [OF b(1)] b(2) dval_nonneg [OF ok_digits [OF b(1)]] by (blast, linarith)
    ultimately obtain qs where qs: "div_loop i cs (num b) ?l (replicate ?l 0) = Inr (qs @ replicate ?l 0)" "digits qs" "length qs = i"
      "dval qs = dval cs div ?B"
      using div_loop_correct [OF ok_digits [OF b(1)], of ?l cs i "replicate ?l 0", unfolded B(1)] l d(1) i(1) by fastforce
    let ?q = "\<lparr>num = qs @ replicate ?l 0, rdx = rdx cp, neg = False\<rparr>"
    have raw: "raw_ok ?q"
      using qs(2,3) i(1) d(3) e(2) ok_rdx [OF a 3(1)] by (simp add: raw_ok_def)
    have z: "zbc_num_d a b scale = Inr (bc_num_retireMul ?q scale (neg a) (neg b))"
    proof -
      have "length cs - i = ?l" using i(1) by simp
      then show ?thesis
        unfolding zbc_num_d_def Let_def c1_def [symmetric] c2_def [symmetric] c3_def [symmetric] cp_def [symmetric] div_len_def [symmetric]
        using 3 b(2) qs(1) by (simp add: cs_def [symmetric] i_def [symmetric])
    qed
    have "\<lfloor>\<bar>?x\<bar> * 10 ^ scale\<rfloor> = \<lfloor>bc_abs ?q * 10 ^ scale\<rfloor>"
    proof -
      have p: "(10::rat) ^ rdx b * 10 ^ scale * 10 ^ (rdx cp - scale) = 10 ^ rdx a * 10 ^ e" "(10::int) ^ rdx cp = 10 ^ (rdx cp - scale) * 10 ^ scale"
        using e(2,3) by (simp_all add: ac_simps flip: power_add)
      have nz: "of_int ?B \<noteq> (0::rat)" using ok_nonzero [OF b(1)] b(2) by simp
      have "\<bar>?x\<bar> * 10 ^ scale = of_int (dval (num a)) * (10 ^ rdx b * 10 ^ scale) / (of_int ?B * 10 ^ rdx a)"
        using bc_value_abs [OF ok_raw [OF a]] bc_value_abs [OF ok_raw [OF b(1)]] by (simp add: abs_divide bc_abs_def ac_simps)
      also have "\<dots> = of_int (dval cs) / of_int (?B * 10 ^ (rdx cp - scale))"
        using nz p(1) by (simp add: d(2) frac_eq_eq ac_simps)
      finally have "\<lfloor>\<bar>?x\<bar> * 10 ^ scale\<rfloor> = dval cs div (?B * 10 ^ (rdx cp - scale))" by (metis floor_divide_of_int_eq)
      also have "\<dots> = (dval cs div ?B) * 10 ^ scale div 10 ^ rdx cp"
        unfolding p(2) by (subst zdiv_zmult2_eq) simp_all
      also have "\<dots> = \<lfloor>bc_abs ?q * 10 ^ scale\<rfloor>" by (simp add: floor_scaled dval_append qs(4))
      finally show ?thesis .
    qed
    then show ?thesis using z retireMul_floor [OF raw refl _ sign_quotient [OF a b(1)]] by blast
  qed
qed

section \<open>The remainder\<close>

lemma ok_len_bound:
  assumes "bc_ok n" "bc_abs n < 10 ^ k"
  shows "len n \<le> k + rdx n"
proof (cases "num n = [] \<or> BC_NUM_INT n = 0")
  case True
  then show ?thesis by (auto simp: BC_NUM_INT_def)
next
  case False
  then have "(10::rat) ^ (BC_NUM_INT n - 1) < 10 ^ k" using int_part_bounds(2) [OF assms(1)] assms(2) by fastforce
  then have "BC_NUM_INT n - 1 < k" by (simp add: power_strict_increasing_iff)
  then show ?thesis using False by (simp add: BC_NUM_INT_def)
qed

lemma cut_le: "\<bar>bc_cut s x\<bar> \<le> \<bar>x\<bar>"
proof -
  have "of_int \<lfloor>\<bar>x\<bar> * 10 ^ s\<rfloor> / 10 ^ s \<le> \<bar>x\<bar>" by (simp add: divide_le_eq of_int_floor_le)
  moreover have "0 \<le> \<lfloor>\<bar>x\<bar> * 10 ^ s\<rfloor>" by simp
  moreover have "\<bar>bc_cut s x\<bar> = \<bar>sgn x\<bar> * (of_int \<lfloor>\<bar>x\<bar> * 10 ^ s\<rfloor> / 10 ^ s)"
    using calculation(2) unfolding bc_cut_def abs_mult abs_divide by simp
  ultimately show ?thesis by (cases "x = 0") (simp_all add: abs_sgn_eq)
qed

lemma cut_exact: "x * 10 ^ s = of_int z \<Longrightarrow> bc_cut s x = x"
proof -
  assume z: "x * 10 ^ s = of_int z"
  have "\<bar>x\<bar> * 10 ^ s = \<bar>x * 10 ^ s\<bar>" by (simp add: abs_mult)
  then have "\<lfloor>\<bar>x\<bar> * 10 ^ s\<rfloor> = \<bar>z\<bar>" using z by (metis floor_of_int of_int_abs)
  moreover have "of_int \<bar>z\<bar> = \<bar>x\<bar> * 10 ^ s" using \<open>\<bar>x\<bar> * 10 ^ s = \<bar>x * 10 ^ s\<bar>\<close> z by simp
  ultimately have "bc_cut s x = sgn x * (\<bar>x\<bar> * 10 ^ s) / 10 ^ s" by (simp add: bc_cut_def)
  then show ?thesis by (simp add: sgn_mult_abs mult.assoc [symmetric])
qed

lemma value_scaled: "\<exists>z. bc_value n * 10 ^ rdx n = of_int z"
  by (intro exI [of _ "if neg n then - dval (num n) else dval (num n)"]) (simp add: bc_value_def bc_abs_def)

lemma quotient_bound:
  assumes "bc_ok a" "bc_ok b" "num b \<noteq> []"
  shows "\<bar>bc_value a / bc_value b\<bar> < 10 ^ (len a + rdx b)"
proof -
  have "1 \<le> dval (num b)" using ok_nonzero [OF assms(2)] assms(3) dval_nonneg [OF ok_digits [OF assms(2)]] by linarith
  then have b: "1 / 10 ^ rdx b \<le> bc_abs b" by (simp add: bc_abs_def divide_le_cancel)
  have "dval (num a) < 10 ^ len a" using dval_less ok_digits assms(1) by blast
  then have "(of_int (dval (num a)) :: rat) < 10 ^ len a" by (metis of_int_less_iff of_int_numeral of_int_power)
  moreover have "bc_abs a \<le> of_int (dval (num a))"
    using dval_nonneg [OF ok_digits [OF assms(1)]] by (simp add: bc_abs_def divide_le_eq mult_le_cancel_left1)
  ultimately have a: "bc_abs a < 10 ^ len a" by linarith
  have "bc_abs a / bc_abs b \<le> bc_abs a / (1 / 10 ^ rdx b)"
  proof (rule divide_left_mono [OF b bc_abs_nonneg [OF ok_raw [OF assms(1)]]])
    have "0 < (1 / 10 ^ rdx b :: rat)" by simp
    then show "0 < bc_abs b * (1 / 10 ^ rdx b)" using b by (intro mult_pos_pos) linarith+
  qed
  also have "\<dots> < 10 ^ len a * 10 ^ rdx b" using a by simp
  finally show ?thesis using bc_value_abs ok_raw assms by (simp add: abs_divide power_add)
qed

lemma r_correct:
  assumes a: "bc_ok a" and b: "bc_ok b" "num b \<noteq> []" and ts: "ts = max (scale + rdx b) (rdx a)"
    and size: "2 * (len a + len b + 2 * rdx b + 2 * scale) + 4 \<le> BC_MAX_NUM"
  shows "\<exists>c' d. zbc_num_r a b c scale ts = Inr (c', d) \<and> bc_ok d \<and> rdx d = ts
    \<and> bc_value d = bc_value a - bc_cut scale (bc_value a / bc_value b) * bc_value b
    \<and> (if num a = [] then c' = c else bc_ok c' \<and> rdx c' = scale \<and> bc_value c' = bc_cut scale (bc_value a / bc_value b))"
proof (cases "num a = []")
  case True
  then have "bc_value a = 0" using a by (simp add: bc_value_0)
  then show ?thesis using True b(2)
    by (simp add: zbc_num_r_def bc_num_setToZero_def bc_ok_def bc_value_def bc_abs_def bc_cut_def)
next
  case False
  obtain q where q: "zbc_num_d a b scale = Inr q" "bc_ok q" "rdx q = scale" "bc_value q = bc_cut scale (bc_value a / bc_value b)"
    using d_correct [OF a b] by blast
  let ?s = "if scale \<noteq> 0 then ts else scale"
  have ms: "mul_scale q b ?s = rdx q + rdx b" using q(3) ts by (auto simp: mul_scale_def)
  have "bc_abs q < 10 ^ (len a + rdx b)"
    using cut_le [of scale "bc_value a / bc_value b"] quotient_bound [OF a b] bc_value_abs [OF ok_raw [OF q(2)]] q(4) by simp
  then have "len q \<le> len a + rdx b + scale" using ok_len_bound [OF q(2)] q(3) by simp
  then have "2 * (max (len q) (len b) + rdx q + rdx b) + 4 \<le> BC_MAX_NUM" using size q(3) by (cases "len q \<le> len b") (simp_all add: max_def)
  then obtain t where t: "zbc_num_m q b ?s = Inr t" "bc_ok t" "rdx t = rdx q + rdx b"
      "bc_value t = bc_cut (rdx q + rdx b) (bc_value q * bc_value b)"
    using m_correct [OF q(2) b(1), of ?s] unfolding ms by blast
  have tv: "bc_value t = bc_value q * bc_value b"
  proof -
    obtain y z where "bc_value q * 10 ^ rdx q = of_int y" "bc_value b * 10 ^ rdx b = of_int z" using value_scaled by blast
    then have "(bc_value q * 10 ^ rdx q) * (bc_value b * 10 ^ rdx b) = of_int (y * z)" by simp
    then have "bc_value q * bc_value b * 10 ^ (rdx q + rdx b) = of_int (y * z)" by (simp add: power_add ac_simps)
    then show ?thesis unfolding t(4) by (rule cut_exact)
  qed
  obtain u where u: "zbc_num_sub a t = Inr u" "bc_ok u" "bc_value u = bc_value a - bc_value t" "rdx u = sum_rdx a t"
    using sub_correct [OF a t(2)] by blast
  have ur: "rdx u \<le> ts" using u(4) t(3) q(3) ts False by (auto simp: sum_rdx_def)
  define v where "v = (if ts > rdx u \<and> len u \<noteq> 0 then bc_num_extend u (ts - rdx u) else u)"
  have v: "raw_ok v" "bc_abs v = bc_abs u" "neg v = neg u" "num u \<noteq> [] \<longrightarrow> rdx v = ts"
    using extend_correct [OF ok_raw [OF u(2)], of "ts - rdx u"] extend_abs [of u "ts - rdx u"] ok_raw [OF u(2)] ur by (auto simp: v_def)
  define w where "w = bc_num_retireMul v ts (neg a) (neg b)"
  have w: "bc_ok w" "rdx w = ts" "dval (num w) = dval (num v) * 10 ^ ts div 10 ^ rdx v"
    using retireMul_correct [OF v(1) w_def] by simp_all
  have z: "zbc_num_r a b c scale ts = Inr (q, w\<lparr>neg := neg u\<rparr>)"
    unfolding zbc_num_r_def q(1) bc_bind.simps Let_def t(1) u(1) v_def [symmetric] w_def [symmetric] v(3) using False b(2) by simp
  have "bc_ok (w\<lparr>neg := neg u\<rparr>) \<and> bc_abs w = bc_abs u"
  proof (cases "num u = []")
    case True
    then have "v = u" "\<not> neg u" using u(2) by (auto simp: v_def bc_ok_def)
    then have "dval (num w) = 0" using w(3) True by simp
    then show ?thesis using w(1) True \<open>\<not> neg u\<close> ok_nonzero [OF w(1)] by (simp add: bc_ok_def bc_abs_def)
  next
    case False
    then have "dval (num w) = dval (num v)" "rdx w = rdx v" using w v(4) by simp_all
    then have "bc_abs w = bc_abs u" using v(2) by (simp add: bc_abs_def)
    moreover from this have "num w \<noteq> []" using bc_abs_0 [OF u(2)] bc_abs_0 [OF w(1)] False by simp
    ultimately show ?thesis using w(1) ok_flip by blast
  qed
  moreover have "bc_value (w\<lparr>neg := n\<rparr>) = (if n then - bc_abs w else bc_abs w)" for n
    by (simp add: bc_value_def bc_abs_def)
  ultimately have "bc_ok (w\<lparr>neg := neg u\<rparr>) \<and> bc_value (w\<lparr>neg := neg u\<rparr>) = bc_value u" by (simp add: bc_value_def [of u])
  then have "bc_ok (w\<lparr>neg := neg u\<rparr>) \<and> bc_value (w\<lparr>neg := neg u\<rparr>) = bc_value a - bc_value q * bc_value b"
    by (simp only: u(3) tv)
  then show ?thesis using z w(2) q(2-4) False by simp
qed

end
