(* ===== verification/Bc_Pow.thy ===== *)
theory Bc_Pow
  imports Bc_Div "HOL-Library.Signed_Division"
begin

text \<open>
  Conversion of a number to a machine word, powers by repeated squaring, and powers modulo a number, in
  \<^verbatim>\<open>bc.c\<close>.
\<close>

section \<open>Machine words\<close>

text \<open>The test for overflow by division is exact.\<close>

lemma ulong_overflow:
  assumes "N < (18446744073709551616 :: nat)" "d \<le> 9"
  shows "(10 * N + d) mod 18446744073709551616 div 8 < N \<longleftrightarrow> 18446744073709551616 \<le> 10 * N + d"
proof -
  let ?M = "18446744073709551616 :: nat"
  define k r where "k = (10 * N + d) div ?M" and "r = (10 * N + d) mod ?M"
  have t: "10 * N + d = ?M * k + r" "r < ?M" by (simp_all add: k_def r_def)
  have "r div 8 < N \<longleftrightarrow> r < 8 * N" by (simp add: div_less_iff_less_mult mult.commute)
  also have "\<dots> \<longleftrightarrow> k \<noteq> 0"
  proof (cases "k \<le> 2")
    case True
    then consider "k = 0" | "k = 1" | "k = 2" by linarith
    then show ?thesis using t assms by cases simp_all
  next
    case False
    then have "?M * 3 \<le> ?M * k" by simp
    then show ?thesis using t assms False by linarith
  qed
  also have "\<dots> \<longleftrightarrow> ?M \<le> 10 * N + d" using t by (cases k) auto
  finally show ?thesis by (simp add: r_def)
qed

lemma ulong_step:
  fixes prev :: u64
  assumes "0 \<le> d" "d \<le> 9" "r = prev * 10 + of_int d"
  shows "r div 8 < prev \<longleftrightarrow> 2 ^ 64 \<le> 10 * unat prev + nat d" "10 * unat prev + nat d < 2 ^ 64 \<Longrightarrow> unat r = 10 * unat prev + nat d"
proof -
  have "r = of_nat (10 * unat prev + nat d)" using assms(1,3) by (simp add: mult.commute)
  then have r: "unat r = (10 * unat prev + nat d) mod 2 ^ 64" by (simp only: unat_of_nat len_num0 take_bit_eq_mod) simp
  then show "r div 8 < prev \<longleftrightarrow> 2 ^ 64 \<le> 10 * unat prev + nat d"
    using ulong_overflow [of "unat prev" "nat d"] unat_bound [of prev] assms(1,2) by (simp add: word_less_nat_alt unat_div)
  show "10 * unat prev + nat d < 2 ^ 64 \<Longrightarrow> unat r = 10 * unat prev + nat d" using r by simp
qed

lemma ulong_abs_loop_correct:
  "digits ds \<Longrightarrow> ulong_abs_loop prev ds =
     (if unat prev * 10 ^ length ds + nat (dval (rev ds)) < 2 ^ 64 then Inr (of_nat (unat prev * 10 ^ length ds + nat (dval (rev ds))))
      else Inl (Bc_error ''overflow''))"
proof (induction ds arbitrary: prev)
  case Nil
  show ?case using unat_bound [of prev] by simp
next
  case (Cons d ds)
  let ?r = "prev * 10 + of_int d"
  have d: "0 \<le> d" "d \<le> 9" "digits ds" using Cons.prems by simp_all
  have "nat (dval (rev (d # ds))) = nat (dval (rev ds)) + 10 ^ length ds * nat d"
    using d dval_nonneg [of "rev ds"] by (simp add: dval_append nat_add_distrib nat_mult_distrib nat_power_eq digits_def)
  then have e: "unat prev * 10 ^ length (d # ds) + nat (dval (rev (d # ds)))
      = (10 * unat prev + nat d) * 10 ^ length ds + nat (dval (rev ds))"
    by (simp add: algebra_simps)
  show ?case
  proof (cases "2 ^ 64 \<le> 10 * unat prev + nat d")
    case True
    then have "\<not> unat prev * 10 ^ length (d # ds) + nat (dval (rev (d # ds))) < 2 ^ 64"
      unfolding e using mult_le_mono [of "2 ^ 64" "10 * unat prev + nat d" 1 "10 ^ length ds"] by simp
    then show ?thesis using True ulong_step(1) [OF d(1,2) refl, of prev] by (simp add: Let_def)
  next
    case False
    then have "unat ?r = 10 * unat prev + nat d" using ulong_step(2) [OF d(1,2) refl, of prev] by simp
    then have "unat ?r * 10 ^ length ds + nat (dval (rev ds)) = unat prev * 10 ^ length (d # ds) + nat (dval (rev (d # ds)))"
      by (simp only: e)
    moreover have "ulong_abs_loop prev (d # ds) = ulong_abs_loop ?r ds"
      using False ulong_step(1) [OF d(1,2) refl, of prev] by (simp add: Let_def)
    ultimately show ?thesis using Cons.IH [OF d(3), of ?r] by (simp only:)
  qed
qed

lemma ulong_abs_correct:
  assumes "raw_ok n"
  shows "zbc_num_ulong_abs n =
    (if \<lfloor>bc_abs n\<rfloor> < 2 ^ 64 then Inr (of_int \<lfloor>bc_abs n\<rfloor>) else Inl (Bc_error ''overflow''))"
proof -
  let ?ds = "drop (rdx n) (num n)"
  have d: "digits ?ds" using assms by (simp add: raw_ok_def)
  have v: "\<lfloor>bc_abs n\<rfloor> = dval ?ds"
  proof (cases "rdx n \<le> len n")
    case True
    then show ?thesis using assms floor_scaled [of n 0] by (simp add: dval_drop raw_ok_def)
  next
    case False
    then show ?thesis using assms by (simp add: raw_ok_def bc_abs_def)
  qed
  have "digits (rev ?ds)" using d by (simp add: digits_def)
  from ulong_abs_loop_correct [OF this, of 0] show ?thesis
    using dval_nonneg [OF d] unfolding v by (simp add: zbc_num_ulong_abs_def nat_less_iff)
qed

section \<open>Exact products\<close>

lemma mul_exact:
  assumes "bc_ok x" "bc_ok y" "2 * (max (len x) (len y) + rdx x + rdx y) + 4 \<le> BC_MAX_NUM"
  shows "\<exists>z. zbc_num_mul x y (rdx x + rdx y) = Inr z \<and> bc_ok z \<and> rdx z = rdx x + rdx y \<and> bc_value z = bc_value x * bc_value y"
proof -
  have s: "mul_scale x y (rdx x + rdx y) = rdx x + rdx y" by (simp add: mul_scale_def)
  obtain u v where "bc_value x * 10 ^ rdx x = of_int u" "bc_value y * 10 ^ rdx y = of_int v" using value_scaled by blast
  then have "(bc_value x * 10 ^ rdx x) * (bc_value y * 10 ^ rdx y) = of_int (u * v)" by simp
  then have "bc_value x * bc_value y * 10 ^ (rdx x + rdx y) = of_int (u * v)" by (simp add: power_add ac_simps)
  then have "bc_cut (rdx x + rdx y) (bc_value x * bc_value y) = bc_value x * bc_value y" by (rule cut_exact)
  then show ?thesis using m_correct [OF assms, of "rdx x + rdx y"] unfolding s zbc_num_mul_def by simp
qed

section \<open>Repeated squaring\<close>

text \<open>A number that holds the \<open>e\<close>-th power of \<open>a\<close> with all its places.\<close>

definition holds_power :: "BcNum \<Rightarrow> nat \<Rightarrow> BcNum \<Rightarrow> bool" where
  "holds_power a e x \<longleftrightarrow> bc_ok x \<and> rdx x = e * rdx a \<and> bc_value x = bc_value a ^ e"

lemma power_len:
  assumes "bc_ok a" "holds_power a e x" "0 < e"
  shows "len x \<le> e * len a + e * rdx a"
proof -
  have "dval (num a) < 10 ^ len a" using dval_less ok_digits assms(1) by blast
  then have "(of_int (dval (num a)) :: rat) < 10 ^ len a" by (metis of_int_less_iff of_int_numeral of_int_power)
  moreover have "bc_abs a \<le> of_int (dval (num a))"
    using dval_nonneg [OF ok_digits [OF assms(1)]] by (simp add: bc_abs_def divide_le_eq mult_le_cancel_left1)
  ultimately have "bc_abs a < 10 ^ len a" by linarith
  then have "bc_abs a ^ e < (10 ^ len a) ^ e"
    using assms(3) bc_abs_nonneg [OF ok_raw [OF assms(1)]] by (intro power_strict_mono) auto
  then have "bc_abs x < 10 ^ (e * len a)"
    using assms(1,2) bc_value_abs ok_raw by (simp add: holds_power_def power_abs flip: power_mult) (metis abs_power2 mult.commute power_abs power_mult)
  then show ?thesis using ok_len_bound [of x "e * len a"] assms(2) by (simp add: holds_power_def)
qed

lemma product_size: "m \<le> 2 * p + 2 * q \<Longrightarrow> r \<le> p \<Longrightarrow> s \<le> q \<Longrightarrow> 6 * (p + q) + 4 \<le> (k::nat) \<Longrightarrow> 2 * (m + r + s) + 4 \<le> k"
  by simp

lemma power_mul:
  assumes a: "bc_ok a" "num a \<noteq> []" and x: "holds_power a i x" "0 < i" and y: "holds_power a j y" "0 < j"
    and size: "6 * (len a * (i + j)) + 4 \<le> BC_MAX_NUM"
  shows "\<exists>z. zbc_num_mul x y (rdx x + rdx y) = Inr z \<and> holds_power a (i + j) z"
proof -
  have r: "rdx a \<le> len a" using ok_rdx a by blast
  then have ij: "i * rdx a \<le> i * len a" "j * rdx a \<le> j * len a" by simp_all
  have "len x \<le> 2 * (i * len a)" "len y \<le> 2 * (j * len a)"
    using power_len [OF a(1) x] power_len [OF a(1) y] ij by linarith+
  then have "max (len x) (len y) \<le> 2 * (i * len a) + 2 * (j * len a)" by simp
  moreover have "len a * (i + j) = i * len a + j * len a" "rdx x = i * rdx a" "rdx y = j * rdx a"
    using x(1) y(1) by (simp_all add: algebra_simps holds_power_def)
  ultimately have "2 * (max (len x) (len y) + rdx x + rdx y) + 4 \<le> BC_MAX_NUM"
    using size ij by (intro product_size [of _ "i * len a" "j * len a"]) simp_all
  then show ?thesis using mul_exact [of x y] x(1) y(1) by (auto simp: holds_power_def power_add algebra_simps)
qed

lemma unat_small: "n < 2 ^ 64 \<Longrightarrow> unat (of_nat n :: u64) = n"
  by (simp add: unat_of_nat)

lemma unat_shr1 [simp]: "unat (shr (p::u64) (Suc 0)) = unat p div 2"
  by (simp add: unat_shr)

lemma odd_bit: "p AND 1 \<noteq> 0 \<longleftrightarrow> odd (unat (p::u64))"
  by (simp add: and_one_eq odd_iff_mod_2_eq_one even_unat_iff)

lemma square_loop_correct:
  assumes a: "bc_ok a" "num a \<noteq> []" and size: "6 * (len a * n) + 4 \<le> BC_MAX_NUM" and n: "0 < n"
  shows "\<lbrakk>holds_power a e x; unat p * e = n; unat p < 2 ^ fuel\<rbrakk> \<Longrightarrow>
    \<exists>p' e' x'. square_loop fuel p (rdx x) x = Inr (p', rdx x', x') \<and> holds_power a e' x' \<and> unat p' * e' = n \<and> odd (unat p')"
proof (induction fuel arbitrary: p e x)
  case 0
  then show ?case using n by simp
next
  case (Suc f)
  show ?case
  proof (cases "odd (unat p)")
    case True
    then show ?thesis using Suc.prems odd_bit [of p] by auto
  next
    case False
    then have h: "unat (shr p 1) * (e + e) = n" using Suc.prems(2) by (auto elim!: evenE)
    then have "unat (shr p 1) \<noteq> 0" "e \<noteq> 0" using n by auto
    then have "e + e \<le> n" using h mult_le_mono1 [of 1 "unat (shr p 1)" "e + e"] by simp
    then have "len a * (e + e) \<le> len a * n" by simp
    then have "6 * (len a * (e + e)) + 4 \<le> BC_MAX_NUM" using size by linarith
    then obtain z where z: "zbc_num_mul x x (rdx x + rdx x) = Inr z" "holds_power a (e + e) z"
      using power_mul [OF a Suc.prems(1) _ Suc.prems(1)] \<open>e \<noteq> 0\<close> by auto
    then have "rdx z = rdx x * 2" using Suc.prems(1) by (simp add: holds_power_def)
    then show ?thesis using Suc.IH [OF z(2) h] Suc.prems(3) z(1) False odd_bit [of p]
      by (simp add: Let_def mult_2_right)
  qed
qed

lemma power_loop_correct:
  assumes a: "bc_ok a" "num a \<noteq> []" and size: "6 * (len a * n) + 4 \<le> BC_MAX_NUM"
  shows "\<lbrakk>holds_power a e x; 0 < e; holds_power a m c; 0 < m; unat p * (2 * e) + m = n; unat p < 2 ^ fuel\<rbrakk> \<Longrightarrow>
    \<exists>c'. power_loop (Suc fuel) p (rdx x) (rdx c) x c = Inr c' \<and> holds_power a n c'"
proof (induction fuel arbitrary: p e x m c)
  case 0
  then show ?case by (simp add: unat_eq_zero)
next
  case (Suc f)
  show ?case
  proof (cases "p = 0")
    case True
    then show ?thesis using Suc.prems by simp
  next
    case False
    then have p: "1 \<le> unat p" by (simp add: unat_gt_0 Suc_le_eq)
    then have "2 * e \<le> unat p * (2 * e)" using mult_le_mono1 [of 1 "unat p" "2 * e"] by simp
    then have en: "e + e \<le> n" "odd (unat p) \<Longrightarrow> m + (e + e) \<le> n" using Suc.prems(5) by linarith+
    have fits: "6 * (len a * k) + 4 \<le> BC_MAX_NUM" if "k \<le> n" for k
    proof -
      have "len a * k \<le> len a * n" using that by simp
      then show ?thesis using size by linarith
    qed
    obtain z where z: "zbc_num_mul x x (rdx x + rdx x) = Inr z" "holds_power a (e + e) z"
      using power_mul [OF a Suc.prems(1,2) Suc.prems(1,2) fits [OF en(1)]] by blast
    have rz: "rdx z = rdx x * 2" using z(2) Suc.prems(1) by (simp add: holds_power_def)
    have lt: "unat (shr p 1) < 2 ^ f" using Suc.prems(6) by (simp add:)
    show ?thesis
    proof (cases "odd (unat p)")
      case True
      obtain d where d: "zbc_num_mul c z (rdx c + rdx z) = Inr d" "holds_power a (m + (e + e)) d"
        using power_mul [OF a Suc.prems(3,4) z(2) _ fits [OF en(2) [OF True]]] Suc.prems(2) by auto
      have rd: "rdx d = rdx c + rdx z" using d(2) z(2) Suc.prems(3) by (simp add: holds_power_def algebra_simps)
      have "unat (shr p 1) * (2 * (e + e)) + (m + (e + e)) = n"
        using True Suc.prems(5) by (auto simp: algebra_simps elim!: oddE)
      then show ?thesis using Suc.IH [OF z(2) _ d(2) _ _ lt] Suc.prems(2) False True odd_bit [of p] z(1) d(1) rz rd
        by (simp add: Let_def mult_2_right)
    next
      case e: False
      have "unat (shr p 1) * (2 * (e + e)) + m = n"
        using e Suc.prems(5) by (auto simp: algebra_simps elim!: evenE)
      then show ?thesis using Suc.IH [OF z(2) _ Suc.prems(3,4) _ lt] Suc.prems(2) False e odd_bit [of p] z(1) rz
        by (simp add: Let_def mult_2_right)
    qed
  qed
qed

text \<open>The end of \<open>zbc_num_p\<close>: cutting without cleaning.\<close>

lemma drop_ok:
  assumes "bc_ok x" "p \<le> rdx x" "dval (drop p (num x)) \<noteq> 0"
  shows "bc_ok (bc_num_truncate x p)"
proof -
  have n: "num x \<noteq> []" using assms(3) by auto
  then have "rdx x \<le> len x" using assms(1) ok_rdx by blast
  then show ?thesis using assms n by (auto simp: bc_ok_def bc_num_truncate_def Let_def last_drop)
qed

lemma power_end:
  assumes "bc_ok x" "s \<le> rdx x" "t = (if rdx x > s then bc_num_truncate x (rdx x - s) else x)"
    and "r = (if list_ex (\<lambda>d. d \<noteq> 0) (num t) then t else bc_num_setToZero s)"
  shows "bc_ok r \<and> rdx r = s \<and> bc_value r = bc_cut s (bc_value x)"
proof -
  have t: "t = bc_num_truncate x (rdx x - s)" using assms(2,3) by (simp add: bc_num_truncate_def)
  note tc = truncate_correct [OF ok_raw [OF assms(1)], of "rdx x - s"]
  have p: "(10::int) ^ rdx x = 10 ^ (rdx x - s) * 10 ^ s" using assms(2) by (simp flip: power_add)
  have rt: "rdx t = s" "neg t = neg x" "dval (num t) = dval (num x) div 10 ^ (rdx x - s)" "digits (num t)"
    using tc assms(2) by (simp_all add: t raw_ok_def)
  have "\<lfloor>bc_abs x * 10 ^ s\<rfloor> = dval (num t)" unfolding floor_scaled p rt(3) by simp
  then have abs: "bc_abs t = of_int \<lfloor>\<bar>bc_value x\<bar> * 10 ^ s\<rfloor> / 10 ^ s"
    by (simp add: bc_abs_def [of t] rt(1) bc_value_abs [OF ok_raw [OF assms(1)]])
  have ex: "list_ex (\<lambda>d. d \<noteq> 0) (num t) \<longleftrightarrow> dval (num t) \<noteq> 0" using rt(4) by (simp add: list_ex_iff dval_0_iff)
  show ?thesis
  proof (cases "dval (num t) = 0")
    case True
    then show ?thesis using abs ex assms(4) by (simp add: bc_abs_def bc_num_setToZero_def bc_ok_def bc_value_def bc_cut_def)
  next
    case False
    then have nz: "num x \<noteq> []" using rt(3) by auto
    have "num t = (if rdx x - s = 0 then num x else drop (rdx x - s) (num x))" using nz by (simp add: t bc_num_truncate_def Let_def)
    then have "dval (drop (rdx x - s) (num x)) \<noteq> 0" using False by (cases "rdx x - s = 0") simp_all
    then have ok: "bc_ok t" using drop_ok [OF assms(1), of "rdx x - s"] by (simp add: t)
    have "bc_value t = bc_cut s (bc_value x)"
      using abs rt(2) bc_value_neg [OF assms(1) nz] by (simp add: bc_value_def [of t] bc_cut_def)
    then show ?thesis using ok ex False assms(4) rt(1) by simp
  qed
qed

lemma int_check_ok: "dval (take n ds) = 0 \<Longrightarrow> digits ds \<Longrightarrow> n \<le> length ds \<Longrightarrow> int_check ds n = Inr ()"
proof (induction ds n rule: int_check.induct)
  case (3 d ds i)
  have "0 \<le> dval (take i ds)" "0 \<le> d" "d + 10 * dval (take i ds) = 0" using 3(2,3) by simp_all
  then have "d = 0" "dval (take i ds) = 0" by linarith+
  then show ?case using 3 by simp
qed simp_all

lemma integer_digits:
  assumes "bc_ok b" "bc_value b = of_int k" "num b \<noteq> []"
  shows "dval (take (rdx b) (num b)) = 0" "\<lfloor>bc_abs b\<rfloor> = \<bar>k\<bar>" "bc_abs b = of_int \<bar>k\<bar>"
proof -
  have r: "rdx b \<le> len b" using ok_rdx assms(1,3) by blast
  show a: "bc_abs b = of_int \<bar>k\<bar>" using bc_value_abs [OF ok_raw [OF assms(1)]] assms(2) by simp
  then show "\<lfloor>bc_abs b\<rfloor> = \<bar>k\<bar>" by (metis floor_of_int)
  have "(of_int (dval (num b)) :: rat) = of_int (\<bar>k\<bar> * 10 ^ rdx b)" using a by (simp add: bc_abs_def divide_eq_eq)
  then have "dval (num b) = \<bar>k\<bar> * 10 ^ rdx b" by (simp only: of_int_eq_iff)
  then have "dval (num b) mod 10 ^ rdx b = 0" by simp
  moreover have "dval (num b) = dval (take (rdx b) (num b)) + 10 ^ rdx b * dval (drop (rdx b) (num b))"
    using dval_split [of "num b" "rdx b"] r by (simp add: min_absorb1)
  moreover have "dval (take (rdx b) (num b)) < 10 ^ rdx b" "0 \<le> dval (take (rdx b) (num b))"
    using dval_less [of "take (rdx b) (num b)"] ok_digits [OF assms(1)] r by simp_all
  ultimately show "dval (take (rdx b) (num b)) = 0" by (metis mod_mult_self2 mod_pos_pos_trivial)
qed

text \<open>The number of places of a power with a positive exponent.\<close>

definition pow_scale :: "BcNum \<Rightarrow> nat \<Rightarrow> nat \<Rightarrow> nat" where
  "pow_scale a n scale = min (rdx a * n) (max scale (rdx a))"

lemma min_max_if: "(if x < (if r > s then r else s) then x else (if r > s then r else s)) = min x (max s (r::nat))"
  by (simp add: min_def max_def)

lemma p_correct:
  assumes a: "bc_ok a" "num a \<noteq> []" and b: "bc_ok b" "num b \<noteq> []" "bc_value b = of_int k"
    and size: "6 * (len a * nat \<bar>k\<bar>) + 4 \<le> BC_MAX_NUM" and k: "nat \<bar>k\<bar> < 2 ^ 64"
  shows "\<exists>c. zbc_num_p a b scale = Inr c \<and> bc_ok c
    \<and> (if 0 < k then rdx c = pow_scale a (nat k) scale \<and> bc_value c = bc_cut (pow_scale a (nat k) scale) (bc_value a ^ nat k)
       else rdx c = scale \<and> bc_value c = bc_cut scale (1 / bc_value a ^ nat (- k)))"
proof -
  define n where "n = nat \<bar>k\<bar>"
  note size = size [folded n_def] and k = k [folded n_def]
  note id = integer_digits [OF b(1,3,2)]
  have r: "rdx b \<le> len b" "rdx a \<le> len a" using ok_rdx a b by blast+
  have chk: "int_check (num b) (rdx b) = Inr ()" using int_check_ok [OF id(1) ok_digits [OF b(1)] r(1)] .
  have "bc_value b \<noteq> 0" using bc_value_0 [OF b(1)] b(2) by simp
  then have k0: "k \<noteq> 0" "0 < n" using b(3) by (auto simp: n_def)
  have negb: "neg b \<longleftrightarrow> k < 0" using bc_value_neg [OF b(1,2)] b(3) k0 by (auto simp: sgn_if split: if_splits)
  have one: "bc_ok bc_num_one" "bc_value bc_num_one = 1" by (simp_all add: bc_num_one_def bc_num_setToZero_def bc_ok_def bc_value_def bc_abs_def)
  show ?thesis
  proof (cases "BC_NUM_ONE b")
    case True
    then have "bc_abs b = 1" by (auto simp: BC_NUM_ONE_def bc_abs_def length_Suc_conv)
    then have n1: "\<bar>k\<bar> = 1" using id(3) by (metis of_int_eq_1_iff)
    show ?thesis
    proof (cases "k < 0")
      case True
      then have "k = - 1" using n1 by linarith
      then show ?thesis using d_correct [OF one(1) a, of scale] chk a(2) b(2) \<open>BC_NUM_ONE b\<close> negb
        by (simp add: zbc_num_p_def zbc_num_inv_def zbc_num_div_def one(2))
    next
      case False
      then have "k = 1" using n1 by linarith
      moreover obtain z where "bc_value a * 10 ^ rdx a = of_int z" using value_scaled by blast
      then have "bc_cut (rdx a) (bc_value a) = bc_value a" by (rule cut_exact)
      ultimately show ?thesis using a chk b(2) \<open>BC_NUM_ONE b\<close> negb by (simp add: zbc_num_p_def pow_scale_def)
    qed
  next
    case False
    have "\<lfloor>bc_abs b\<rfloor> < 2 ^ 64" using id(2) k by (simp add: nat_less_iff n_def)
    then have u: "zbc_num_ulong_abs b = Inr (of_nat n)" using ulong_abs_correct [OF ok_raw [OF b(1)]] id(2) by (simp add: n_def)
    have un: "unat (of_nat n :: u64) = n" by (rule unat_small [OF k])
    have p1: "holds_power a 1 a" using a by (simp add: holds_power_def)
    have "unat (of_nat n :: u64) < 2 ^ 65" "unat (of_nat n :: u64) * 1 = n" using un k by simp_all
    then obtain p e x where sq: "square_loop 65 (of_nat n) (rdx a) a = Inr (p, rdx x, x)" "holds_power a e x" "unat p * e = n" "odd (unat p)"
      using square_loop_correct [OF a size k0(2) p1, of "of_nat n" 65] by auto
    have e: "0 < e" using sq(3) k0(2) by (cases e) auto
    have "unat (shr p 1) * (2 * e) + e = n" using sq(3,4) by (auto simp: algebra_simps elim!: oddE)
    moreover have "unat (shr p 1) < 2 ^ 64" using unat_bound [of "shr p 1"] by simp
    moreover have s65: "Suc 64 = 65" by simp
    ultimately obtain c where pw: "power_loop 65 (shr p 1) (rdx x) (rdx x) x x = Inr c" "holds_power a n c"
      using power_loop_correct [OF a size sq(2) e sq(2) e, of "shr p 1" 64, unfolded s65] by blast
    have c: "bc_ok c" "rdx c = n * rdx a" "bc_value c = bc_value a ^ n" using pw(2) by (simp_all add: holds_power_def)
    have cn: "num c \<noteq> []" using bc_value_0 [OF c(1)] bc_value_0 [OF a(1)] a(2) c(3) by simp
    have red: "zbc_num_p a b scale =
      (let scale' = if \<not> neg b then let s = if rdx a > scale then rdx a else scale
             in if unat (of_nat (rdx a) * of_nat n :: u64) < s then unat (of_nat (rdx a) * of_nat n :: u64) else s else scale
       in bc_bind (if neg b then zbc_num_inv c scale' else Inr c) (\<lambda>c.
            let c = (if rdx c > scale' then bc_num_truncate c (rdx c - scale') else c)
            in Inr (if list_ex (\<lambda>d. d \<noteq> 0) (num c) then c else bc_num_setToZero scale')))"
      unfolding zbc_num_p_def chk bc_bind.simps u sq(1) prod.case pw(1) Let_def using False a(2) b(2) by simp
    show ?thesis
    proof (cases "k < 0")
      case True
      obtain d where d: "zbc_num_inv c scale = Inr d" "bc_ok d" "rdx d = scale" "bc_value d = bc_cut scale (1 / bc_value a ^ n)"
        using d_correct [OF one(1) c(1) cn, of scale] by (auto simp: zbc_num_inv_def zbc_num_div_def one(2) c(3))
      obtain z where "bc_value d * 10 ^ rdx d = of_int z" using value_scaled by blast
      then have "bc_cut scale (bc_value d) = bc_value d" using d(3) by (intro cut_exact) simp
      then show ?thesis using power_end [OF d(2) _ refl refl, of scale] d(1,3,4) True negb
        unfolding red by (simp add: Let_def n_def)
    next
      case False
      let ?s = "pow_scale a n scale"
      have "rdx a * n \<le> len a * n" using r(2) by simp
      also have "BC_MAX_NUM < 2 ^ 64" by (simp add: BC_MAX_NUM_def)
      then have "len a * n < 2 ^ 64" using size by linarith
      finally have "rdx a * n < 2 ^ 64" .
      then have "unat (of_nat (rdx a) * of_nat n :: u64) = rdx a * n"
        using unat_small [of "rdx a * n"] by simp
      then have s: "(if unat (of_nat (rdx a) * of_nat n :: u64) < (if rdx a > scale then rdx a else scale)
          then unat (of_nat (rdx a) * of_nat n :: u64) else (if rdx a > scale then rdx a else scale)) = ?s"
        by (simp only: min_max_if pow_scale_def)
      have "?s \<le> rdx c" by (simp add: c(2) pow_scale_def mult.commute)
      define t where "t = (if rdx c > ?s then bc_num_truncate c (rdx c - ?s) else c)"
      define w where "w = (if list_ex (\<lambda>d. d \<noteq> 0) (num t) then t else bc_num_setToZero ?s)"
      have "neg b = False" using False negb by simp
      then have "zbc_num_p a b scale = Inr w" unfolding red Let_def w_def t_def by (simp only: not_False_eq_True if_True if_False s bc_bind.simps)
      moreover have "nat k = n" "0 < k" using False k0(1) by (simp_all add: n_def)
      ultimately show ?thesis using power_end [OF c(1) \<open>?s \<le> rdx c\<close> t_def w_def] c(3) by simp
    qed
  qed
qed

section \<open>Powers modulo a number\<close>

definition bc_int :: "BcNum \<Rightarrow> int \<Rightarrow> bool" where
  "bc_int n z \<longleftrightarrow> bc_ok n \<and> rdx n = 0 \<and> bc_value n = of_int z"

lemma int_abs: "bc_int n z \<Longrightarrow> bc_abs n = of_int \<bar>z\<bar>"
  using bc_value_abs [OF ok_raw, of n] by (simp add: bc_int_def)

lemma int_bound: "bc_int n z \<Longrightarrow> \<bar>z\<bar> < 10 ^ len n"
proof -
  assume n: "bc_int n z"
  then have "of_int (dval (num n)) = (of_int \<bar>z\<bar> :: rat)" using int_abs [OF n] by (simp add: bc_abs_def bc_int_def)
  then have "dval (num n) = \<bar>z\<bar>" by (simp only: of_int_eq_iff)
  then show ?thesis using dval_less [of "num n"] n ok_digits by (auto simp: bc_int_def)
qed

lemma int_len:
  assumes "bc_int n z" "\<bar>z\<bar> < 10 ^ k"
  shows "len n \<le> k"
proof -
  have "(of_int \<bar>z\<bar> :: rat) < of_int (10 ^ k)" using assms(2) by (simp only: of_int_less_iff)
  then have "bc_abs n < 10 ^ k" by (simp only: int_abs [OF assms(1)]) simp
  then show ?thesis using ok_len_bound [of n k] assms(1) by (simp add: bc_int_def)
qed

lemma int_Nil: "bc_int n z \<Longrightarrow> num n = [] \<longleftrightarrow> z = 0"
  using bc_value_0 [of n] by (simp add: bc_int_def)

lemma int_mul:
  assumes "bc_int x u" "bc_int y v" "2 * (len x + len y) + 4 \<le> BC_MAX_NUM"
  shows "\<exists>z. zbc_num_mul x y 0 = Inr z \<and> bc_int z (u * v)"
proof -
  have "2 * (max (len x) (len y) + rdx x + rdx y) + 4 \<le> BC_MAX_NUM" using assms by (simp add: bc_int_def)
  then show ?thesis using mul_exact [of x y] assms(1,2) by (auto simp: bc_int_def)
qed

lemma cut_quotient: "m \<noteq> 0 \<Longrightarrow> bc_cut 0 (of_int x / of_int m) = of_int (sgn x * sgn m * (\<bar>x\<bar> div \<bar>m\<bar>))"
proof -
  have "\<lfloor>\<bar>of_int x / of_int m\<bar> :: rat\<rfloor> = \<bar>x\<bar> div \<bar>m\<bar>"
    unfolding abs_divide of_int_abs [symmetric] by (rule floor_divide_of_int_eq)
  moreover have "sgn (of_int x / of_int m :: rat) = of_int (sgn x * sgn m)"
    by (simp add: sgn_divide) (simp add: sgn_if)
  ultimately show ?thesis by (simp add: bc_cut_def)
qed

lemma int_divmod:
  assumes x: "bc_int a x" and m: "bc_int c m" "m \<noteq> 0" and size: "2 * (len a + len c) + 4 \<le> BC_MAX_NUM"
  shows "\<exists>q d. zbc_num_r a c bc_num_zero 0 0 = Inr (q, d) \<and> bc_int q (x sdiv m) \<and> bc_int d (x smod m)"
proof -
  have c: "num c \<noteq> []" using int_Nil [OF m(1)] m(2) by simp
  have r: "bc_ok a" "bc_ok c" "0 = max (0 + rdx c) (rdx a)" "2 * (len a + len c + 2 * rdx c + 2 * 0) + 4 \<le> BC_MAX_NUM"
    using x m(1) size by (simp_all add: bc_int_def)
  have cut: "bc_cut 0 (bc_value a / bc_value c) = of_int (x sdiv m)"
    using cut_quotient [OF m(2), of x] x m(1) by (simp add: bc_int_def signed_divide_int_def)
  from r_correct [OF r(1,2) c r(3,4), of bc_num_zero] obtain q d where
    qd: "zbc_num_r a c bc_num_zero 0 0 = Inr (q, d)" "bc_ok d" "rdx d = 0" "bc_value d = bc_value a - of_int (x sdiv m) * bc_value c"
      "if num a = [] then q = bc_num_zero else bc_ok q \<and> rdx q = 0 \<and> bc_value q = of_int (x sdiv m)"
    unfolding cut by blast
  have "bc_value d = of_int (x - x sdiv m * m)" using qd(4) x m(1) by (simp add: bc_int_def)
  then have "bc_int d (x smod m)" using qd(2,3) by (simp add: bc_int_def minus_sdiv_mult_eq_smod)
  moreover have "bc_int q (x sdiv m)"
  proof (cases "num a = []")
    case True
    then show ?thesis using qd(5) int_Nil [OF x]
      by (simp add: bc_int_def bc_num_zero_def bc_num_setToZero_def bc_ok_def bc_value_def bc_abs_def)
  qed (use qd(5) in \<open>simp add: bc_int_def\<close>)
  ultimately show ?thesis using qd(1) by blast
qed

lemma int_rem:
  assumes x: "bc_int a x" and m: "bc_int c m" "m \<noteq> 0" and size: "2 * (len a + len c) + 4 \<le> BC_MAX_NUM"
  shows "\<exists>d. zbc_num_rem a c 0 = Inr d \<and> bc_int d (x smod m)"
proof -
  have "zbc_num_rem a c 0 = bc_bind (zbc_num_r a c bc_num_zero 0 0) (\<lambda>(c1, c). Inr c)"
    using x m(1) by (simp add: zbc_num_rem_def bc_int_def)
  then show ?thesis using int_divmod [OF assms] by auto
qed

lemma smod_cong: "x smod m mod m = x mod (m :: int)"
  by (simp add: signed_modulo_int_eq_modulo_int mod_diff_right_eq [symmetric])

lemma smod_less: "m \<noteq> 0 \<Longrightarrow> \<bar>x smod m\<bar> < \<bar>m :: int\<bar>"
  by (simp add: signed_modulo_int_def abs_mult sgn_if)

lemma mul_rem:
  assumes m: "bc_int c m" "m \<noteq> 0" and x: "bc_int x u" "\<bar>u\<bar> \<le> \<bar>m\<bar>" and y: "bc_int y v" "\<bar>v\<bar> \<le> \<bar>m\<bar>"
    and size: "6 * len c + 4 \<le> BC_MAX_NUM"
  shows "\<exists>t d. zbc_num_mul x y 0 = Inr t \<and> zbc_num_rem t c 0 = Inr d \<and> bc_int d (u * v smod m)"
proof -
  have l: "len x \<le> len c" "len y \<le> len c" using int_len [OF x(1)] int_len [OF y(1)] int_bound [OF m(1)] x(2) y(2) by simp_all
  obtain t where t: "zbc_num_mul x y 0 = Inr t" "bc_int t (u * v)" using int_mul [OF x(1) y(1)] l size by auto
  have "\<bar>u * v\<bar> < 10 ^ len c * 10 ^ len c"
    unfolding abs_mult using x(2) y(2) int_bound [OF m(1)] by (intro mult_strict_mono) auto
  then have "len t \<le> len c + len c" using t(2) by (intro int_len) (simp_all add: power_add)
  then show ?thesis using t int_rem [OF t(2) m] size by auto
qed

lemma halve:
  assumes n: "bc_int e n" "0 < n" and size: "2 * (len e + 1) + 4 \<le> BC_MAX_NUM"
  shows "\<exists>q d. zbc_num_divmod e (bc_num_one\<lparr>num := [2]\<rparr>) bc_num_zero 0 = Inr (q, d) \<and> bc_int q (n div 2)
    \<and> (BC_NUM_ONE d \<longleftrightarrow> odd n)"
proof -
  have two: "bc_int (bc_num_one\<lparr>num := [2]\<rparr>) 2"
    by (simp add: bc_int_def bc_num_one_def bc_num_setToZero_def bc_ok_def bc_value_def bc_abs_def)
  obtain q d where qd: "zbc_num_r e (bc_num_one\<lparr>num := [2]\<rparr>) bc_num_zero 0 0 = Inr (q, d)" "bc_int q (n sdiv 2)" "bc_int d (n smod 2)"
    using int_divmod [OF n(1) two] size by auto
  have v: "n sdiv 2 = n div 2" "n smod 2 = n mod 2" using n(2) by (simp_all add: signed_divide_int_def signed_modulo_int_def)
  have "whole d \<and> dval (num d) = n mod 2" using qd(3) v(2) by (intro whole_from_value) (simp_all add: bc_int_def)
  then have "BC_NUM_ONE d \<longleftrightarrow> odd n" using one_correct [of d] by (simp add: odd_iff_mod_2_eq_one)
  then show ?thesis using qd v(1) n(1) by (auto simp: zbc_num_divmod_def bc_int_def bc_num_one_def bc_num_setToZero_def)
qed

lemma modexp_loop_correct:
  assumes m: "bc_int c m" "m \<noteq> 0" and size: "6 * len c + 4 \<le> BC_MAX_NUM"
  shows "\<lbrakk>bc_int base u; \<bar>u\<bar> < \<bar>m\<bar>; bc_int e n; 0 \<le> n; n < 2 ^ fuel; 2 * (len e + 1) + 4 \<le> BC_MAX_NUM; bc_int d v; \<bar>v\<bar> \<le> \<bar>m\<bar>\<rbrakk> \<Longrightarrow>
    \<exists>r w. modexp_loop (Suc fuel) c base e d = Inr r \<and> bc_int r w \<and> w mod m = v * u ^ nat n mod m \<and> (\<bar>v\<bar> < \<bar>m\<bar> \<or> 0 < n \<longrightarrow> \<bar>w\<bar> < \<bar>m\<bar>)"
proof (induction fuel arbitrary: base u e n d v)
  case 0
  then have "n = 0" "num e = []" using int_Nil [OF 0(3)] by simp_all
  then show ?case using 0 by auto
next
  case (Suc f)
  show ?case
  proof (cases "n = 0")
    case True
    then have "num e = []" using int_Nil [OF Suc.prems(3)] by simp
    then show ?thesis using True Suc.prems by auto
  next
    case False
    then have n: "0 < n" "num e \<noteq> []" using Suc.prems(4) int_Nil [OF Suc.prems(3)] by simp_all
    obtain q t where h: "zbc_num_divmod e (bc_num_one\<lparr>num := [2]\<rparr>) bc_num_zero 0 = Inr (q, t)" "bc_int q (n div 2)" "BC_NUM_ONE t \<longleftrightarrow> odd n"
      using halve [OF Suc.prems(3) n(1) Suc.prems(6)] by blast
    obtain d1 v1 where d1: "(if BC_NUM_ONE t then bc_bind (zbc_num_mul d base 0) (\<lambda>temp. zbc_num_rem temp c 0) else Inr d) = Inr d1"
      "bc_int d1 v1" "\<bar>v1\<bar> \<le> \<bar>m\<bar>" "v1 mod m = v * u ^ nat (n mod 2) mod m" "\<bar>v\<bar> < \<bar>m\<bar> \<or> odd n \<longrightarrow> \<bar>v1\<bar> < \<bar>m\<bar>"
    proof (cases "odd n")
      case True
      obtain t1 d1 where "zbc_num_mul d base 0 = Inr t1" "zbc_num_rem t1 c 0 = Inr d1" "bc_int d1 (v * u smod m)"
        using mul_rem [OF m Suc.prems(7,8) Suc.prems(1) _ size] Suc.prems(2) by auto
      then show ?thesis using that [of d1 "v * u smod m"] True h(3) smod_less [OF m(2), of "v * u"]
        by (simp add: smod_cong odd_iff_mod_2_eq_one)
    next
      case False
      then show ?thesis using that [of d v] h(3) Suc.prems(7,8) by (simp add: even_iff_mod_2_eq_zero)
    qed
    obtain t2 b2 where b2: "zbc_num_mul base base 0 = Inr t2" "zbc_num_rem t2 c 0 = Inr b2" "bc_int b2 (u * u smod m)"
      using mul_rem [OF m Suc.prems(1) _ Suc.prems(1) _ size] Suc.prems(2) by auto
    have "len q \<le> len e" using int_bound [OF Suc.prems(3)] n(1) by (intro int_len [OF h(2)]) simp
    then have sz: "2 * (len q + 1) + 4 \<le> BC_MAX_NUM" using Suc.prems(6) by simp
    have lt: "n div 2 < 2 ^ f" "0 \<le> n div 2" using Suc.prems(4,5) by simp_all
    obtain r w where r: "modexp_loop (Suc f) c b2 q d1 = Inr r" "bc_int r w" "w mod m = v1 * (u * u smod m) ^ nat (n div 2) mod m"
      "\<bar>v1\<bar> < \<bar>m\<bar> \<or> 0 < n div 2 \<longrightarrow> \<bar>w\<bar> < \<bar>m\<bar>"
      using Suc.IH [OF b2(3) smod_less [OF m(2)] h(2) lt(2,1) sz d1(2,3)] by blast
    have "modexp_loop (Suc (Suc f)) c base e d = Inr r"
      unfolding modexp_loop.simps(2) [of "Suc f"] Let_def h(1) bc_bind.simps prod.case d1(1) b2(1,2) r(1) using n(2) by simp
    moreover have "w mod m = v * u ^ nat n mod m"
    proof -
      have "w mod m = (v1 mod m) * ((u * u smod m mod m) ^ nat (n div 2) mod m) mod m"
        unfolding r(3) by (simp add: mod_mult_eq power_mod mod_mult_left_eq mod_mult_right_eq)
      also have "\<dots> = v * u ^ nat (n mod 2) * (u * u) ^ nat (n div 2) mod m"
        unfolding d1(4) smod_cong power_mod by (rule mod_mult_eq)
      also have "v * u ^ nat (n mod 2) * (u * u) ^ nat (n div 2) = v * u ^ (nat (n mod 2) + 2 * nat (n div 2))"
        by (simp add: power_add power_mult power2_eq_square ac_simps)
      also have "nat (n mod 2) + 2 * nat (n div 2) = nat (n mod 2 + 2 * (n div 2))"
        using lt(2) by (subst nat_add_distrib) (simp_all add: nat_mult_distrib)
      also have "n mod 2 + 2 * (n div 2) = n" by simp
      finally show ?thesis .
    qed
    moreover have "\<bar>w\<bar> < \<bar>m\<bar>" using r(4) d1(5) n(1) by (cases "odd n") (auto simp: pos_imp_zdiv_pos_iff)
    ultimately show ?thesis using r(2) by blast
  qed
qed

lemma modexp_correct:
  assumes a: "bc_int a x" and b: "bc_int b n" "0 \<le> n" and c: "bc_int c m" "m \<noteq> 0"
    and size: "6 * (len a + len b + len c) + 10 \<le> BC_MAX_NUM"
  shows "\<exists>d w. zdc_num_modexp a b c = Inr d \<and> bc_int d w \<and> w mod m = x ^ nat n mod m \<and> (0 < n \<longrightarrow> \<bar>w\<bar> < \<bar>m\<bar>)"
proof -
  have "\<not> neg b"
  proof
    assume "neg b"
    then have "num b \<noteq> []" "bc_ok b" using b(1) by (auto simp: bc_int_def bc_ok_def)
    then have "sgn (bc_value b) = - 1" using bc_value_neg \<open>neg b\<close> by simp
    then show False using b by (simp add: bc_int_def sgn_if split: if_splits)
  qed
  moreover have "num c \<noteq> []" using int_Nil [OF c(1)] c(2) by simp
  moreover obtain base where base: "zbc_num_rem a c 0 = Inr base" "bc_int base (x smod m)"
    using int_rem [OF a c] size by auto
  moreover have "bc_int bc_num_one 1"
    by (simp add: bc_int_def bc_num_one_def bc_num_setToZero_def bc_ok_def bc_value_def bc_abs_def)
  moreover have "n < 2 ^ (4 * len b)"
  proof -
    have "n < 10 ^ len b" using int_bound [OF b(1)] by simp
    also have "\<dots> \<le> 16 ^ len b" by (rule power_mono) simp_all
    finally show ?thesis by (simp add: power_mult)
  qed
  moreover have "\<bar>1\<bar> \<le> \<bar>m\<bar>" using c(2) by simp
  ultimately obtain d w where "zdc_num_modexp a b c = Inr d" "bc_int d w" "w mod m = 1 * (x smod m) ^ nat n mod m" "0 < n \<longrightarrow> \<bar>w\<bar> < \<bar>m\<bar>"
    using modexp_loop_correct [OF c _ base(2) smod_less [OF c(2)] b, of "4 * len b" bc_num_one 1] size a b(1) c
    by (auto simp: zdc_num_modexp_def bc_int_def simp del: modexp_loop.simps)
  moreover have "(x smod m) ^ nat n mod m = x ^ nat n mod m" by (metis power_mod smod_cong)
  ultimately show ?thesis by auto
qed

end
