(* ===== verification/Bc_Text_Correct.thy ===== *)
theory Bc_Text_Correct
  imports Bc_Text Bc_Pow
begin

text \<open>
  Printing a number of bc, scanning the text with its line breaks and converting it back.
\<close>

section \<open>Broken lines\<close>

text \<open>A text with a backslash and a newline in front of some of its characters.\<close>

fun broken :: "string \<Rightarrow> string \<Rightarrow> bool" where
  "broken [] t \<longleftrightarrow> t = []"
| "broken (c # cs) t \<longleftrightarrow> (\<exists>u. broken cs u \<and> (t = c # u \<or> t = CHR 0x5C # CHR 0x0A # c # u))"

lemma broken_append: "broken cs t \<Longrightarrow> broken ds u \<Longrightarrow> broken (cs @ ds) (t @ u)"
proof (induction cs arbitrary: t)
  case (Cons c cs)
  then obtain v where "broken cs v" "t = c # v \<or> t = CHR 0x5C # CHR 0x0A # c # v" by auto
  then show ?case using Cons.IH [of v] Cons.prems(2) by (auto intro!: exI [of _ "v @ u"])
qed simp

text \<open>Printing as a relation: the characters \<open>cs\<close> come out, broken.\<close>

definition prints :: "string \<Rightarrow> (printer \<Rightarrow> printer) \<Rightarrow> bool" where
  "prints cs f \<longleftrightarrow> (\<forall>s. \<exists>t. out (f s) = out s @ t \<and> broken cs t)"

lemma prints_comp: "prints cs f \<Longrightarrow> prints ds g \<Longrightarrow> prints (cs @ ds) (\<lambda>s. g (f s))"
  unfolding prints_def by (metis append.assoc broken_append)

lemma prints_fold: "(\<And>x. x \<in> set xs \<Longrightarrow> prints (h x) (f x)) \<Longrightarrow> prints (concat (map h xs)) (fold f xs)"
proof (induction xs)
  case Nil
  show ?case by (simp add: prints_def)
next
  case (Cons x xs)
  then have "prints (h x @ concat (map h xs)) (\<lambda>s. fold f xs (f x s))" by (intro prints_comp) simp_all
  then show ?case by (simp add: comp_def)
qed

lemma prints_char: "prints [c] (\<lambda>s. count_char w (bb_putchar c (bc_num_printNewline line s)))"
  by (auto simp: prints_def count_char_def bb_putchar_def bc_num_printNewline_def)

definition hex_char :: "nat \<Rightarrow> char" where
  "hex_char d = bb_hexdigits_upcase ! d"

lemma prints_hex: "prints ((if radix then ''.'' else []) @ [hex_char d]) (bc_num_printHex line d w radix)"
proof (cases radix)
  case True
  then have "bc_num_printHex line d w radix = (\<lambda>s. count_char w (bb_putchar (hex_char d) (bc_num_printNewline line
      (count_char 1 (bb_putchar (CHR ''.'') (bc_num_printNewline line s))))))"
    by (auto simp: bc_num_printHex_def hex_char_def)
  then show ?thesis using prints_comp [OF prints_char [of "CHR ''.''" 1 line] prints_char [of "hex_char d" w line]] True by simp
next
  case False
  then have "bc_num_printHex line d w radix = (\<lambda>s. count_char w (bb_putchar (hex_char d) (bc_num_printNewline line s)))"
    by (auto simp: bc_num_printHex_def hex_char_def)
  then show ?thesis using prints_char [of "hex_char d" w line] False by simp
qed

text \<open>The first character of a line of at least two is not broken off.\<close>

lemma hex_first:
  assumes "nchars s = 0" "2 \<le> line"
  shows "\<exists>t. out (bc_num_printHex line d w radix s) = out s @ (if radix then CHR ''.'' else hex_char d) # t
    \<and> broken (if radix then [hex_char d] else []) t"
proof -
  have n: "bc_num_printNewline line s = s" using assms by (simp add: bc_num_printNewline_def)
  show ?thesis
  proof (cases radix)
    case True
    let ?s = "count_char 1 (bb_putchar (CHR ''.'') s)"
    have "out ?s = out s @ ''.''" by (simp add: count_char_def bb_putchar_def)
    moreover obtain t where "out (count_char w (bb_putchar (hex_char d) (bc_num_printNewline line ?s))) = out ?s @ t" "broken [hex_char d] t"
      using prints_char [of "hex_char d" w line] by (auto simp: prints_def)
    ultimately show ?thesis using True n by (simp add: bc_num_printHex_def hex_char_def Let_def)
  next
    case False
    then show ?thesis using n by (simp add: bc_num_printHex_def count_char_def bb_putchar_def hex_char_def)
  qed
qed

section \<open>Scanning\<close>

definition is_digit_char :: "char \<Rightarrow> bool" where
  "is_digit_char c \<longleftrightarrow> isdigit c \<or> (code (CHR ''A'') \<le> code c \<and> code c \<le> code (CHR ''F''))"

definition ends_number :: "string \<Rightarrow> bool" where
  "ends_number rest \<longleftrightarrow> (case rest of [] \<Rightarrow> True
     | c # rest \<Rightarrow> c \<noteq> CHR 0x5C \<and> c \<noteq> CHR ''.'' \<and> \<not> isdigit c \<and> (code c < code (CHR ''A'') \<or> code c > code (CHR ''Z'')))"

fun one_dot :: "bool \<Rightarrow> string \<Rightarrow> bool" where
  "one_dot pt [] \<longleftrightarrow> True"
| "one_dot pt (c # cs) \<longleftrightarrow> (if c = CHR ''.'' then \<not> pt \<and> one_dot True cs else is_digit_char c \<and> one_dot pt cs)"

lemma digit_char_cases:
  assumes "is_digit_char c" "l = (if is_bc then CHR ''Z'' else CHR ''F'')"
  shows "c \<noteq> CHR 0x5C" "c \<noteq> CHR ''.''" "\<not> (\<not> isdigit c \<and> (code c < code (CHR ''A'') \<or> code c > code l))"
  using assms by (auto simp: is_digit_char_def isdigit_def split: if_splits)

lemma lex_loop_broken:
  assumes "ends_number rest" "l = (if is_bc then CHR ''Z'' else CHR ''F'')"
  shows "broken cs t \<Longrightarrow> one_dot pt cs \<Longrightarrow> \<exists>n. lex_loop l pt buf (t @ rest) k = (buf @ cs, rest, n)"
proof (induction cs arbitrary: t pt buf k)
  case Nil
  then show ?case using assms by (cases rest) (auto simp: ends_number_def split: if_splits)
next
  case (Cons c cs)
  then obtain u where u: "broken cs u" "t = c # u \<or> t = CHR 0x5C # CHR 0x0A # c # u" by auto
  have step: "\<exists>n. lex_loop l pt buf (c # u @ rest) k = (buf @ c # cs, rest, n)" for k
  proof (cases "c = CHR ''.''")
    case True
    then have "one_dot True cs" "\<not> pt" using Cons.prems(2) by simp_all
    then obtain n where "lex_loop l True (buf @ [c]) (u @ rest) k = ((buf @ [c]) @ cs, rest, n)" using Cons.IH [OF u(1)] by blast
    then show ?thesis using True \<open>\<not> pt\<close> assms(2) by (auto simp: isdigit_def)
  next
    case False
    then have "one_dot pt cs" "is_digit_char c" using Cons.prems(2) by (simp_all split: if_splits)
    then obtain n where "lex_loop l pt (buf @ [c]) (u @ rest) k = ((buf @ [c]) @ cs, rest, n)" using Cons.IH [OF u(1)] by blast
    then show ?thesis using digit_char_cases [OF \<open>is_digit_char c\<close> assms(2)] by auto
  qed
  then show ?case using u(2) by auto
qed

lemma lex_number_broken:
  assumes "ends_number rest" "broken cs t" "one_dot False (c # cs)" "List.last (c # cs) \<noteq> CHR ''.''"
  shows "\<exists>n. zxc_lex_number is_bc c (t @ rest) k = (c # cs, rest, n)"
proof -
  have "one_dot (c = CHR ''.'') cs" using assms(3) by (simp split: if_splits)
  from lex_loop_broken [OF assms(1) refl assms(2) this, of is_bc "[c]" k]
  show ?thesis using assms(4) by (auto simp: zxc_lex_number_def)
qed

section \<open>Decimal text\<close>

definition digit_text :: "int list \<Rightarrow> string" where
  "digit_text ds = map (\<lambda>d. hex_char (nat d)) ds"

text \<open>The text of a number, without its sign.\<close>

definition num_text :: "BcNum \<Rightarrow> string" where
  "num_text n = digit_text (rev (drop (rdx n) (num n))) @ (if rdx n = 0 then [] else CHR ''.'' # digit_text (rev (take (rdx n) (num n))))"

lemma decimal_cases: "0 \<le> d \<Longrightarrow> d \<le> 9 \<Longrightarrow> d \<in> {0, 1, 2, 3, 4, 5, 6, 7, 8, 9 :: int}"
  by simp presburger

lemma hex_char_digit:
  assumes "0 \<le> d" "d \<le> 9"
  shows "is_digit_char (hex_char (nat d))" "hex_char (nat d) \<noteq> CHR ''.''" "decimal_digit (hex_char (nat d)) = d"
    "hex_char (nat d) = CHR ''0'' \<longleftrightarrow> d = 0" "code (hex_char (nat d)) = 48 + nat d"
  using decimal_cases [OF assms]
  by (auto simp: is_digit_char_def isdigit_def hex_char_def bb_hexdigits_upcase_def decimal_digit_def)

text \<open>What \<open>bc_num_printDecimal\<close> prints for the digit at \<open>i\<close>.\<close>

definition place_text :: "BcNum \<Rightarrow> nat \<Rightarrow> string" where
  "place_text n i = (if i + 1 = rdx n then ''.'' else []) @ [hex_char (nat (num n ! i))]"

lemma places_above: "concat (map (place_text n) (rev [rdx n..<k])) = digit_text (map (\<lambda>i. num n ! i) (rev [rdx n..<k]))"
  by (induction k) (auto simp: place_text_def digit_text_def)

lemma places_below: "k < rdx n \<Longrightarrow> concat (map (place_text n) (rev [0..<k])) = digit_text (map (\<lambda>i. num n ! i) (rev [0..<k]))"
  by (induction k) (auto simp: place_text_def digit_text_def)

lemma index_take: "k \<le> length xs \<Longrightarrow> map (\<lambda>i. xs ! i) (rev [0..<k]) = rev (take k xs)"
  by (simp add: rev_map [symmetric]) (rule nth_equalityI, simp_all)

lemma index_drop: "map (\<lambda>i. xs ! i) (rev [k..<length xs]) = rev (drop k xs)"
  by (simp add: rev_map [symmetric]) (rule nth_equalityI, simp_all)

lemma places_text:
  assumes "rdx n \<le> len n"
  shows "concat (map (place_text n) (rev [0..<len n])) = num_text n"
proof -
  have "[0..<len n] = [0..<rdx n] @ [rdx n..<len n]" using assms by (metis le0 le_add_diff_inverse upt_add_eq_append)
  then have "concat (map (place_text n) (rev [0..<len n])) =
      digit_text (rev (drop (rdx n) (num n))) @ concat (map (place_text n) (rev [0..<rdx n]))"
    using places_above [of n "len n"] by (simp add: index_drop)
  moreover have "concat (map (place_text n) (rev [0..<rdx n])) = (if rdx n = 0 then [] else CHR ''.'' # digit_text (rev (take (rdx n) (num n))))"
  proof (cases "rdx n")
    case (Suc k)
    then have "rev (take (rdx n) (num n)) = num n ! k # map (\<lambda>i. num n ! i) (rev [0..<k])"
      using index_take [of "rdx n" "num n"] assms by simp
    then show ?thesis using places_below [of k n] Suc by (simp add: place_text_def digit_text_def)
  qed simp
  ultimately show ?thesis by (simp add: num_text_def)
qed

lemma print_decimal:
  assumes "bc_ok n" "num n \<noteq> []" "\<not> neg n" "nchars s = 0" "2 \<le> line"
  shows "\<exists>c cs t. num_text n = c # cs \<and> out (bc_num_printDecimal line n s) = out s @ c # t \<and> broken cs t"
proof -
  obtain k where k: "len n = Suc k" using assms(2) by (cases "len n") auto
  define hex where "hex i = bc_num_printHex line (nat (num n ! i)) 1 (i + 1 = rdx n)" for i
  have rest: "prints (concat (map (place_text n) (rev [0..<k]))) (fold hex (rev [0..<k]))"
    unfolding hex_def place_text_def by (rule prints_fold) (rule prints_hex)
  obtain c cs where c: "place_text n k = c # cs" "c = (if k + 1 = rdx n then CHR ''.'' else hex_char (nat (num n ! k)))"
    "cs = (if k + 1 = rdx n then [hex_char (nat (num n ! k))] else [])" by (auto simp: place_text_def)
  obtain t where t: "out (hex k s) = out s @ c # t" "broken cs t"
    using hex_first [OF assms(4,5), of "nat (num n ! k)" 1 "k + 1 = rdx n"] unfolding hex_def c(2,3) by blast
  obtain u where u: "out (fold hex (rev [0..<k]) (hex k s)) = out (hex k s) @ u" "broken (concat (map (place_text n) (rev [0..<k]))) u"
    using rest unfolding prints_def by blast
  have "bc_num_printDecimal line n s = fold hex (rev [0..<k]) (hex k s)"
    unfolding bc_num_printDecimal_def hex_def [symmetric] using assms(3) by (simp add: k)
  moreover have "num_text n = c # cs @ concat (map (place_text n) (rev [0..<k]))"
    using places_text [OF ok_rdx [OF assms(1,2)]] by (simp add: k c(1))
  ultimately show ?thesis using broken_append [OF t(2) u(2)] t(1) u(1) by auto
qed

lemma digits_text_set: "digits ds \<Longrightarrow> c \<in> set (digit_text ds) \<Longrightarrow> is_digit_char c \<and> c \<noteq> CHR ''.''"
  by (auto simp: digits_def digit_text_def hex_char_digit)

lemma one_dot_append: "\<forall>c \<in> set cs. is_digit_char c \<and> c \<noteq> CHR ''.'' \<Longrightarrow> one_dot pt (cs @ ds) = one_dot pt ds"
  by (induction cs) auto

lemma digits_rev [simp]: "digits (rev ds) = digits ds"
  by (simp add: digits_def)

lemma text_one_dot:
  assumes "digits (num n)"
  shows "one_dot False (num_text n)"
proof -
  have d: "one_dot pt (digit_text ds @ cs) = one_dot pt cs" if "digits ds" for pt ds cs
    using digits_text_set [OF that] by (intro one_dot_append) blast
  have "one_dot pt (digit_text ds)" if "digits ds" for pt ds using d [OF that, of pt "[]"] by simp
  with d show ?thesis using assms by (simp add: num_text_def)
qed

lemma text_last:
  assumes "digits (num n)" "num n \<noteq> []" "rdx n \<le> len n"
  shows "num_text n \<noteq> [] \<and> List.last (num_text n) \<noteq> CHR ''.''"
proof (cases "rdx n = 0")
  case True
  then have t: "num_text n = digit_text (rev (num n))" by (simp add: num_text_def)
  then have "num_text n \<noteq> []" using assms(2) by (simp add: digit_text_def)
  then show ?thesis using digits_text_set [of "rev (num n)" "List.last (num_text n)"] assms(1) t last_in_set by auto
next
  case False
  let ?d = "rev (take (rdx n) (num n))"
  have n: "digit_text ?d \<noteq> []" using False assms(2) by (simp add: digit_text_def)
  then have "List.last (num_text n) = List.last (digit_text ?d)" "num_text n \<noteq> []" using False by (simp_all add: num_text_def)
  then show ?thesis using digits_text_set [of ?d "List.last (digit_text ?d)"] assms(1) n by simp
qed

lemma strValid_one_dot: "one_dot pt cs \<Longrightarrow> strValid_loop pt cs"
  by (induction pt cs rule: one_dot.induct) (auto simp: is_digit_char_def isdigit_def split: if_splits)

lemma text_strip:
  assumes "bc_ok n" "num n \<noteq> []"
  shows "dropWhile (\<lambda>c. c = CHR ''0'') (num_text n) = num_text n"
proof (cases "rdx n < len n")
  case True
  then have d: "drop (rdx n) (num n) \<noteq> []" by simp
  have "List.last (num n) \<noteq> 0" using assms True by (simp add: bc_ok_def)
  then have "List.last (drop (rdx n) (num n)) \<noteq> 0" using True by simp
  moreover have "List.last (num n) \<in> set (num n)" using assms(2) by simp
  then have "0 \<le> List.last (num n)" "List.last (num n) \<le> 9" using ok_digits [OF assms(1)] by (auto simp: digits_def)
  ultimately have "hex_char (nat (List.last (drop (rdx n) (num n)))) \<noteq> CHR ''0''" using True hex_char_digit(4) by auto
  moreover obtain r where "num_text n = hex_char (nat (List.last (drop (rdx n) (num n)))) # r"
    using d by (cases "drop (rdx n) (num n)" rule: rev_cases) (simp_all add: num_text_def digit_text_def)
  ultimately show ?thesis by simp
next
  case False
  then have "rdx n = len n" using ok_rdx [OF assms] by simp
  then show ?thesis using assms(2) by (simp add: num_text_def digit_text_def)
qed

lemma text_filter:
  assumes "digits (num n)"
  shows "filter (\<lambda>c. c \<noteq> CHR ''.'') (num_text n) = digit_text (rev (num n))"
proof -
  have f: "filter (\<lambda>c. c \<noteq> CHR ''.'') (digit_text ds) = digit_text ds" if "digits ds" for ds
    using digits_text_set [OF that] by (intro filter_True) blast
  have "rev (num n) = rev (drop (rdx n) (num n)) @ rev (take (rdx n) (num n))" by (metis append_take_drop_id rev_append)
  then show ?thesis using f [of "rev (drop (rdx n) (num n))"] f [of "rev (take (rdx n) (num n))"] assms
    unfolding num_text_def by (simp add: digit_text_def)
qed

lemma text_rdx:
  assumes "digits (num n)" "rdx n \<le> len n"
  shows "(if CHR ''.'' \<in> set (num_text n) then length (tl (dropWhile (\<lambda>c. c \<noteq> CHR ''.'') (num_text n))) else 0) = rdx n"
proof -
  have nd: "\<forall>c \<in> set (digit_text (rev (drop (rdx n) (num n)))). c \<noteq> CHR ''.''"
    using digits_text_set [of "rev (drop (rdx n) (num n))"] assms(1) by auto
  show ?thesis
  proof (cases "rdx n = 0")
    case True
    then show ?thesis using nd by (auto simp: num_text_def)
  next
    case False
    then have "dropWhile (\<lambda>c. c \<noteq> CHR ''.'') (num_text n) = CHR ''.'' # digit_text (rev (take (rdx n) (num n)))"
      unfolding num_text_def using nd by (subst dropWhile_append2) auto
    then show ?thesis using False assms(2) by (simp add: num_text_def digit_text_def)
  qed
qed

lemma text_digits:
  assumes "digits (num n)"
  shows "map decimal_digit (rev (filter (\<lambda>c. c \<noteq> CHR ''.'') (num_text n))) = num n"
proof -
  have "map (\<lambda>d. decimal_digit (hex_char (nat d))) (num n) = map (\<lambda>d. d) (num n)"
    using assms by (intro map_cong) (auto simp: digits_def hex_char_digit)
  then show ?thesis unfolding text_filter [OF assms] by (simp add: digit_text_def rev_map comp_def)
qed

lemma text_nonzero:
  assumes "bc_ok n" "num n \<noteq> []"
  shows "list_ex (\<lambda>c. c \<noteq> CHR ''.'' \<and> c \<noteq> CHR ''0'') (num_text n)"
proof -
  obtain d where d: "d \<in> set (num n)" "d \<noteq> 0" using dval_0_iff [OF ok_digits [OF assms(1)]] ok_nonzero [OF assms(1)] assms(2) by auto
  then have "0 \<le> d" "d \<le> 9" using ok_digits [OF assms(1)] by (auto simp: digits_def)
  note h = hex_char_digit [OF this]
  have "hex_char (nat d) \<in> set (digit_text (rev (num n)))" using d(1) by (simp add: digit_text_def)
  then have "hex_char (nat d) \<in> set (filter (\<lambda>c. c \<noteq> CHR ''.'') (num_text n))"
    by (simp only: text_filter [OF ok_digits [OF assms(1)]])
  then show ?thesis using h d(2) by (auto simp: list_ex_iff)
qed

lemma parse_text:
  assumes "bc_ok n" "num n \<noteq> []" "\<not> neg n"
  shows "zxc_num_parse (num_text n) 10 = Inr n"
proof -
  let ?v = "num_text n"
  have dg: "digits (num n)" and rd: "rdx n \<le> len n" using ok_digits ok_rdx assms by blast+
  have last: "?v \<noteq> []" "List.last ?v \<noteq> CHR ''.''" using text_last [OF dg assms(2) rd] by simp_all
  have n: "n = \<lparr>num = num n, rdx = rdx n, neg = False\<rparr>" using assms(3) by (cases n) simp
  have z: "bc_num_zero\<lparr>rdx := rdx n, num := num n\<rparr> = n" by (subst (3) n) (simp add: bc_num_zero_def bc_num_setToZero_def)
  have ex: "list_ex (\<lambda>c. c \<noteq> CHR ''0'' \<and> c \<noteq> CHR ''.'') ?v" using text_nonzero [OF assms(1,2)] by (auto simp: list_ex_iff)
  have v: "rev (filter (\<lambda>c. c \<noteq> CHR ''.'') ?v) = List.last ?v # filter (\<lambda>c. c \<noteq> CHR ''.'') (rev (butlast ?v))"
    using last by (cases ?v rule: rev_cases) (simp_all add: rev_filter)
  have "bc_num_parseDecimal ?v = n"
  proof (cases "length ?v = 1")
    case True
    then obtain c where c: "?v = [c]" by (cases ?v) auto
    then have f: "digit_text (rev (num n)) = [c]" using text_filter [OF dg] last(2) by simp
    then obtain d where d: "num n = [d]" "c = hex_char (nat d)" by (auto simp: digit_text_def)
    have "0 \<le> d" "d \<le> 9" using dg by (simp_all add: d(1))
    then have "int (code c) - int (code (CHR ''0'')) = d" unfolding d(2) by (subst hex_char_digit(5)) simp_all
    moreover have "\<not> d > 9" using \<open>d \<le> 9\<close> by simp
    ultimately show ?thesis unfolding bc_num_parseDecimal_def text_rdx [OF dg rd] Let_def
      using ex z by (simp add: c d(1))
  next
    case False
    then show ?thesis unfolding bc_num_parseDecimal_def text_rdx [OF dg rd] Let_def v [symmetric] text_digits [OF dg]
      using ex z last(1) by simp
  qed
  moreover have "xc_num_strValid ?v" unfolding xc_num_strValid_def by (rule strValid_one_dot [OF text_one_dot [OF dg]])
  ultimately show ?thesis using text_nonzero [OF assms(1,2)] text_strip [OF assms(1,2)] by (simp add: zxc_num_parse_def)
qed

text \<open>The whole way: printing, scanning, reading.\<close>

lemma print_scan_parse:
  assumes "bc_ok n" "num n \<noteq> []" "\<not> neg n" "2 \<le> line" "ends_number rest"
  shows "\<exists>c t. out (fst (zxc_num_print line 10 n False \<lparr>out = [], nchars = 0\<rparr>)) = c # t \<and>
    (\<exists>buf k'. zxc_lex_number is_bc c (t @ rest) k = (buf, rest, k') \<and> zxc_num_parse buf 10 = Inr n)"
proof -
  let ?s = "\<lparr>out = [], nchars = 0\<rparr> :: printer"
  have "bc_num_printNewline line ?s = ?s" using assms(4) by (simp add: bc_num_printNewline_def)
  then have p: "fst (zxc_num_print line 10 n False ?s) = bc_num_printDecimal line n ?s"
    using assms(2) by (simp add: zxc_num_print_def)
  obtain c cs t where t: "num_text n = c # cs" "out (bc_num_printDecimal line n ?s) = c # t" "broken cs t"
    using print_decimal [OF assms(1-3), of ?s line] assms(4) by auto
  have "one_dot False (c # cs)" "List.last (c # cs) \<noteq> CHR ''.''"
    using text_one_dot text_last ok_digits ok_rdx assms(1,2) t(1) by (auto simp flip: t(1))
  from lex_number_broken [OF assms(5) t(3) this]
  show ?thesis using parse_text [OF assms(1-3)] p t(2) by (metis t(1))
qed

end
