(* ===== verification/Bc_Base.thy ===== *)
theory Bc_Base
  imports Bc_Text_Correct
begin

text \<open>
  Integers in the bases 2 to 16: the digits that \<open>zxc_num_printNum\<close> finds by repeated division, and reading them back by
  \<open>bc_num_parseBase\<close>.
\<close>

section \<open>Small numbers\<close>

lemma ulong_digits_correct: "digits (ulong_digits n) \<and> dval (ulong_digits n) = int n \<and> ulong_digits n \<noteq> [] \<and> (n \<noteq> 0 \<longrightarrow> List.last (ulong_digits n) \<noteq> 0)"
proof (induction n rule: ulong_digits.induct)
  case (1 n)
  have "int (n mod 10) + 10 * int (n div 10) = int n" by (simp add: zmod_int zdiv_int)
  moreover have "0 \<le> int (n mod 10)" "int (n mod 10) \<le> 9" by simp_all
  ultimately show ?case using 1 by (subst (1 2 3 4) ulong_digits.simps) (auto simp: dvd_imp_mod_0 mod_greater_zero_iff_not_dvd)
qed

lemma ulong2num_correct: "whole (bc_num_ulong2num v) \<and> dval (num (bc_num_ulong2num v)) = int (unat v)"
proof (cases "v = 0")
  case False
  then have "unat v \<noteq> 0" by (simp add: unat_eq_zero)
  then have "dval (ulong_digits (unat v)) \<noteq> 0" using ulong_digits_correct [of "unat v"] by (metis of_nat_eq_0_iff)
  then show ?thesis using ulong_digits_correct [of "unat v"] False \<open>unat v \<noteq> 0\<close>
    by (simp add: bc_num_ulong2num_def whole_def bc_ok_def bc_num_zero_def bc_num_setToZero_def)
qed (simp add: bc_num_ulong2num_def whole_def bc_ok_def bc_num_zero_def bc_num_setToZero_def)

lemma whole_int: "whole n \<Longrightarrow> bc_int n (dval (num n))"
  by (simp add: bc_int_def whole_value) (simp add: whole_def)

lemma int_whole: "bc_int n z \<Longrightarrow> 0 \<le> z \<Longrightarrow> whole n \<and> dval (num n) = z"
  unfolding bc_int_def by (intro whole_from_value) auto

lemma whole_mul:
  assumes "whole x" "whole y" "2 * (len x + len y) + 4 \<le> BC_MAX_NUM"
  shows "\<exists>z. zbc_num_mul x y 0 = Inr z \<and> whole z \<and> dval (num z) = dval (num x) * dval (num y)"
  using int_mul [OF whole_int [OF assms(1)] whole_int [OF assms(2)] assms(3)] int_whole dval_nonneg whole_digits assms(1,2)
  by (metis mult_nonneg_nonneg)

lemma whole_divmod:
  assumes "whole x" "whole y" "0 < dval (num y)" "2 * (len x + len y) + 4 \<le> BC_MAX_NUM"
  shows "\<exists>q r. zbc_num_divmod x y bc_num_zero 0 = Inr (q, r) \<and> whole q \<and> dval (num q) = dval (num x) div dval (num y)
    \<and> whole r \<and> dval (num r) = dval (num x) mod dval (num y)"
proof -
  have nn: "0 \<le> dval (num x)" using assms(1) whole_digits by simp
  have "zbc_num_divmod x y bc_num_zero 0 = zbc_num_r x y bc_num_zero 0 0"
    using assms(1,2) by (simp add: zbc_num_divmod_def whole_def)
  moreover obtain q r where "zbc_num_r x y bc_num_zero 0 0 = Inr (q, r)" "bc_int q (dval (num x) sdiv dval (num y))" "bc_int r (dval (num x) smod dval (num y))"
    using int_divmod [OF whole_int [OF assms(1)] whole_int [OF assms(2)]] assms(3,4) by auto
  moreover have "dval (num x) sdiv dval (num y) = dval (num x) div dval (num y)" "dval (num x) smod dval (num y) = dval (num x) mod dval (num y)"
    using nn assms(3) by (cases "dval (num x) = 0"; simp add: signed_divide_int_def signed_modulo_int_def)+
  ultimately show ?thesis using int_whole nn assms(3) by (simp add: pos_imp_zdiv_nonneg_iff)
qed

lemma whole_ulong: "whole n \<Longrightarrow> dval (num n) < 2 ^ 64 \<Longrightarrow> zbc_num_ulong n = Inr (of_int (dval (num n)))"
  using ulong_abs_correct [OF ok_raw, of n] by (simp add: zbc_num_ulong_def whole_def bc_abs_def)

text \<open>A natural number has one form.\<close>

lemma dval_unique: "digits xs \<Longrightarrow> digits ys \<Longrightarrow> dval xs = dval ys \<Longrightarrow> length xs = length ys \<Longrightarrow> xs = ys"
proof (induction xs arbitrary: ys)
  case (Cons x xs)
  then obtain y zs where y: "ys = y # zs" by (cases ys) auto
  have e: "x + 10 * dval xs = y + 10 * dval zs" "0 \<le> x" "x \<le> 9" "0 \<le> y" "y \<le> 9" using Cons.prems by (simp_all add: y)
  then have "x = y" by presburger
  then show ?case using Cons e(1) by (simp add: y)
qed simp

lemma whole_unique:
  assumes "whole m" "whole n" "dval (num m) = dval (num n)"
  shows "m = n"
proof -
  have "len m \<le> len n" "len n \<le> len m"
    using whole_len assms dval_less whole_digits by metis+
  then have "num m = num n" using dval_unique whole_digits assms by (metis order_antisym)
  then show ?thesis using assms(1,2) by (cases m, cases n) (simp add: whole_def)
qed

section \<open>Digits by division\<close>

definition horner :: "int \<Rightarrow> int \<Rightarrow> nat list \<Rightarrow> int" where
  "horner b z ds = fold (\<lambda>d z. z * b + int d) ds z"

lemma horner_append: "horner b z (ds @ [d]) = horner b z ds * b + int d"
  by (simp add: horner_def)

lemma horner_ge: "1 \<le> b \<Longrightarrow> 0 \<le> z \<Longrightarrow> z \<le> horner b z ds"
proof (induction ds arbitrary: z)
  case (Cons d ds)
  have "z * 1 \<le> z * b" using Cons.prems by (intro mult_left_mono) auto
  then have "z \<le> z * b + int d" by simp
  moreover have "0 \<le> z * b + int d" using Cons.prems by simp
  ultimately show ?case using Cons.IH [of "z * b + int d"] Cons.prems by (simp add: horner_def)
qed (simp add: horner_def)

lemma print_stack_correct:
  assumes b: "whole base" "dval (num base) = int b" "2 \<le> b" "b < 2 ^ 32" "len base \<le> 10"
  shows "whole intp \<Longrightarrow> dval (num intp) < 2 ^ fuel \<Longrightarrow> 2 * (len intp + 10) + 4 \<le> BC_MAX_NUM \<Longrightarrow>
    \<exists>ds. print_stack (Suc fuel) base intp stack = Inr (map of_nat ds @ stack) \<and> horner b 0 ds = dval (num intp) \<and> (\<forall>d \<in> set ds. d < b)
      \<and> (ds = [] \<or> hd ds \<noteq> 0)"
proof (induction fuel arbitrary: intp stack)
  case 0
  then have "0 \<le> dval (num intp)" "dval (num intp) < 1" by (simp_all add: whole_digits)
  then have "dval (num intp) = 0" by linarith
  then have "num intp = []" using ok_nonzero [of intp] 0(1) by (simp add: whole_def)
  then show ?case by (intro exI [of _ "[]"]) (simp add: horner_def)
next
  case (Suc fuel)
  show ?case
  proof (cases "num intp = []")
    case True
    then show ?thesis by (intro exI [of _ "[]"]) (simp add: horner_def)
  next
    case False
    let ?x = "dval (num intp)"
    have "?x \<noteq> 0" "0 \<le> ?x" using False ok_nonzero [of intp] Suc.prems(1) whole_digits by (simp_all add: whole_def)
    then have x: "0 < ?x" by linarith
    obtain q r where qr: "zbc_num_divmod intp base bc_num_zero 0 = Inr (q, r)" "whole q" "dval (num q) = ?x div int b"
      "whole r" "dval (num r) = ?x mod int b"
      using whole_divmod [OF Suc.prems(1) b(1)] b(2-5) Suc.prems(3) by auto
    have md: "0 \<le> ?x mod int b" "?x mod int b < int b" using b(3) by simp_all
    have dig: "zbc_num_ulong r = Inr (of_nat (nat (?x mod int b)))"
      using whole_ulong [OF qr(4)] md b(4) by (simp add: qr(5))
    have le: "?x div int b \<le> ?x div 2" using x b(3) by (intro zdiv_mono2) simp_all
    have q: "dval (num q) < 2 ^ fuel" using le Suc.prems(2) by (simp add: qr(3))
    have "?x div int b \<le> ?x" using le x by linarith
    then have "dval (num q) < 10 ^ len intp" using dval_less [of "num intp"] Suc.prems(1) by (simp add: qr(3) whole_digits)
    then have "len q \<le> len intp" by (rule whole_len [OF qr(2)])
    then obtain ds where ds: "print_stack (Suc fuel) base q (of_nat (nat (?x mod int b)) # stack) = Inr (map of_nat ds @ of_nat (nat (?x mod int b)) # stack)"
      "horner b 0 ds = dval (num q)" "\<forall>d \<in> set ds. d < b" "ds = [] \<or> hd ds \<noteq> 0"
      using Suc.IH [OF qr(2) q] Suc.prems(3) by fastforce
    let ?ds = "ds @ [nat (?x mod int b)]"
    have "print_stack (Suc (Suc fuel)) base intp stack = Inr (map of_nat ?ds @ stack)"
      unfolding print_stack.simps(2) [of "Suc fuel"] qr(1) bc_bind.simps prod.case dig ds(1) using False by simp
    moreover have "horner b 0 ?ds = ?x" unfolding horner_append ds(2) qr(3) using md(1) by simp
    moreover have "\<forall>d \<in> set ?ds. d < b" using ds(3) md by (auto simp: nat_less_iff)
    moreover have "hd ?ds \<noteq> 0"
    proof (cases "ds = []")
      case True
      then have "?x div int b = 0" using ds(2) qr(3) by (simp add: horner_def)
      then have "?x mod int b = ?x" by (metis add_0 mult_zero_right mult_div_mod_eq)
      then show ?thesis using True x by simp
    qed (use ds(4) in simp)
    ultimately show ?thesis by blast
  qed
qed

section \<open>Reading the digits\<close>

lemma unat_widened: "n < 2 ^ 32 \<Longrightarrow> unat (ucast (of_nat n :: u32) :: u64) = n"
  by (simp add: unsigned_ucast_eq unat_of_nat take_bit_nat_eq_self)

lemma hex_cases: "d < 16 \<Longrightarrow> d \<in> {0, 1, 2, 3, 4, 5, 6, 7, 8, 9, 10, 11, 12, 13, 14, 15 :: nat}"
  by simp presburger

lemma hex_char_base:
  assumes "d < 16"
  shows "is_digit_char (hex_char d)" "hex_char d \<noteq> CHR ''.''" "hex_char d = CHR ''0'' \<longleftrightarrow> d = 0"
    "(if code (hex_char d) \<le> code (CHR ''9'') then int (code (hex_char d)) - int (code (CHR ''0''))
      else int (code (hex_char d)) - int (code (CHR ''A'')) + 10) = int d"
    "int (code (hex_char d)) - int (code (CHR ''0'')) = (if d \<le> 9 then int d else int d + 7)"
  using hex_cases [OF assms] by (auto simp: is_digit_char_def isdigit_def hex_char_def bb_hexdigits_upcase_def)

lemma parse_digit_correct:
  assumes "d < b" "b \<le> 16"
  shows "parse_digit (of_nat b - 1) (hex_char d) = of_nat d"
proof -
  have "d < 16" using assms by simp
  have "unat (of_nat b - 1 :: u32) = b - 1" using assms by (simp add: unat_sub unat_of_nat word_le_nat_alt)
  moreover have "unat (of_nat d :: u32) = d" using \<open>d < 16\<close> by (simp add: unat_of_nat)
  ultimately have "\<not> (of_nat d :: u32) > of_nat b - 1" using assms by (simp add: word_less_nat_alt)
  then show ?thesis unfolding parse_digit_def hex_char_base(4) [OF \<open>d < 16\<close>] Let_def by simp
qed

lemma parse_int_correct:
  assumes b: "2 \<le> b" "b \<le> 16" "base = bc_num_ulong2num (ucast (of_nat b :: u32))" and size: "2 * (k + 2) + 4 \<le> BC_MAX_NUM"
  shows "whole n \<Longrightarrow> \<forall>d \<in> set ds. d < b \<Longrightarrow> horner b (dval (num n)) ds < 10 ^ k \<Longrightarrow>
    \<exists>m. parse_int base (of_nat b - 1) n (map hex_char ds) = (m, None) \<and> whole m \<and> dval (num m) = horner b (dval (num n)) ds"
proof (induction ds arbitrary: n)
  case Nil
  then show ?case by (simp add: horner_def)
next
  case (Cons d ds)
  have "unat (ucast (of_nat b :: u32) :: u64) = b" using b by (intro unat_widened) simp
  then have base: "whole base" "dval (num base) = int b" using ulong2num_correct [of "ucast (of_nat b :: u32)"] b(3) by simp_all
  then have lb: "len base \<le> 2" using b(2) by (intro whole_len) simp_all
  have nn: "0 \<le> dval (num n)" using Cons.prems(1) whole_digits by simp
  let ?z = "dval (num n) * int b + int d"
  have "dval (num n) \<le> horner b (dval (num n)) (d # ds)" using b(1) nn by (intro horner_ge) simp_all
  then have "len n \<le> k" using Cons.prems(3) by (intro whole_len [OF Cons.prems(1)]) linarith
  then obtain m where m: "zbc_num_mul n base 0 = Inr m" "whole m" "dval (num m) = dval (num n) * int b"
    using whole_mul [OF Cons.prems(1) base(1)] lb size by (auto simp: base(2))
  have dig: "parse_digit (of_nat b - 1) (hex_char d) = of_nat d" using Cons.prems(2) b(2) by (intro parse_digit_correct) simp_all
  have "unat (ucast (of_nat d :: u32) :: u64) = d" using Cons.prems(2) b(2) by (intro unat_widened) simp
  then have "whole (bc_num_ulong2num (ucast (of_nat d :: u32)))" "dval (num (bc_num_ulong2num (ucast (of_nat d :: u32)))) = int d"
    using ulong2num_correct [of "ucast (of_nat d :: u32)"] by simp_all
  then obtain n' where n': "zbc_num_add m (bc_num_ulong2num (ucast (of_nat d :: u32))) = Inr n'" "whole n'" "dval (num n') = ?z"
    using whole_add [OF m(2)] m(3) by fastforce
  have h: "horner b ?z ds = horner b (dval (num n)) (d # ds)" by (simp add: horner_def)
  then obtain p where p: "parse_int base (of_nat b - 1) n' (map hex_char ds) = (p, None)" "whole p" "dval (num p) = horner b ?z ds"
    using Cons.IH [OF n'(2)] Cons.prems(2,3) by (auto simp: n'(3))
  have "hex_char d \<noteq> CHR ''.''" using Cons.prems(2) b(2) by (intro hex_char_base) simp
  then have "parse_int base (of_nat b - 1) n (map hex_char (d # ds)) = (p, None)" using m(1) n'(1) p(1) by (simp add: dig)
  then show ?case using p(2,3) h by auto
qed

section \<open>The round trip\<close>

lemma hex_digits_one_dot: "\<forall>d \<in> set ds. d < 16 \<Longrightarrow> one_dot pt (map hex_char ds)"
  by (induction ds) (auto simp: hex_char_base)

lemma parse_one_digit:
  assumes "d < 16" "d \<noteq> 0"
  shows "bc_num_parseDecimal [hex_char d] = bc_num_ulong2num (of_nat d)"
  using hex_cases [OF assms(1)] assms(2)
  by (auto simp: bc_num_parseDecimal_def hex_char_def bb_hexdigits_upcase_def bc_num_ulong2num_def bc_num_zero_def bc_num_setToZero_def
      Let_def ulong_digits.simps)

lemma parse_base_text:
  assumes "2 \<le> b" "b \<le> 16" "b \<noteq> 10" "whole n" "2 * (len n + 2) + 4 \<le> BC_MAX_NUM"
    "horner b 0 ds = dval (num n)" "\<forall>d \<in> set ds. d < b" "ds \<noteq> []" "hd ds \<noteq> 0"
  shows "zxc_num_parse (map hex_char ds) (of_nat b) = Inr n"
proof -
  obtain d es where ds: "ds = d # es" "d \<noteq> 0" using assms(8,9) by (cases ds) auto
  have "d < 16" using assms(2,7) ds(1) by simp
  note d = hex_char_base [OF this]
  have valid: "xc_num_strValid (map hex_char ds)" unfolding xc_num_strValid_def
    using assms(2,7) by (intro strValid_one_dot hex_digits_one_dot) auto
  have drop: "dropWhile (\<lambda>c. c = CHR ''0'') (map hex_char ds) = map hex_char ds" using d(3) ds by simp
  have ex: "list_ex (\<lambda>c. c \<noteq> CHR ''.'' \<and> c \<noteq> CHR ''0'') (map hex_char ds)" using d(2,3) ds by simp
  have z: "whole bc_num_zero" "dval (num bc_num_zero) = 0" by (simp_all add: whole_def bc_ok_def bc_num_zero_def bc_num_setToZero_def)
  have b10: "(of_nat b :: u32) \<noteq> 10"
  proof
    assume "(of_nat b :: u32) = 10"
    then have "unat (of_nat b :: u32) = unat (10 :: u32)" by simp
    then show False using assms(2,3) by (simp add: unat_of_nat)
  qed
  show ?thesis
  proof (cases "es = []")
    case True
    have "unat (of_nat d :: u64) = d" using \<open>d < 16\<close> by (simp add: unat_of_nat)
    then have "dval (num (bc_num_ulong2num (of_nat d))) = dval (num n)" "whole (bc_num_ulong2num (of_nat d))"
      using ulong2num_correct [of "of_nat d"] assms(6) True ds(1) by (simp_all add: horner_def)
    then have "bc_num_ulong2num (of_nat d) = n" using whole_unique assms(4) by blast
    then have "bc_num_parseDecimal (map hex_char ds) = n" using parse_one_digit [OF \<open>d < 16\<close> ds(2)] True ds(1) by simp
    then show ?thesis unfolding zxc_num_parse_def Let_def drop using valid ex True ds(1) by simp
  next
    case False
    have "dval (num n) < 10 ^ len n" by (rule dval_less [OF whole_digits [OF assms(4)]])
    then obtain m where m: "parse_int (bc_num_ulong2num (ucast (of_nat b :: u32))) (of_nat b - 1) bc_num_zero (map hex_char ds) = (m, None)"
      "whole m" "dval (num m) = dval (num n)"
      using parse_int_correct [OF assms(1,2) refl assms(5) z(1) assms(7)] assms(6) z(2) by auto
    then have "bc_num_parseBase (map hex_char ds) (of_nat b) = n" using whole_unique [OF m(2) assms(4)]
      by (simp add: bc_num_parseBase_def)
    moreover have "length (map hex_char ds) \<noteq> 1" using False ds(1) by simp
    ultimately show ?thesis unfolding zxc_num_parse_def Let_def drop using valid ex b10 by simp
  qed
qed

lemma print_base:
  assumes "2 \<le> b" "b \<le> 16" "b \<noteq> 10" "whole n" "num n \<noteq> []" "2 * (len n + 10) + 4 \<le> BC_MAX_NUM" "nchars s = 0" "2 \<le> line"
  shows "\<exists>ds c cs t s'. map hex_char ds = c # cs \<and> horner b 0 ds = dval (num n) \<and> (\<forall>d \<in> set ds. d < b) \<and> hd ds \<noteq> 0
    \<and> zxc_num_print line (of_nat b) n False s = (s', Inr ()) \<and> out s' = out s @ c # t \<and> broken cs t"
proof -
  have un: "unat (of_nat b :: u32) = b" using assms(2) by (simp add: unat_of_nat)
  have b: "(of_nat b :: u32) \<noteq> 10" "(of_nat b :: u32) \<le> 16"
    using assms(2,3) by (auto simp: word_unat_eq_iff word_le_nat_alt un)
  let ?base = "bc_num_ulong2num (ucast (of_nat b :: u32))"
  have base: "whole ?base" "dval (num ?base) = int b"
    using ulong2num_correct [of "ucast (of_nat b :: u32)"] unat_widened [of b] assms(2) by simp_all
  then have lb: "len ?base \<le> 10" using assms(2) by (intro whole_len) simp_all
  have lt: "dval (num n) < 2 ^ (4 * len n)"
  proof -
    have "dval (num n) < 10 ^ len n" by (rule dval_less [OF whole_digits [OF assms(4)]])
    also have "\<dots> \<le> 16 ^ len n" by (rule power_mono) simp_all
    finally show ?thesis by (simp add: power_mult)
  qed
  obtain ds where ds: "print_stack (Suc (4 * len n)) ?base n [] = Inr (map of_nat ds)" "horner b 0 ds = dval (num n)" "\<forall>d \<in> set ds. d < b"
    "ds = [] \<or> hd ds \<noteq> 0"
    using print_stack_correct [OF base assms(1) _ lb assms(4) lt, of "[]"] assms(2,6) by auto
  have "dval (num n) \<noteq> 0" using ok_nonzero [of n] assms(4,5) by (simp add: whole_def)
  then obtain d es where de: "ds = d # es" "d \<noteq> 0" using ds(2,4) by (cases ds) (auto simp: horner_def)
  have n: "rdx n = 0" "\<not> neg n" "bc_ok n" using assms(4) by (simp_all add: whole_def)
  have nl: "bc_num_printNewline line s = s" using assms(7,8) by (simp add: bc_num_printNewline_def)
  define hex where "hex d = bc_num_printHex line d 1 False" for d
  have nn: "n\<lparr>neg := False\<rparr> = n" using n(2) by (cases n) simp
  have tr: "bc_num_truncate n 0 = n" by (simp add: bc_num_truncate_def)
  obtain f where f: "zbc_num_sub n n = Inr f" using sub_correct [OF n(3), of n] n(3) by auto
  have fold: "fold (\<lambda>dig. hex (unat dig)) (map of_nat ds :: u64 list) s = fold hex ds s"
  proof -
    have "fold (\<lambda>dig. hex (unat dig)) (map of_nat ds :: u64 list) s = fold (\<lambda>d. hex (unat (of_nat d :: u64))) ds s"
      by (simp add: fold_map comp_def)
    also have "\<dots> = fold hex ds s" using ds(3) assms(2) by (intro fold_cong) (auto simp: unat_of_nat)
    finally show ?thesis .
  qed
  have "zxc_num_printNum n (of_nat b) (\<lambda>d. bc_num_printHex line d 1) s = (fold hex ds s, Inr ())"
    unfolding zxc_num_printNum_def n(1) tr f Let_def sum.case Suc_eq_plus1 [symmetric] ds(1) hex_def [symmetric] fold
    using assms(5) by simp
  then have p: "zxc_num_print line (of_nat b) n False s = (fold hex ds s, Inr ())"
    unfolding zxc_num_print_def zxc_num_printBase_def nl Let_def nn using n(2) b assms(5) by simp
  obtain t where t: "out (hex d s) = out s @ hex_char d # t" "t = []"
    using hex_first [OF assms(7,8), of d 1 False] by (auto simp: hex_def)
  have "prints (concat (map (\<lambda>d. [hex_char d]) es)) (fold hex es)"
    unfolding hex_def using prints_hex [of False] by (intro prints_fold) simp
  then obtain u where u: "out (fold hex es (hex d s)) = out (hex d s) @ u" "broken (map hex_char es) u"
    unfolding prints_def by (metis concat_map_singleton)
  have "out (fold hex ds s) = out s @ hex_char d # u" using u(1) t by (simp add: de(1))
  moreover have "map hex_char ds = hex_char d # map hex_char es" "hd ds \<noteq> 0" using de by simp_all
  ultimately show ?thesis using ds(2,3) u(2) p
    by (intro exI [of _ ds] exI [of _ "hex_char d"] exI [of _ "map hex_char es"] exI [of _ u] exI [of _ "fold hex ds s"]) simp
qed

lemma print_scan_parse_base:
  assumes "2 \<le> b" "b \<le> 16" "bc_ok n" "rdx n = 0" "num n \<noteq> []" "\<not> neg n" "2 * len n + 24 \<le> BC_MAX_NUM" "2 \<le> line" "ends_number rest"
  shows "\<exists>c t. out (fst (zxc_num_print line (of_nat b) n False \<lparr>out = [], nchars = 0\<rparr>)) = c # t \<and>
    (\<exists>buf k'. zxc_lex_number is_bc c (t @ rest) k = (buf, rest, k') \<and> zxc_num_parse buf (of_nat b) = Inr n)"
proof (cases "b = 10")
  case True
  then show ?thesis using print_scan_parse [OF assms(3,5,6,8,9)] by simp
next
  case False
  have w: "whole n" using assms by (simp add: whole_def)
  have size: "2 * (len n + 2) + 4 \<le> BC_MAX_NUM" "2 * (len n + 10) + 4 \<le> BC_MAX_NUM" using assms(7) by simp_all
  have z: "nchars \<lparr>out = [], nchars = 0\<rparr> = 0" by simp
  obtain ds c cs t s' where t: "map hex_char ds = c # cs" "horner b 0 ds = dval (num n)" "\<forall>d \<in> set ds. d < b" "hd ds \<noteq> 0"
    "zxc_num_print line (of_nat b) n False \<lparr>out = [], nchars = 0\<rparr> = (s', Inr ())" "broken cs t" "out s' = out \<lparr>out = [], nchars = 0\<rparr> @ c # t"
    using print_base [OF assms(1,2) False w assms(5) size(2) z assms(8)] by (elim exE conjE) (rule that)
  have "ds \<noteq> []" using t(1) by auto
  have "zxc_num_parse (c # cs) (of_nat b) = Inr n"
    using parse_base_text [OF assms(1,2) False w size(1) t(2,3) \<open>ds \<noteq> []\<close> t(4)] t(1) by simp
  moreover have small: "\<forall>d \<in> set ds. d < 16" using t(3) assms(2) by auto
  then have "one_dot False (c # cs)" using hex_digits_one_dot [of ds False] by (simp only: t(1))
  moreover have "List.last (c # cs) \<noteq> CHR ''.''"
  proof -
    have "List.last (map hex_char ds) = hex_char (List.last ds)" using \<open>ds \<noteq> []\<close> by (rule last_map)
    moreover have "List.last ds < 16" using small \<open>ds \<noteq> []\<close> by simp
    ultimately show ?thesis using hex_char_base(2) t(1) by metis
  qed
  ultimately show ?thesis using lex_number_broken [OF assms(9) t(6), of c is_bc k] t(5,7) by fastforce
qed

end
