(* ===== verification/Bc_Props.thy ===== *)
theory Bc_Props
  imports Bc_Base "HOL-Library.Code_Target_Nat"
begin

text \<open>
  What the arithmetic of \<^verbatim>\<open>bc.c\<close> promises its callers.  A binary operation takes well-formed numbers to a well-formed
  number with a given value; the locale \<open>bc_operation\<close> states this contract and what follows from it, and each operation is
  an interpretation of it.
\<close>

section \<open>The contract of an operation\<close>

locale bc_operation =
  fixes f :: "BcNum \<Rightarrow> BcNum \<Rightarrow> BcNum bc" and fits :: "BcNum \<Rightarrow> BcNum \<Rightarrow> bool"
    and places :: "BcNum \<Rightarrow> BcNum \<Rightarrow> nat" and spec :: "BcNum \<Rightarrow> BcNum \<Rightarrow> rat"
  assumes computes: "bc_ok a \<Longrightarrow> bc_ok b \<Longrightarrow> fits a b \<Longrightarrow>
    \<exists>c. f a b = Inr c \<and> bc_ok c \<and> rdx c = places a b \<and> bc_value c = spec a b"
begin

lemma result: "bc_ok a \<Longrightarrow> bc_ok b \<Longrightarrow> fits a b \<Longrightarrow> f a b = Inr c \<Longrightarrow> bc_ok c \<and> rdx c = places a b \<and> bc_value c = spec a b"
  using computes by fastforce

lemma well_formed: "bc_ok a \<Longrightarrow> bc_ok b \<Longrightarrow> fits a b \<Longrightarrow> \<exists>c. f a b = Inr c \<and> bc_ok c"
  using computes by blast

text \<open>Comparing the result compares its value.\<close>

lemma compare_result:
  assumes "bc_ok a" "bc_ok b" "fits a b" "bc_ok d" "f a b = Inr c"
  shows "of_int (sgn (bc_num_cmp c d)) = sgn (spec a b - bc_value d)"
  using cmp_sgn [of c d] result [OF assms(1-3,5)] assms(4) by simp

end

section \<open>The operations\<close>

text \<open>Numbers short enough for the operations not to reach the longest length.\<close>

definition bc_size :: "nat \<Rightarrow> BcNum \<Rightarrow> BcNum \<Rightarrow> bool" where
  "bc_size scale a b \<longleftrightarrow> 2 * (len a + len b + 2 * rdx a + 2 * rdx b + 2 * scale) + 4 \<le> BC_MAX_NUM"

interpretation bc_add: bc_operation zbc_num_add "\<lambda>a b. True" sum_rdx "\<lambda>a b. bc_value a + bc_value b"
  by unfold_locales (use add_correct in blast)

interpretation bc_sub: bc_operation zbc_num_sub "\<lambda>a b. True" sum_rdx "\<lambda>a b. bc_value a - bc_value b"
  by unfold_locales (use sub_correct in blast)

interpretation bc_mul: bc_operation "\<lambda>a b. zbc_num_mul a b scale" "bc_size scale" "\<lambda>a b. mul_scale a b scale"
    "\<lambda>a b. bc_cut (mul_scale a b scale) (bc_value a * bc_value b)" for scale
proof unfold_locales
  fix a b assume "bc_ok a" "bc_ok b" "bc_size scale a b"
  moreover from this have "2 * (max (len a) (len b) + rdx a + rdx b) + 4 \<le> BC_MAX_NUM" by (auto simp: bc_size_def)
  ultimately show "\<exists>c. zbc_num_mul a b scale = Inr c \<and> bc_ok c \<and> rdx c = mul_scale a b scale
      \<and> bc_value c = bc_cut (mul_scale a b scale) (bc_value a * bc_value b)"
    unfolding zbc_num_mul_def by (intro m_correct)
qed

interpretation bc_div: bc_operation "\<lambda>a b. zbc_num_div a b scale" "\<lambda>a b. num b \<noteq> []" "\<lambda>a b. scale"
    "\<lambda>a b. bc_cut scale (bc_value a / bc_value b)" for scale
  by unfold_locales (use d_correct in \<open>auto simp: zbc_num_div_def\<close>)

interpretation bc_mod: bc_operation "\<lambda>a b. zbc_num_mod a b scale" "\<lambda>a b. num b \<noteq> [] \<and> bc_size scale a b"
    "\<lambda>a b. max (scale + rdx b) (rdx a)" "\<lambda>a b. bc_value a - bc_cut scale (bc_value a / bc_value b) * bc_value b" for scale
proof unfold_locales
  fix a b assume a: "bc_ok a" "bc_ok b" "num b \<noteq> [] \<and> bc_size scale a b"
  then have "2 * (len a + len b + 2 * rdx b + 2 * scale) + 4 \<le> BC_MAX_NUM" by (simp add: bc_size_def)
  then show "\<exists>c. zbc_num_mod a b scale = Inr c \<and> bc_ok c \<and> rdx c = max (scale + rdx b) (rdx a)
      \<and> bc_value c = bc_value a - bc_cut scale (bc_value a / bc_value b) * bc_value b"
    using r_correct [OF a(1,2) _ refl, of scale bc_num_zero] a(3) by (auto simp: zbc_num_mod_def zbc_num_rem_def)
qed

lemma by_zero: "num b = [] \<Longrightarrow> zbc_num_div a b scale = Inl (Bc_error ''divide by zero'')"
    "num b = [] \<Longrightarrow> zbc_num_mod a b scale = Inl (Bc_error ''divide by zero'')"
  by (simp_all add: zbc_num_div_def zbc_num_d_def zbc_num_mod_def zbc_num_rem_def zbc_num_r_def)

section \<open>Properties\<close>

text \<open>C9. The operations of bc keep numbers well formed.  On well-formed operands (decimal digits, no more places than digits, a
  digit other than zero in front of an integer part, zero only as the number without digits and never negative) addition,
  subtraction, multiplication, division and remainder return a well-formed number; the only failure is ''divide by
  zero'', and only for a divisor without digits.  In particular no digit outside a number is read or written, and every loop and
  recursion ends within its fuel.\<close>

theorem bc_operations_well_formed:
  assumes "bc_ok a" "bc_ok b" "bc_size scale a b"
  shows "list_all (\<lambda>op. case op of Inr c \<Rightarrow> bc_ok c | Inl e \<Rightarrow> False)
      [zbc_num_add a b, zbc_num_sub a b, zbc_num_mul a b scale]
    \<and> list_all (\<lambda>op. case op of Inr c \<Rightarrow> bc_ok c \<and> num b \<noteq> [] | Inl e \<Rightarrow> e = Bc_error ''divide by zero'' \<and> num b = [])
      [zbc_num_div a b scale, zbc_num_mod a b scale]"
proof (cases "num b = []")
  case True
  obtain c d e where "zbc_num_add a b = Inr c" "bc_ok c" "zbc_num_sub a b = Inr d" "bc_ok d" "zbc_num_mul a b scale = Inr e" "bc_ok e"
    using bc_add.well_formed bc_sub.well_formed bc_mul.well_formed assms by metis
  then show ?thesis using True by (simp add: by_zero)
next
  case False
  obtain c d e where "zbc_num_add a b = Inr c" "bc_ok c" "zbc_num_sub a b = Inr d" "bc_ok d" "zbc_num_mul a b scale = Inr e" "bc_ok e"
    using bc_add.well_formed bc_sub.well_formed bc_mul.well_formed assms by metis
  moreover obtain q r where "zbc_num_div a b scale = Inr q" "bc_ok q" "zbc_num_mod a b scale = Inr r" "bc_ok r"
    using bc_div.well_formed bc_mod.well_formed False assms by metis
  ultimately show ?thesis using False by simp
qed

theorem bc_operations_well_formed_witness:
  "bc_ok \<lparr>num = [5, 2, 1], rdx = 1, neg = False\<rparr> \<and> bc_ok \<lparr>num = [5, 7], rdx = 2, neg = True\<rparr>
    \<and> zbc_num_mul \<lparr>num = [5, 2, 1], rdx = 1, neg = False\<rparr> \<lparr>num = [5, 7], rdx = 2, neg = True\<rparr> 3 = Inr \<lparr>num = [5, 7, 3, 9], rdx = 3, neg = True\<rparr>
    \<and> bc_ok \<lparr>num = [5, 7, 3, 9], rdx = 3, neg = True\<rparr>"
proof -
  have ok: "bc_ok \<lparr>num = [5, 2, 1], rdx = 1, neg = False\<rparr>" "bc_ok \<lparr>num = [5, 7], rdx = 2, neg = True\<rparr>"
    by (simp_all add: bc_ok_def)
  have m: "zbc_num_mul \<lparr>num = [5, 2, 1], rdx = 1, neg = False\<rparr> \<lparr>num = [5, 7], rdx = 2, neg = True\<rparr> 3 = Inr \<lparr>num = [5, 7, 3, 9], rdx = 3, neg = True\<rparr>"
    by code_simp
  have "bc_size 3 \<lparr>num = [5, 2, 1], rdx = 1, neg = False\<rparr> \<lparr>num = [5, 7], rdx = 2, neg = True\<rparr>" by (simp add: bc_size_def BC_MAX_NUM_def)
  note t = bc_operations_well_formed [OF ok this, unfolded m]
  show ?thesis unfolding m using t ok by simp
qed


text \<open>C13. Addition and subtraction are exact, and the sign of a comparison is the sign of the difference of the values.\<close>

theorem bc_add_sub_cmp:
  assumes "bc_ok a" "bc_ok b"
  shows "\<exists>c d. zbc_num_add a b = Inr c \<and> bc_ok c \<and> bc_value c = bc_value a + bc_value b \<and> rdx c = sum_rdx a b
    \<and> zbc_num_sub a b = Inr d \<and> bc_ok d \<and> bc_value d = bc_value a - bc_value b \<and> rdx d = sum_rdx a b
    \<and> of_int (sgn (bc_num_cmp a b)) = sgn (bc_value a - bc_value b)"
  using bc_add.computes [OF assms] bc_sub.computes [OF assms] cmp_sgn [OF assms] by auto

theorem bc_add_sub_cmp_witness:
  "zbc_num_sub \<lparr>num = [5, 0, 0, 1], rdx = 1, neg = False\<rparr> \<lparr>num = [5, 7, 9, 9], rdx = 2, neg = False\<rparr> = Inr \<lparr>num = [5, 7], rdx = 2, neg = False\<rparr>
    \<and> bc_value \<lparr>num = [5, 7], rdx = 2, neg = False\<rparr> = 3 / 4"
proof -
  have ok: "bc_ok \<lparr>num = [5, 0, 0, 1], rdx = 1, neg = False\<rparr>" "bc_ok \<lparr>num = [5, 7, 9, 9], rdx = 2, neg = False\<rparr>"
    by (simp_all add: bc_ok_def)
  have "zbc_num_sub \<lparr>num = [5, 0, 0, 1], rdx = 1, neg = False\<rparr> \<lparr>num = [5, 7, 9, 9], rdx = 2, neg = False\<rparr> = Inr \<lparr>num = [5, 7], rdx = 2, neg = False\<rparr>"
    by code_simp
  with bc_add_sub_cmp [OF ok] show ?thesis by (auto simp: bc_value_def bc_abs_def)
qed

text \<open>C7. The product, whichever of the two methods computes it (row by row, or by Karatsuba's division of the digits from 32 digits
  on), is the exact product cut behind the places that bc gives a product.\<close>

theorem bc_mul_correct:
  assumes "bc_ok a" "bc_ok b" "bc_size scale a b"
  shows "\<exists>c. zbc_num_mul a b scale = Inr c \<and> bc_ok c \<and> rdx c = min (rdx a + rdx b) (max scale (max (rdx a) (rdx b)))
    \<and> bc_value c = bc_cut (rdx c) (bc_value a * bc_value b)"
  using bc_mul.computes [OF assms] by (auto simp: mul_scale_def)

theorem bc_mul_correct_witness:
  "\<exists>c. zbc_num_mul \<lparr>num = replicate 33 9, rdx = 0, neg = False\<rparr> \<lparr>num = replicate 33 9, rdx = 0, neg = True\<rparr> 0 = Inr c \<and> bc_ok c \<and> rdx c = 0
    \<and> bc_value c = bc_cut 0 (bc_value \<lparr>num = replicate 33 9, rdx = 0, neg = False\<rparr> * bc_value \<lparr>num = replicate 33 9, rdx = 0, neg = True\<rparr>)"
proof -
  have ok: "bc_ok \<lparr>num = replicate 33 9, rdx = 0, neg = n\<rparr>" for n by (simp add: bc_ok_def eval_nat_numeral)
  have "bc_size 0 \<lparr>num = replicate 33 9, rdx = 0, neg = False\<rparr> \<lparr>num = replicate 33 9, rdx = 0, neg = True\<rparr>"
    by (simp add: bc_size_def BC_MAX_NUM_def)
  from bc_mul_correct [OF ok ok this] show ?thesis by fastforce
qed

text \<open>The error of cutting: smaller than the last place, towards zero.\<close>

lemma cut_error: "\<bar>x - bc_cut s x\<bar> < 1 / 10 ^ s \<and> (x - bc_cut s x = 0 \<or> sgn (x - bc_cut s x) = sgn x)"
proof -
  define f where "f = \<bar>x\<bar> * 10 ^ s - of_int \<lfloor>\<bar>x\<bar> * 10 ^ s\<rfloor>"
  have f: "0 \<le> f" "f < 1" unfolding f_def by linarith+
  have "x - bc_cut s x = sgn x * (f / 10 ^ s)"
  proof -
    have "x = sgn x * (\<bar>x\<bar> * 10 ^ s) / 10 ^ s" by (simp add: sgn_mult_abs)
    then have "x - bc_cut s x = sgn x * (\<bar>x\<bar> * 10 ^ s) / 10 ^ s - sgn x * of_int \<lfloor>\<bar>x\<bar> * 10 ^ s\<rfloor> / 10 ^ s" by (simp only: bc_cut_def)
    then show ?thesis by (simp add: f_def diff_divide_distrib right_diff_distrib)
  qed
  moreover have "\<bar>sgn x * (f / 10 ^ s)\<bar> < 1 / 10 ^ s" using f by (cases "x = 0") (simp_all add: abs_mult divide_strict_right_mono)
  moreover have "sgn x * (f / 10 ^ s) = 0 \<or> sgn (sgn x * (f / 10 ^ s)) = sgn x" using f(1) by (cases "f = 0") (simp_all add: sgn_mult)
  ultimately show ?thesis by metis
qed

lemma rem_error:
  fixes a b :: rat
  assumes "b \<noteq> 0"
  shows "\<bar>a - bc_cut s (a / b) * b\<bar> < \<bar>b\<bar> / 10 ^ s \<and> (a - bc_cut s (a / b) * b = 0 \<or> sgn (a - bc_cut s (a / b) * b) = sgn a)"
proof -
  let ?e = "a / b - bc_cut s (a / b)"
  have r: "a - bc_cut s (a / b) * b = ?e * b" using assms by (simp add: left_diff_distrib)
  have "\<bar>?e * b\<bar> < 1 / 10 ^ s * \<bar>b\<bar>" unfolding abs_mult using cut_error [of "a / b" s] assms by (intro mult_strict_right_mono) auto
  moreover have "?e * b = 0 \<or> sgn (?e * b) = sgn a"
    using cut_error [of "a / b" s] assms by (auto simp: sgn_mult sgn_divide)
  ultimately show ?thesis unfolding r by simp
qed

text \<open>C8. Division cuts the exact quotient behind \<open>scale\<close> places; the remainder is what the cut quotient leaves: it is
  smaller than the last place of the quotient times the divisor, it has the sign of the dividend unless it is zero, and it is
  given with enough places to be exact.  Both report a division by zero.\<close>

theorem bc_div_mod_correct:
  assumes "bc_ok a" "bc_ok b" "bc_size scale a b"
  shows "if num b = []
    then zbc_num_div a b scale = Inl (Bc_error ''divide by zero'') \<and> zbc_num_mod a b scale = Inl (Bc_error ''divide by zero'')
    else \<exists>q r. zbc_num_div a b scale = Inr q \<and> bc_ok q \<and> rdx q = scale \<and> bc_value q = bc_cut scale (bc_value a / bc_value b)
      \<and> zbc_num_mod a b scale = Inr r \<and> bc_ok r \<and> rdx r = max (scale + rdx b) (rdx a)
      \<and> bc_value a = bc_value q * bc_value b + bc_value r \<and> \<bar>bc_value r\<bar> < \<bar>bc_value b\<bar> / 10 ^ scale
      \<and> (bc_value r = 0 \<or> sgn (bc_value r) = sgn (bc_value a))"
proof (cases "num b = []")
  case False
  then have nz: "bc_value b \<noteq> 0" using bc_value_0 [OF assms(2)] by simp
  obtain q where q: "zbc_num_div a b scale = Inr q" "bc_ok q" "rdx q = scale" "bc_value q = bc_cut scale (bc_value a / bc_value b)"
    using bc_div.computes [OF assms(1,2) False] by blast
  obtain r where r: "zbc_num_mod a b scale = Inr r" "bc_ok r" "rdx r = max (scale + rdx b) (rdx a)"
    "bc_value r = bc_value a - bc_value q * bc_value b"
    using bc_mod.computes [OF assms(1,2)] False assms(3) q(4) by auto
  show ?thesis using q r rem_error [OF nz, of "bc_value a" scale] False by auto
qed (simp add: by_zero)

theorem bc_div_mod_correct_witness:
  "zbc_num_div \<lparr>num = [5, 2, 1], rdx = 1, neg = True\<rparr> \<lparr>num = [7], rdx = 0, neg = False\<rparr> 2 = Inr \<lparr>num = [8, 7, 1], rdx = 2, neg = True\<rparr>
    \<and> zbc_num_mod \<lparr>num = [5, 2, 1], rdx = 1, neg = True\<rparr> \<lparr>num = [7], rdx = 0, neg = False\<rparr> 2 = Inr \<lparr>num = [4, 0], rdx = 2, neg = True\<rparr>
    \<and> bc_value \<lparr>num = [8, 7, 1], rdx = 2, neg = True\<rparr> = bc_cut 2 (bc_value \<lparr>num = [5, 2, 1], rdx = 1, neg = True\<rparr> / bc_value \<lparr>num = [7], rdx = 0, neg = False\<rparr>)"
proof -
  have ok: "bc_ok \<lparr>num = [5, 2, 1], rdx = 1, neg = True\<rparr>" "bc_ok \<lparr>num = [7], rdx = 0, neg = False\<rparr>"
    by (simp_all add: bc_ok_def)
  have "bc_size 2 \<lparr>num = [5, 2, 1], rdx = 1, neg = True\<rparr> \<lparr>num = [7], rdx = 0, neg = False\<rparr>" by (simp add: bc_size_def BC_MAX_NUM_def)
  note t = bc_div_mod_correct [OF ok this]
  have m: "zbc_num_div \<lparr>num = [5, 2, 1], rdx = 1, neg = True\<rparr> \<lparr>num = [7], rdx = 0, neg = False\<rparr> 2 = Inr \<lparr>num = [8, 7, 1], rdx = 2, neg = True\<rparr>" by code_simp
  have n: "zbc_num_mod \<lparr>num = [5, 2, 1], rdx = 1, neg = True\<rparr> \<lparr>num = [7], rdx = 0, neg = False\<rparr> 2 = Inr \<lparr>num = [4, 0], rdx = 2, neg = True\<rparr>"
    by code_simp
  have ne: "num \<lparr>num = [7], rdx = 0, neg = False\<rparr> \<noteq> []" by simp
  obtain q where q: "zbc_num_div \<lparr>num = [5, 2, 1], rdx = 1, neg = True\<rparr> \<lparr>num = [7], rdx = 0, neg = False\<rparr> 2 = Inr q"
    "bc_value q = bc_cut 2 (bc_value \<lparr>num = [5, 2, 1], rdx = 1, neg = True\<rparr> / bc_value \<lparr>num = [7], rdx = 0, neg = False\<rparr>)"
    using t [unfolded if_not_P [OF ne]] by blast
  have "q = \<lparr>num = [8, 7, 1], rdx = 2, neg = True\<rparr>" using q(1) unfolding m by (rule Inr_inject [symmetric])
  then show ?thesis using m n q(2) by blast
qed

text \<open>The test of the exponent.\<close>

lemma int_check_code [code]:
  "int_check ds n = (if n = 0 then Inr ()
     else case ds of [] \<Rightarrow> Inl Bounds | d # ds \<Rightarrow> if d \<noteq> 0 then Inl (Bc_error ''not an integer'') else int_check ds (n - 1))"
  by (cases n) (simp_all split: list.split)

lemma int_check_fails:
  "n \<le> length ds \<Longrightarrow> \<exists>d \<in> set (take n ds). d \<noteq> 0 \<Longrightarrow> int_check ds n = Inl (Bc_error ''not an integer'')"
  by (induction ds n rule: int_check.induct) auto

lemma no_places_int:
  assumes "rdx b \<le> len b" "dval (take (rdx b) (num b)) = 0"
  shows "bc_value b \<in> \<int>"
proof -
  have "dval (num b) = 10 ^ rdx b * dval (drop (rdx b) (num b))" using dval_split [of "num b" "rdx b"] assms by (simp add: min_def)
  then have "bc_abs b = of_int (dval (drop (rdx b) (num b)))" by (simp add: bc_abs_def)
  then show ?thesis by (simp add: bc_value_def)
qed

lemma pow_not_int:
  assumes "bc_ok b" "bc_value b \<notin> \<int>"
  shows "zbc_num_pow a b scale = Inl (Bc_error ''not an integer'')"
proof -
  have "num b \<noteq> []" using assms bc_value_0 [of b] by auto
  then have r: "rdx b \<le> len b" using ok_rdx [OF assms(1)] by simp
  have "digits (take (rdx b) (num b))" using ok_digits [OF assms(1)] by simp
  then have "\<exists>d \<in> set (take (rdx b) (num b)). d \<noteq> 0" using no_places_int [OF r] assms(2) dval_0_iff by blast
  then show ?thesis using int_check_fails [OF r] by (simp add: zbc_num_pow_def zbc_num_p_def)
qed

text \<open>A zero that carries places is no zero exponent: the digits behind the point are looked at before the length.\<close>

lemma pow_zero_places: "num b = [] \<Longrightarrow> 0 < rdx b \<Longrightarrow> zbc_num_pow a b scale = Inl Bounds"
  by (cases "rdx b") (simp_all add: zbc_num_pow_def zbc_num_p_def)



text \<open>C12. The modular power of dc: for an integer base, a natural exponent and an integer modulus other than zero the result is congruent
  to the power, and smaller in size than the modulus unless the exponent is zero.  A zero modulus, an operand with places and a
  negative exponent are rejected, in this order.\<close>

theorem dc_modexp_correct:
  assumes "bc_ok a" "bc_ok b" "bc_ok c" "6 * (len a + len b + len c) + 10 \<le> BC_MAX_NUM"
  shows "if num c = [] then zdc_num_modexp a b c = Inl (Bc_error ''divide by zero'')
    else if \<not> (rdx a = 0 \<and> rdx b = 0 \<and> rdx c = 0) then zdc_num_modexp a b c = Inl (Bc_error ''not an integer'')
    else if bc_value b < 0 then zdc_num_modexp a b c = Inl (Bc_error ''negative number'')
    else \<exists>d x n m w. bc_value a = of_int x \<and> bc_value b = of_int n \<and> bc_value c = of_int m
      \<and> zdc_num_modexp a b c = Inr d \<and> bc_ok d \<and> rdx d = 0 \<and> bc_value d = of_int w
      \<and> w mod m = x ^ nat n mod m \<and> (0 < n \<longrightarrow> \<bar>w\<bar> < \<bar>m\<bar>)"
proof -
  have int: "\<exists>z. bc_int d z" if "bc_ok d" "rdx d = 0" for d
    using that value_scaled [of d] by (auto simp: bc_int_def)
  have neg: "neg b \<longleftrightarrow> bc_value b < 0"
  proof (cases "num b = []")
    case True
    then show ?thesis using assms(2) bc_value_0 [OF assms(2)] by (simp add: bc_ok_def)
  next
    case False
    then show ?thesis using bc_value_neg [OF assms(2)] by (auto simp: sgn_if split: if_splits)
  qed
  show ?thesis
  proof (cases "num c \<noteq> [] \<and> rdx a = 0 \<and> rdx b = 0 \<and> rdx c = 0 \<and> \<not> bc_value b < 0")
    case True
    then obtain x n m where i: "bc_int a x" "bc_int b n" "bc_int c m" using int assms(1-3) by metis
    then have "0 \<le> n" "m \<noteq> 0" using True int_Nil [OF i(3)] by (auto simp: bc_int_def)
    from modexp_correct [OF i(1,2) this(1) i(3) this(2) assms(4)]
    obtain d w where "zdc_num_modexp a b c = Inr d" "bc_int d w" "w mod m = x ^ nat n mod m" "0 < n \<longrightarrow> \<bar>w\<bar> < \<bar>m\<bar>" by blast
    moreover have "bc_value a = of_int x" "bc_value b = of_int n" "bc_value c = of_int m" using i by (simp_all add: bc_int_def)
    ultimately show ?thesis using True by (simp only: bc_int_def if_False simp_thms) blast
  next
    case False
    then show ?thesis by (auto simp: zdc_num_modexp_def neg)
  qed
qed

theorem dc_modexp_correct_witness:
  "zdc_num_modexp \<lparr>num = [7], rdx = 0, neg = False\<rparr> \<lparr>num = [3, 1], rdx = 0, neg = False\<rparr> \<lparr>num = [1, 1], rdx = 0, neg = False\<rparr> = Inr \<lparr>num = [2], rdx = 0, neg = False\<rparr>
    \<and> 2 mod 11 = (7 ^ 13 mod 11 :: int)"
proof -
  have ok: "bc_ok \<lparr>num = [7], rdx = 0, neg = False\<rparr>" "bc_ok \<lparr>num = [3, 1], rdx = 0, neg = False\<rparr>" "bc_ok \<lparr>num = [1, 1], rdx = 0, neg = False\<rparr>"
    by (simp_all add: bc_ok_def)
  have m: "zdc_num_modexp \<lparr>num = [7], rdx = 0, neg = False\<rparr> \<lparr>num = [3, 1], rdx = 0, neg = False\<rparr> \<lparr>num = [1, 1], rdx = 0, neg = False\<rparr> = Inr \<lparr>num = [2], rdx = 0, neg = False\<rparr>"
    by code_simp
  have "6 * (len \<lparr>num = [7], rdx = 0, neg = False\<rparr> + len \<lparr>num = [3, 1], rdx = 0, neg = False\<rparr> + len \<lparr>num = [1, 1], rdx = 0, neg = False\<rparr>) + 10 \<le> BC_MAX_NUM"
    by (simp add: BC_MAX_NUM_def)
  from dc_modexp_correct [OF ok this, unfolded m] show ?thesis unfolding m by (auto simp: bc_value_def bc_abs_def)
qed



end
